(* ===== verification/Prelude.thy ===== *)
theory Prelude
  imports Main "HOL-Library.Word" "HOL-Library.Sublist" "HOL-Library.Monad_Syntax"
    "HOL-Library.Code_Target_Numeral"
begin

text \<open>
  The prelude of the development: the machine integers of the Rust crate, the
  fact collections the component theories fill, and the generic lemmas on lists,
  options and iterated steps that the components share.

  Integers. A Rust \<open>u32\<close> is a \<open>32 word\<close>. A \<open>usize\<close> is a \<open>nat\<close>: every
  \<open>usize\<close> of the program is an offset into, or a count of, something in memory,
  except where the code itself guards with \<open>saturating_add\<close>; there the cap is
  written out (\<open>usat_add\<close>). \<open>saturating_sub\<close> is the subtraction of \<open>nat\<close>.
\<close>

named_theorems text_simps \<open>lengths, slices and boundaries of Rust strings\<close>
named_theorems json_simps \<open>lookups in JSON objects\<close>
named_theorems step_intros \<open>introduction rules that keep an invariant over a step\<close>

section \<open>Machine integers\<close>

type_synonym u8 = nat
type_synonym u32 = "32 word"

definition u32_max :: nat where
  "u32_max = 2 ^ 32 - 1"

definition usize_max :: nat where
  "usize_max = 2 ^ 64 - 1"

definition u64_limit :: nat where
  "u64_limit = 2 ^ 64"

definition usat_add :: "nat \<Rightarrow> nat \<Rightarrow> nat" where
  "usat_add a b = min (a + b) usize_max"

lemma usat_add_exact: "a + b \<le> usize_max \<Longrightarrow> usat_add a b = a + b"
  by (simp add: usat_add_def)

lemma usat_add_le: "usat_add a b \<le> a + b"
  by (simp add: usat_add_def)

lemma usat_add_ge: "a \<le> usize_max \<Longrightarrow> a \<le> usat_add a b"
  by (simp add: usat_add_def)

lemma usat_add_gt: "a < usize_max \<Longrightarrow> 0 < b \<Longrightarrow> a < usat_add a b"
  by (simp add: usat_add_def)

section \<open>Bounds-checked indexing\<close>

text \<open>\<open>xs[i]\<close> on a slice or a vector: \<open>None\<close> is the panic out of range.\<close>

fun index :: "'a list \<Rightarrow> nat \<Rightarrow> 'a option" where
  "index [] i = None"
| "index (x # xs) 0 = Some x"
| "index (x # xs) (Suc i) = index xs i"

lemma index_Some_iff: "index xs i = Some x \<longleftrightarrow> i < length xs \<and> xs ! i = x"
  by (induction xs i rule: index.induct) auto

lemma index_nth [simp]: "i < length xs \<Longrightarrow> index xs i = Some (xs ! i)"
  by (simp add: index_Some_iff)

lemma index_None_iff: "index xs i = None \<longleftrightarrow> length xs \<le> i"
  by (induction xs i rule: index.induct) auto

lemma index_append_length [simp]: "index (xs @ y # ys) (length xs) = Some y"
  by (simp add: index_Some_iff)

text \<open>\<open>xs[i] = x\<close>, with the same panic.\<close>

definition set_at :: "'a list \<Rightarrow> nat \<Rightarrow> 'a \<Rightarrow> 'a list option" where
  "set_at xs i x = (if i < length xs then Some (xs[i := x]) else None)"

section \<open>Fallible maps\<close>

fun all_some :: "('a \<Rightarrow> 'b option) \<Rightarrow> 'a list \<Rightarrow> 'b list option" where
  "all_some f [] = Some []"
| "all_some f (x # xs) = do { y \<leftarrow> f x; ys \<leftarrow> all_some f xs; Some (y # ys) }"

lemma all_some_map: "\<forall>x\<in>set xs. f x = Some (g x) \<Longrightarrow> all_some f xs = Some (map g xs)"
  by (induction xs) auto

lemma all_some_total: "(\<And>x. x \<in> set xs \<Longrightarrow> \<exists>y. f x = Some y) \<Longrightarrow> \<exists>ys. all_some f xs = Some ys"
  by (induction xs) (auto, metis bind.bind_lunit)

lemma all_some_length: "all_some f xs = Some ys \<Longrightarrow> length ys = length xs"
  by (induction xs arbitrary: ys) (auto split: Option.bind_splits)

lemma all_some_nth: "all_some f xs = Some ys \<Longrightarrow> i < length xs \<Longrightarrow> f (xs ! i) = Some (ys ! i)"
  by (induction xs arbitrary: ys i) (auto split: Option.bind_splits simp: nth_Cons split: nat.splits)

section \<open>Stable insertion sort by a key\<close>

text \<open>
  \<open>sort_by_key\<close> of a Rust slice is stable; the library's \<open>sort_key\<close> is the stable
  sort by key too, and is what the model uses. These are the facts the components
  need of it.
\<close>

lemma sort_key_filter_eq:
  "sorted (map f xs) \<Longrightarrow> sort_key f xs = xs"
  by (rule sort_key_id_if_sorted) (simp add: sorted_map)

section \<open>Iterated steps\<close>

text \<open>
  Several components process a sequence of inputs with a state that each step
  returns updated (a measuring cursor, a cache, a server). \<open>run_steps\<close> runs such a
  step function and collects the answers; the contract \<open>stateful_query\<close> says that
  under an invariant each answer is the one a stateless reference gives, and its
  lemma lifts that to runs of any length.
\<close>

fun run_steps :: "('s \<Rightarrow> 'q \<Rightarrow> 'r \<times> 's) \<Rightarrow> 's \<Rightarrow> 'q list \<Rightarrow> 'r list \<times> 's" where
  "run_steps f s [] = ([], s)"
| "run_steps f s (q # qs) =
     (let (r, s') = f s q; (rs, s'') = run_steps f s' qs in (r # rs, s''))"

locale stateful_query =
  fixes query :: "'s \<Rightarrow> 'q \<Rightarrow> 'r \<times> 's"
    and good :: "'s \<Rightarrow> bool"
    and answer :: "'q \<Rightarrow> 'r"
  assumes query_answer: "good s \<Longrightarrow> fst (query s q) = answer q"
    and query_good: "good s \<Longrightarrow> good (snd (query s q))"
begin

lemma run_answers: "good s \<Longrightarrow> fst (run_steps query s qs) = map answer qs"
proof (induction qs arbitrary: s)
  case Nil
  then show ?case by simp
next
  case (Cons q qs)
  then show ?case
    using query_answer [of s q] query_good [of s q]
    by (auto simp: case_prod_beta Let_def)
qed

lemma run_good: "good s \<Longrightarrow> good (snd (run_steps query s qs))"
  by (induction qs arbitrary: s) (auto simp: case_prod_beta Let_def query_good)

end

text \<open>
  The contract of a state machine with an invariant: the invariant holds at the
  start and every step keeps it; then it holds after any sequence of inputs.
\<close>

locale invariant_machine =
  fixes start :: 's
    and step :: "'s \<Rightarrow> 'i \<Rightarrow> 's"
    and inv :: "'s \<Rightarrow> bool"
  assumes start_inv: "inv start"
    and step_inv: "inv s \<Longrightarrow> inv (step s i)"
begin

lemma foldl_inv: "inv s \<Longrightarrow> inv (foldl step s is)"
  by (induction "is" arbitrary: s) (auto intro: step_inv)

lemma run_inv: "inv (foldl step start is)"
  by (rule foldl_inv) (rule start_inv)

end

text \<open>
  The contract of a store keyed by a part of the value: storing succeeds, answers the value
  under its key and leaves every other key alone. Storing a list of values one by one then
  leaves, for every key, the last value stored under it.
\<close>

fun put_all :: "('s \<Rightarrow> 'v \<Rightarrow> 's option) \<Rightarrow> 's \<Rightarrow> 'v list \<Rightarrow> 's option" where
  "put_all put s [] = Some s"
| "put_all put s (v # vs) = Option.bind (put s v) (\<lambda>s'. put_all put s' vs)"

locale keyed_store =
  fixes put :: "'s \<Rightarrow> 'v \<Rightarrow> 's option"
    and get :: "'s \<Rightarrow> 'k \<Rightarrow> 'v option"
    and key :: "'v \<Rightarrow> 'k"
    and ok :: "'s \<Rightarrow> bool"
  assumes put_total: "ok s \<Longrightarrow> \<exists>s'. put s v = Some s' \<and> ok s'"
    and get_put: "ok s \<Longrightarrow> put s v = Some s' \<Longrightarrow> get s' k = (if k = key v then Some v else get s k)"
begin

lemma put_all_total: "ok s \<Longrightarrow> \<exists>s'. put_all put s vs = Some s' \<and> ok s'"
proof (induction vs arbitrary: s)
  case (Cons v vs)
  obtain s1 where "put s v = Some s1" "ok s1" using put_total [OF Cons.prems] by blast
  with Cons.IH show ?case by simp
qed simp

lemma get_put_all:
  "ok s \<Longrightarrow> put_all put s vs = Some s' \<Longrightarrow>
    get s' k = (case find (\<lambda>v. key v = k) (rev vs) of Some v \<Rightarrow> Some v | None \<Rightarrow> get s k)"
proof (induction vs arbitrary: s)
  case (Cons v vs)
  obtain s1 where s1: "put s v = Some s1" "ok s1" using put_total [OF Cons.prems(1)] by blast
  have find_snoc: "find P (xs @ [x]) = (case find P xs of Some y \<Rightarrow> Some y | None \<Rightarrow> if P x then Some x else None)"
    for P and xs :: "'v list" and x
    by (induction xs) auto
  from Cons.IH [OF s1(2)] Cons.prems(2) s1(1) get_put [OF Cons.prems(1) s1(1)]
  show ?case by (auto simp: find_snoc split: option.splits)
qed simp

end

section \<open>Options\<close>

lemma bind_SomeE:
  assumes "Option.bind m f = Some y"
  obtains x where "m = Some x" and "f x = Some y"
  using assms by (cases m) auto

lemma map_option_SomeE:
  assumes "map_option f m = Some y"
  obtains x where "m = Some x" and "y = f x"
  using assms by (cases m) auto

section \<open>Lists\<close>

lemma takeWhile_append_stop:
  "(\<And>x. x \<in> set xs \<Longrightarrow> P x) \<Longrightarrow> \<not> P y \<Longrightarrow> takeWhile P (xs @ y # ys) = xs"
  by (induction xs) auto

lemma dropWhile_append_stop:
  "(\<And>x. x \<in> set xs \<Longrightarrow> P x) \<Longrightarrow> \<not> P y \<Longrightarrow> dropWhile P (xs @ y # ys) = y # ys"
  by (induction xs) auto

lemma dropWhile_head: "dropWhile P xs = y # ys \<Longrightarrow> \<not> P y"
  by (metis hd_dropWhile list.distinct(1) list.sel(1))

lemma sum_list_take_le: "sum_list (map f (take n xs)) \<le> sum_list (map (f :: 'a \<Rightarrow> nat) xs)"
proof -
  have "sum_list (map f xs) = sum_list (map f (take n xs)) + sum_list (map f (drop n xs))"
    by (metis append_take_drop_id map_append sum_list_append)
  then show ?thesis by simp
qed

end
