(* ===== verification/RustText.thy ===== *)
theory RustText
  imports Prelude
begin

text \<open>
  Rust's \<open>str\<close> and \<open>String\<close>, as far as the crate uses them. A Rust string is a
  sequence of Unicode scalar values held as UTF-8; here it is the list of its scalar
  values, and a byte offset is a sum of UTF-8 lengths. Slicing at an offset that is
  no character boundary panics in Rust and is \<open>None\<close> here. UTF-8 itself
  (\<open>encode_utf8\<close>, \<open>decode_utf8\<close>) is written out for the code that reads bytes.
\<close>

section \<open>Characters and literals\<close>

type_synonym rchar = nat
type_synonym rstr = "rchar list"

definition is_scalar :: "rchar \<Rightarrow> bool" where
  "is_scalar c \<longleftrightarrow> c < 0x110000 \<and> \<not> (0xD800 \<le> c \<and> c < 0xE000)"

definition valid_text :: "rstr \<Rightarrow> bool" where
  "valid_text s \<longleftrightarrow> (\<forall>c\<in>set s. is_scalar c)"

text \<open>An ASCII literal of the source as a Rust string.\<close>

definition str :: "string \<Rightarrow> rstr" where
  "str s = map of_char s"

lemma str_inject [simp]: "str a = str b \<longleftrightarrow> a = b"
  by (simp add: str_def inj_map_eq_map inj_on_def)

lemma str_Nil [simp]: "str [] = []"
  by (simp add: str_def)

lemma str_append: "str (a @ b) = str a @ str b"
  by (simp add: str_def)

lemma str_eq_Nil [simp]: "str a = [] \<longleftrightarrow> a = []" "[] = str a \<longleftrightarrow> a = []"
  by (simp_all add: str_def)

section \<open>Lengths\<close>

definition len_utf8 :: "rchar \<Rightarrow> nat" where
  "len_utf8 c = (if c < 0x80 then 1 else if c < 0x800 then 2 else if c < 0x10000 then 3 else 4)"

definition len_utf16 :: "rchar \<Rightarrow> nat" where
  "len_utf16 c = (if c < 0x10000 then 1 else 2)"

definition byte_len :: "rstr \<Rightarrow> nat" where
  "byte_len s = sum_list (map len_utf8 s)"

definition utf16_len :: "rstr \<Rightarrow> nat" where
  "utf16_len s = sum_list (map len_utf16 s)"

lemma len_utf8_pos [simp]: "0 < len_utf8 c"
  by (simp add: len_utf8_def)

lemma len_utf8_SucE:
  obtains m where "len_utf8 c = Suc m"
  using len_utf8_pos [of c] by (metis gr0_conv_Suc)

lemma len_utf8_ascii: "c < 128 \<Longrightarrow> len_utf8 c = 1"
  by (simp add: len_utf8_def)

lemma len_utf16_pos [simp]: "0 < len_utf16 c"
  by (simp add: len_utf16_def)

lemma len_utf16_le_utf8: "len_utf16 c \<le> len_utf8 c"
  by (simp add: len_utf8_def len_utf16_def)

lemma byte_len_Nil [simp, text_simps]: "byte_len [] = 0"
  and byte_len_Cons [simp, text_simps]: "byte_len (c # s) = len_utf8 c + byte_len s"
  and byte_len_append [simp, text_simps]: "byte_len (s @ t) = byte_len s + byte_len t"
  by (simp_all add: byte_len_def)

lemma utf16_len_Nil [simp, text_simps]: "utf16_len [] = 0"
  and utf16_len_Cons [simp, text_simps]: "utf16_len (c # s) = len_utf16 c + utf16_len s"
  and utf16_len_append [simp, text_simps]: "utf16_len (s @ t) = utf16_len s + utf16_len t"
  by (simp_all add: utf16_len_def)

lemma byte_len_eq_0 [simp]: "byte_len s = 0 \<longleftrightarrow> s = []"
  by (cases s) (auto simp: len_utf8_def)

lemma length_le_byte_len: "length s \<le> byte_len s"
proof (induction s)
  case (Cons c s)
  have "0 < len_utf8 c" by (rule len_utf8_pos)
  with Cons show ?case by (simp del: len_utf8_pos)
qed simp

lemma utf16_len_le_byte_len: "utf16_len s \<le> byte_len s"
proof (induction s)
  case (Cons c s)
  then show ?case using len_utf16_le_utf8 [of c] by simp
qed simp

section \<open>Slices at byte offsets\<close>

text \<open>\<open>s.split_at(k)\<close>: the two halves, \<open>None\<close> when \<open>k\<close> is no character boundary.\<close>

fun split_at_byte :: "rstr \<Rightarrow> nat \<Rightarrow> (rstr \<times> rstr) option" where
  "split_at_byte s 0 = Some ([], s)"
| "split_at_byte [] (Suc k) = None"
| "split_at_byte (c # s) (Suc k) =
     (if len_utf8 c \<le> Suc k
      then map_option (\<lambda>(a, b). (c # a, b)) (split_at_byte s (Suc k - len_utf8 c))
      else None)"

lemma split_at_byte_code [code]:
  "split_at_byte s k =
     (if k = 0 then Some ([], s)
      else case s of
        [] \<Rightarrow> None
      | c # r \<Rightarrow>
          if len_utf8 c \<le> k
          then map_option (\<lambda>(a, b). (c # a, b)) (split_at_byte r (k - len_utf8 c)) else None)"
  by (cases k; cases s) simp_all

lemma split_at_byte_append [simp, text_simps]:
  "split_at_byte (a @ b) (byte_len a) = Some (a, b)"
proof (induction a)
  case Nil
  then show ?case by simp
next
  case (Cons c a)
  obtain k where k: "len_utf8 c + byte_len a = Suc k"
    using len_utf8_pos [of c] by (metis add_is_0 gr0_conv_Suc neq0_conv)
  then have "Suc k - len_utf8 c = byte_len a" and "len_utf8 c \<le> Suc k" by linarith+
  with Cons k show ?case by simp
qed

lemma split_at_byte_Some:
  "split_at_byte s k = Some (a, b) \<longleftrightarrow> s = a @ b \<and> byte_len a = k"
proof
  assume "split_at_byte s k = Some (a, b)"
  then show "s = a @ b \<and> byte_len a = k"
    by (induction s k arbitrary: a b rule: split_at_byte.induct) (auto split: if_splits)
next
  assume "s = a @ b \<and> byte_len a = k"
  then show "split_at_byte s k = Some (a, b)" by auto
qed

definition is_char_boundary :: "rstr \<Rightarrow> nat \<Rightarrow> bool" where
  "is_char_boundary s k \<longleftrightarrow> split_at_byte s k \<noteq> None"

lemma is_char_boundary_iff: "is_char_boundary s k \<longleftrightarrow> (\<exists>a b. s = a @ b \<and> byte_len a = k)"
  by (auto simp: is_char_boundary_def split_at_byte_Some)

lemma is_char_boundary_append [simp, text_simps]: "is_char_boundary (a @ b) (byte_len a)"
  by (simp add: is_char_boundary_def)

lemma is_char_boundary_0 [simp]: "is_char_boundary s 0"
  by (simp add: is_char_boundary_def)

lemma is_char_boundary_len [simp]: "is_char_boundary s (byte_len s)"
  unfolding is_char_boundary_iff by (rule exI [of _ s]) simp

lemma is_char_boundary_le: "is_char_boundary s k \<Longrightarrow> k \<le> byte_len s"
  by (auto simp: is_char_boundary_iff)

text \<open>\<open>&s[i..j]\<close> and \<open>s.get(i..j)\<close>: \<open>None\<close> is the panic of the first.\<close>

definition slice :: "rstr \<Rightarrow> nat \<Rightarrow> nat \<Rightarrow> rstr option" where
  "slice s i j = (if i \<le> j then
     (case split_at_byte s j of None \<Rightarrow> None
      | Some (a, b) \<Rightarrow> map_option snd (split_at_byte a i)) else None)"

lemma slice_Some:
  "slice s i j = Some m \<longleftrightarrow>
     (\<exists>a b. s = a @ m @ b \<and> byte_len a = i \<and> j = i + byte_len m)"
proof
  assume "slice s i j = Some m"
  then show "\<exists>a b. s = a @ m @ b \<and> byte_len a = i \<and> j = i + byte_len m"
    by (force simp: slice_def split_at_byte_Some split: if_splits option.splits)
next
  assume "\<exists>a b. s = a @ m @ b \<and> byte_len a = i \<and> j = i + byte_len m"
  then obtain a b where s: "s = (a @ m) @ b" and i: "byte_len a = i" "byte_len (a @ m) = j"
    by auto
  have "split_at_byte s j = Some (a @ m, b)"
    unfolding s i(2) [symmetric] by (rule split_at_byte_append)
  with i show "slice s i j = Some m"
    by (auto simp: slice_def)
qed

text \<open>\<open>&s[..k]\<close> and \<open>&s[k..]\<close>.\<close>

definition slice_to :: "rstr \<Rightarrow> nat \<Rightarrow> rstr option" where
  "slice_to s k = map_option fst (split_at_byte s k)"

definition slice_from :: "rstr \<Rightarrow> nat \<Rightarrow> rstr option" where
  "slice_from s k = map_option snd (split_at_byte s k)"

lemma slice_to_Some: "slice_to s k = Some a \<longleftrightarrow> (\<exists>b. s = a @ b \<and> byte_len a = k)"
  by (auto simp: slice_to_def split_at_byte_Some)

lemma slice_from_Some: "slice_from s k = Some b \<longleftrightarrow> (\<exists>a. s = a @ b \<and> byte_len a = k)"
  by (auto simp: slice_from_def split_at_byte_Some)

lemma slice_to_append [simp, text_simps]: "slice_to (a @ b) (byte_len a) = Some a"
  and slice_from_append [simp, text_simps]: "slice_from (a @ b) (byte_len a) = Some b"
  by (simp_all add: slice_to_def slice_from_def)

text \<open>
  The loop \<open>while !s.is_char_boundary(k) { k -= 1 }\<close> after \<open>k = k.min(s.len())\<close>, which
  the code repeats wherever an offset comes from a host: it stops at \<open>0\<close> at the
  latest, since \<open>0\<close> is a boundary.
\<close>

fun floor_boundary :: "rstr \<Rightarrow> nat \<Rightarrow> nat" where
  "floor_boundary s k =
     (if is_char_boundary s k \<or> k = 0 then k else floor_boundary s (k - 1))"

declare floor_boundary.simps [simp del]

definition clamp_boundary :: "rstr \<Rightarrow> nat \<Rightarrow> nat" where
  "clamp_boundary s k = floor_boundary s (min k (byte_len s))"

lemma floor_boundary_ok: "is_char_boundary s (floor_boundary s k) \<and> floor_boundary s k \<le> k"
proof (induction k)
  case 0
  then show ?case by (simp add: floor_boundary.simps)
next
  case (Suc k)
  then show ?case by (auto simp: floor_boundary.simps [of s "Suc k"])
qed

lemma floor_boundary_id: "is_char_boundary s k \<Longrightarrow> floor_boundary s k = k"
  by (simp add: floor_boundary.simps)

lemma clamp_boundary_ok [simp]: "is_char_boundary s (clamp_boundary s k)"
  by (simp add: clamp_boundary_def floor_boundary_ok)

lemma clamp_boundary_le: "clamp_boundary s k \<le> k" "clamp_boundary s k \<le> byte_len s"
  using floor_boundary_ok [of s "min k (byte_len s)"] by (auto simp: clamp_boundary_def)

lemma clamp_boundary_id: "is_char_boundary s k \<Longrightarrow> clamp_boundary s k = k"
  by (simp add: clamp_boundary_def floor_boundary_id is_char_boundary_le min_absorb1)

lemma floor_boundary_greatest:
  "is_char_boundary s j \<Longrightarrow> j \<le> k \<Longrightarrow> j \<le> floor_boundary s k"
proof (induction k)
  case 0
  then show ?case by simp
next
  case (Suc k)
  then show ?case
    by (cases "j = Suc k") (auto simp: floor_boundary_id floor_boundary.simps [of s "Suc k"])
qed

lemma floor_boundary_mono: "j \<le> k \<Longrightarrow> floor_boundary s j \<le> floor_boundary s k"
  using floor_boundary_ok [of s j] by (intro floor_boundary_greatest) auto

lemma clamp_boundary_mono: "j \<le> k \<Longrightarrow> clamp_boundary s j \<le> clamp_boundary s k"
  unfolding clamp_boundary_def by (rule floor_boundary_mono) auto

lemma clamp_boundary_split:
  obtains a b where "s = a @ b" and "clamp_boundary s k = byte_len a"
  using clamp_boundary_ok [of s k] unfolding is_char_boundary_iff by metis

section \<open>Searching and trimming\<close>

definition starts_with :: "rstr \<Rightarrow> rstr \<Rightarrow> bool" where
  "starts_with s p \<longleftrightarrow> take (length p) s = p"

definition ends_with :: "rstr \<Rightarrow> rstr \<Rightarrow> bool" where
  "ends_with s p \<longleftrightarrow> starts_with (rev s) (rev p)"

definition strip_prefix :: "rstr \<Rightarrow> rstr \<Rightarrow> rstr option" where
  "strip_prefix s p = (if starts_with s p then Some (drop (length p) s) else None)"

lemma starts_with_iff: "starts_with s p \<longleftrightarrow> (\<exists>t. s = p @ t)"
  unfolding starts_with_def by (metis append_eq_conv_conj append_take_drop_id)

lemma strip_prefix_Some: "strip_prefix s p = Some t \<longleftrightarrow> s = p @ t"
  by (auto simp: strip_prefix_def starts_with_iff)

text \<open>\<open>s.strip_suffix(c).unwrap_or(s)\<close> for one character.\<close>

definition strip_last :: "rchar \<Rightarrow> rstr \<Rightarrow> rstr" where
  "strip_last c s = (if s \<noteq> [] \<and> last s = c then butlast s else s)"

text \<open>\<open>s.split(c)\<close>, all pieces; at least one, none holding \<open>c\<close>.\<close>

fun split_char :: "rchar \<Rightarrow> rstr \<Rightarrow> rstr list" where
  "split_char c [] = [[]]"
| "split_char c (x # s) =
     (if x = c then [] # split_char c s
      else case split_char c s of [] \<Rightarrow> [[x]] | p # ps \<Rightarrow> (x # p) # ps)"

text \<open>\<open>s.split_once(c)\<close>.\<close>

fun split_once :: "rchar \<Rightarrow> rstr \<Rightarrow> (rstr \<times> rstr) option" where
  "split_once c [] = None"
| "split_once c (x # s) =
     (if x = c then Some ([], s) else map_option (\<lambda>(a, b). (x # a, b)) (split_once c s))"

lemma split_once_Some:
  "split_once c s = Some (a, b) \<longleftrightarrow> s = a @ c # b \<and> c \<notin> set a"
proof
  assume "split_once c s = Some (a, b)"
  then show "s = a @ c # b \<and> c \<notin> set a"
    by (induction s arbitrary: a b) (auto split: if_splits)
next
  assume "s = a @ c # b \<and> c \<notin> set a"
  then show "split_once c s = Some (a, b)"
    by (induction a arbitrary: s) auto
qed

lemma split_char_nonempty [simp]: "split_char c s \<noteq> []"
  by (induction s) (auto split: list.splits)

lemma split_char_no_sep: "p \<in> set (split_char c s) \<Longrightarrow> c \<notin> set p"
  by (induction s arbitrary: p) (auto split: if_splits list.splits)

lemma split_char_none: "c \<notin> set s \<Longrightarrow> split_char c s = [s]"
  by (induction s) auto

lemma split_char_append: "c \<notin> set p \<Longrightarrow> split_char c (p @ c # s) = p # split_char c s"
  by (induction p) auto

lemma length_split_char: "length (split_char c s) = Suc (count_list s c)"
proof (induction s)
  case (Cons x s)
  then show ?case by (cases "split_char c s") auto
qed simp

text \<open>Unicode \<open>White_Space\<close>, which \<open>str::trim\<close> removes at both ends.\<close>

definition is_whitespace :: "rchar \<Rightarrow> bool" where
  "is_whitespace c \<longleftrightarrow> (9 \<le> c \<and> c \<le> 13) \<or> c = 32 \<or> c = 0x85 \<or> c = 0xA0 \<or> c = 0x1680 \<or>
     (0x2000 \<le> c \<and> c \<le> 0x200A) \<or> c = 0x2028 \<or> c = 0x2029 \<or> c = 0x202F \<or> c = 0x205F \<or> c = 0x3000"

definition trim_end_matches :: "(rchar \<Rightarrow> bool) \<Rightarrow> rstr \<Rightarrow> rstr" where
  "trim_end_matches P s = rev (dropWhile P (rev s))"

definition trim :: "rstr \<Rightarrow> rstr" where
  "trim s = trim_end_matches is_whitespace (dropWhile is_whitespace s)"

lemma trim_end_matches_append:
  "(\<And>c. c \<in> set t \<Longrightarrow> P c) \<Longrightarrow> trim_end_matches P (s @ t) = trim_end_matches P s"
  by (induction t rule: rev_induct) (auto simp: trim_end_matches_def)

lemma trim_end_matches_id: "s = [] \<or> \<not> P (last s) \<Longrightarrow> trim_end_matches P s = s"
  by (cases s rule: rev_cases) (auto simp: trim_end_matches_def)

text \<open>ASCII letter case and classes.\<close>

definition is_ascii_digit :: "rchar \<Rightarrow> bool" where
  "is_ascii_digit c \<longleftrightarrow> 48 \<le> c \<and> c \<le> 57"

definition is_ascii_alphabetic :: "rchar \<Rightarrow> bool" where
  "is_ascii_alphabetic c \<longleftrightarrow> (65 \<le> c \<and> c \<le> 90) \<or> (97 \<le> c \<and> c \<le> 122)"

definition is_ascii_alphanumeric :: "rchar \<Rightarrow> bool" where
  "is_ascii_alphanumeric c \<longleftrightarrow> is_ascii_alphabetic c \<or> is_ascii_digit c"

definition is_ascii_hexdigit :: "rchar \<Rightarrow> bool" where
  "is_ascii_hexdigit c \<longleftrightarrow> is_ascii_digit c \<or> (65 \<le> c \<and> c \<le> 70) \<or> (97 \<le> c \<and> c \<le> 102)"

definition ascii_lower :: "rchar \<Rightarrow> rchar" where
  "ascii_lower c = (if 65 \<le> c \<and> c \<le> 90 then c + 32 else c)"

definition to_ascii_lowercase :: "rstr \<Rightarrow> rstr" where
  "to_ascii_lowercase s = map ascii_lower s"

definition eq_ignore_ascii_case :: "rstr \<Rightarrow> rstr \<Rightarrow> bool" where
  "eq_ignore_ascii_case a b \<longleftrightarrow> to_ascii_lowercase a = to_ascii_lowercase b"

section \<open>Decimal numbers\<close>

text \<open>\<open>Display\<close> of an unsigned integer and \<open>str::parse::<u64>\<close>.\<close>

fun show_nat :: "nat \<Rightarrow> rstr" where
  "show_nat n = (if n < 10 then [48 + n] else show_nat (n div 10) @ [48 + n mod 10])"

declare show_nat.simps [simp del]

definition digits_value :: "rstr \<Rightarrow> nat" where
  "digits_value s = foldl (\<lambda>a c. 10 * a + (c - 48)) 0 s"

definition parse_u64 :: "rstr \<Rightarrow> nat option" where
  "parse_u64 s =
     (let t = (case s of [] \<Rightarrow> [] | c # r \<Rightarrow> if c = 43 then r else s)
      in if t = [] \<or> \<not> list_all is_ascii_digit t then None
         else if digits_value t < u64_limit then Some (digits_value t) else None)"

lemma show_nat_digits: "list_all is_ascii_digit (show_nat n)"
proof (induction n rule: show_nat.induct)
  case (1 n)
  then show ?case
    by (cases "n < 10") (simp_all add: show_nat.simps [of n] is_ascii_digit_def)
qed

lemma show_nat_nonempty [simp]: "show_nat n \<noteq> []"
  by (simp add: show_nat.simps [of n])

lemma digits_value_snoc: "digits_value (s @ [c]) = 10 * digits_value s + (c - 48)"
  by (simp add: digits_value_def)

lemma digits_value_show_nat: "digits_value (show_nat n) = n"
proof (induction n rule: show_nat.induct)
  case (1 n)
  show ?case
  proof (cases "n < 10")
    case True
    then show ?thesis by (simp add: show_nat.simps [of n] digits_value_def)
  next
    case False
    then show ?thesis
      using 1 by (simp add: show_nat.simps [of n] digits_value_snoc)
  qed
qed

lemma parse_u64_show_nat: "n < u64_limit \<Longrightarrow> parse_u64 (show_nat n) = Some n"
proof -
  assume n: "n < u64_limit"
  obtain c r where s: "show_nat n = c # r"
    by (cases "show_nat n") auto
  have "is_ascii_digit c" using show_nat_digits [of n] s by simp
  then have "c \<noteq> 43" by (auto simp: is_ascii_digit_def)
  with n s show ?thesis
    using show_nat_digits [of n] digits_value_show_nat [of n]
    by (simp add: parse_u64_def)
qed

section \<open>UTF-8\<close>

definition encode_char :: "rchar \<Rightarrow> u8 list" where
  "encode_char c =
     (if c < 0x80 then [c]
      else if c < 0x800 then [192 + c div 64, 128 + c mod 64]
      else if c < 0x10000 then [224 + c div 4096, 128 + c div 64 mod 64, 128 + c mod 64]
      else [240 + c div 262144, 128 + c div 4096 mod 64, 128 + c div 64 mod 64, 128 + c mod 64])"

definition encode_utf8 :: "rstr \<Rightarrow> u8 list" where
  "encode_utf8 s = concat (map encode_char s)"

lemma encode_utf8_Nil [simp, text_simps]: "encode_utf8 [] = []"
  and encode_utf8_Cons [simp, text_simps]: "encode_utf8 (c # s) = encode_char c @ encode_utf8 s"
  and encode_utf8_append [simp, text_simps]: "encode_utf8 (s @ t) = encode_utf8 s @ encode_utf8 t"
  by (simp_all add: encode_utf8_def)

lemma length_encode_char [simp, text_simps]: "length (encode_char c) = len_utf8 c"
  by (simp add: encode_char_def len_utf8_def)

lemma length_encode_utf8 [simp, text_simps]: "length (encode_utf8 s) = byte_len s"
  by (induction s) simp_all

lemma encode_char_ascii: "c < 128 \<Longrightarrow> encode_char c = [c]"
  by (simp add: encode_char_def)

lemma encode_char_ascii_byte: "b \<in> set (encode_char c) \<Longrightarrow> b < 128 \<Longrightarrow> encode_char c = [b] \<and> b = c"
  by (auto simp: encode_char_def split: if_splits)

text \<open>\<open>String::from_utf8\<close>: the well-formed byte sequences of the Unicode standard.\<close>

definition cont :: "u8 \<Rightarrow> bool" where
  "cont b \<longleftrightarrow> 128 \<le> b \<and> b < 192"

fun decode_utf8 :: "u8 list \<Rightarrow> rstr option" where
  "decode_utf8 [] = Some []"
| "decode_utf8 (b # bs) =
     (if b < 0x80 then map_option (\<lambda>s. b # s) (decode_utf8 bs)
      else if 0xC2 \<le> b \<and> b \<le> 0xDF then
        (case bs of c1 # r \<Rightarrow>
           if cont c1 then map_option (\<lambda>s. ((b - 192) * 64 + (c1 - 128)) # s) (decode_utf8 r)
           else None
         | _ \<Rightarrow> None)
      else if 0xE0 \<le> b \<and> b \<le> 0xEF then
        (case bs of c1 # c2 # r \<Rightarrow>
           (let v = (b - 224) * 4096 + (c1 - 128) * 64 + (c2 - 128)
            in if cont c1 \<and> cont c2 \<and> 0x800 \<le> v \<and> is_scalar v
               then map_option (\<lambda>s. v # s) (decode_utf8 r) else None)
         | _ \<Rightarrow> None)
      else if 0xF0 \<le> b \<and> b \<le> 0xF4 then
        (case bs of c1 # c2 # c3 # r \<Rightarrow>
           (let v = (b - 240) * 262144 + (c1 - 128) * 4096 + (c2 - 128) * 64 + (c3 - 128)
            in if cont c1 \<and> cont c2 \<and> cont c3 \<and> 0x10000 \<le> v \<and> is_scalar v
               then map_option (\<lambda>s. v # s) (decode_utf8 r) else None)
         | _ \<Rightarrow> None)
      else None)"

declare decode_utf8.simps(2) [simp del]

lemma radix64_2: "(c::nat) div 64 * 64 + c mod 64 = c"
  by simp

lemma radix64_3: "(c::nat) div 4096 * 4096 + c div 64 mod 64 * 64 + c mod 64 = c"
proof -
  have "c div 4096 = c div 64 div 64" by (simp add: div_mult2_eq [symmetric])
  then have "c div 4096 * 4096 + c div 64 mod 64 * 64 = (c div 64 div 64 * 64 + c div 64 mod 64) * 64"
    by (simp only: distrib_right mult.assoc)
  also have "\<dots> = c div 64 * 64" by (simp only: radix64_2)
  finally show ?thesis by simp
qed

lemma radix64_4:
  "(c::nat) div 262144 * 262144 + c div 4096 mod 64 * 4096 + c div 64 mod 64 * 64 + c mod 64 = c"
proof -
  have "c div 262144 = c div 64 div 4096" "c div 4096 = c div 64 div 64"
    by (simp_all add: div_mult2_eq [symmetric])
  then have "c div 262144 * 262144 + c div 4096 mod 64 * 4096 + c div 64 mod 64 * 64
      = (c div 64 div 4096 * 4096 + c div 64 div 64 mod 64 * 64 + c div 64 mod 64) * 64"
    by simp
  also have "\<dots> = c div 64 * 64" by (simp only: radix64_3)
  finally show ?thesis by simp
qed

lemma decode_utf8_char:
  assumes "is_scalar c"
  shows "decode_utf8 (encode_char c @ bs) = map_option (\<lambda>s. c # s) (decode_utf8 bs)"
proof -
  have lim: "c < 0x110000" using assms by (simp add: is_scalar_def)
  consider "c < 0x80" | "0x80 \<le> c" "c < 0x800" | "0x800 \<le> c" "c < 0x10000" | "0x10000 \<le> c"
    by linarith
  then show ?thesis
  proof cases
    case 1
    then show ?thesis by (simp add: encode_char_def decode_utf8.simps(2))
  next
    case 2
    then have "2 \<le> c div 64" "c div 64 < 32" by auto
    with 2 show ?thesis
      by (simp add: encode_char_def decode_utf8.simps(2) cont_def)
  next
    case 3
    then have "c div 4096 < 16" by auto
    with 3 assms radix64_3 [of c] show ?thesis
      by (simp add: encode_char_def decode_utf8.simps(2) cont_def)
  next
    case 4
    then have "c div 262144 < 5" using lim by auto
    with 4 assms radix64_4 [of c] show ?thesis
      by (simp add: encode_char_def decode_utf8.simps(2) cont_def)
  qed
qed

lemma decode_encode_utf8: "valid_text s \<Longrightarrow> decode_utf8 (encode_utf8 s) = Some s"
  by (induction s) (simp_all add: valid_text_def decode_utf8_char)

text \<open>
  \<open>String::from_utf8_lossy\<close>: a maximal ill-formed prefix of at most three bytes
  becomes one U+FFFD. \<open>bad_len\<close> is the length of that prefix.
\<close>

definition second_ok :: "u8 \<Rightarrow> u8 \<Rightarrow> bool" where
  "second_ok b c \<longleftrightarrow> cont c \<and> (b = 0xE0 \<longrightarrow> 0xA0 \<le> c) \<and> (b = 0xED \<longrightarrow> c < 0xA0) \<and>
     (b = 0xF0 \<longrightarrow> 0x90 \<le> c) \<and> (b = 0xF4 \<longrightarrow> c < 0x90)"

definition lead_len :: "u8 \<Rightarrow> nat" where
  "lead_len b = (if b < 0x80 then 1 else if 0xC2 \<le> b \<and> b \<le> 0xDF then 2
     else if 0xE0 \<le> b \<and> b \<le> 0xEF then 3 else if 0xF0 \<le> b \<and> b \<le> 0xF4 then 4 else 0)"

definition bad_len :: "u8 list \<Rightarrow> nat" where
  "bad_len bs = (case bs of
      b # c1 # r \<Rightarrow>
        (if lead_len b \<ge> 3 \<and> second_ok b c1
         then (case r of c2 # _ \<Rightarrow> if lead_len b = 4 \<and> cont c2 then 3 else 2 | [] \<Rightarrow> 2)
         else 1)
    | _ \<Rightarrow> 1)"

fun lossy_fuel :: "nat \<Rightarrow> u8 list \<Rightarrow> rstr" where
  "lossy_fuel 0 bs = []"
| "lossy_fuel (Suc n) bs =
     (if bs = [] then []
      else case decode_utf8 (take (lead_len (hd bs)) bs) of
          Some [c] \<Rightarrow> c # lossy_fuel n (drop (lead_len (hd bs)) bs)
        | _ \<Rightarrow> 0xFFFD # lossy_fuel n (drop (bad_len bs) bs))"

definition from_utf8_lossy :: "u8 list \<Rightarrow> rstr" where
  "from_utf8_lossy bs = lossy_fuel (length bs) bs"

lemma lead_len_encode_char: "is_scalar c \<Longrightarrow> lead_len (hd (encode_char c)) = len_utf8 c"
  by (auto simp: encode_char_def lead_len_def len_utf8_def is_scalar_def)

lemma lossy_fuel_encode:
  "valid_text s \<Longrightarrow> byte_len s \<le> n \<Longrightarrow> lossy_fuel n (encode_utf8 s) = s"
proof (induction s arbitrary: n)
  case Nil
  then show ?case by (cases n) simp_all
next
  case (Cons c s)
  have c: "is_scalar c" and s: "valid_text s"
    using Cons.prems(1) by (simp_all add: valid_text_def)
  obtain k where k: "len_utf8 c = Suc k"
    by (rule len_utf8_SucE)
  obtain m where n: "n = Suc m"
    using Cons.prems(2) k by (cases n) auto
  have m: "byte_len s \<le> m"
    using Cons.prems(2) n k by simp
  have ne: "encode_char c \<noteq> []"
    by (metis length_encode_char len_utf8_pos length_greater_0_conv)
  have dec: "decode_utf8 (encode_char c) = Some [c]"
    using decode_utf8_char [OF c, of "[]"] by simp
  have "take (len_utf8 c) (encode_char c @ encode_utf8 s) = encode_char c"
    and "drop (len_utf8 c) (encode_char c @ encode_utf8 s) = encode_utf8 s"
    by simp_all
  then show ?case
    using ne dec Cons.IH [OF s m] lead_len_encode_char [OF c] by (simp add: n)
qed

lemma from_utf8_lossy_encode: "valid_text s \<Longrightarrow> from_utf8_lossy (encode_utf8 s) = s"
  by (simp add: from_utf8_lossy_def lossy_fuel_encode)

section \<open>Bytes at an offset\<close>

definition byte_at :: "rstr \<Rightarrow> nat \<Rightarrow> u8 option" where
  "byte_at s k = index (encode_utf8 s) k"

text \<open>
  The byte before a boundary is an ASCII byte \<open>x\<close> exactly when the character before
  it is \<open>x\<close>: no continuation or lead byte of a longer character is below 128.
\<close>

lemma last_encode_char: "x < 128 \<Longrightarrow> last (encode_char c) = x \<longleftrightarrow> c = x"
  by (auto simp: encode_char_def)

lemma encode_char_not_Nil [simp]: "encode_char c \<noteq> []"
  by (simp add: encode_char_def)

lemma byte_before_boundary:
  assumes "x < 128"
  shows "byte_at (a @ [c] @ b) (byte_len a + len_utf8 c - 1) = Some x \<longleftrightarrow> c = x"
proof -
  obtain bs where bs: "encode_char c = bs @ [last (encode_char c)]"
    by (metis append_butlast_last_id encode_char_not_Nil)
  obtain k where k: "len_utf8 c = Suc k"
    by (rule len_utf8_SucE)
  have len: "length bs = len_utf8 c - 1"
    using arg_cong [OF bs, of length] by simp
  have "encode_utf8 (a @ [c] @ b) = (encode_utf8 a @ bs) @ last (encode_char c) # encode_utf8 b"
    using bs by simp
  moreover have "length (encode_utf8 a @ bs) = byte_len a + len_utf8 c - 1"
    using len k by simp
  ultimately have "byte_at (a @ [c] @ b) (byte_len a + len_utf8 c - 1) = Some (last (encode_char c))"
    unfolding byte_at_def by (metis index_append_length)
  then show ?thesis using last_encode_char [OF assms] by simp
qed

end
