(* ===== verification/Json.thy ===== *)
theory Json
  imports RustText
begin

text \<open>
  \<open>serde_json::Value\<close> as the crate uses it: values are matched on, objects are looked
  up, extended and copied. Objects keep insertion order (\<open>serde_json\<close> is built with
  \<open>preserve_order\<close>, its \<open>Map\<close> being an \<open>IndexMap\<close>: \<open>Cargo.lock\<close> lists \<open>indexmap\<close>
  among its dependencies), so an object is an association list whose keys are
  distinct (\<open>json_wf\<close>). A number is an integer or a finite double \<open>m * 2 ^ e\<close>.
\<close>

datatype number = NInt int | NFloat int int

datatype json =
    JNull
  | JBool bool
  | JNum number
  | JStr rstr
  | JArr "json list"
  | JObj "(rstr \<times> json) list"

type_synonym fields = "(rstr \<times> json) list"

text \<open>
  \<open>v.as_f64() > n as f64\<close> for a small integer \<open>n\<close>: the conversion to a double is
  monotone and keeps small integers, so it decides as the exact comparison does.
\<close>

definition number_gt :: "number \<Rightarrow> nat \<Rightarrow> bool" where
  "number_gt v n = (case v of
      NInt i \<Rightarrow> int n < i
    | NFloat m e \<Rightarrow>
        (if 0 \<le> e then int n < m * 2 ^ nat e else int n * 2 ^ nat (- e) < m))"

section \<open>Objects\<close>

definition obj_get :: "fields \<Rightarrow> rstr \<Rightarrow> json option" where
  "obj_get m k = map_of m k"

definition contains_key :: "fields \<Rightarrow> rstr \<Rightarrow> bool" where
  "contains_key m k \<longleftrightarrow> obj_get m k \<noteq> None"

text \<open>\<open>Map::insert\<close>: an existing key keeps its place.\<close>

fun obj_insert :: "fields \<Rightarrow> rstr \<Rightarrow> json \<Rightarrow> fields" where
  "obj_insert [] k v = [(k, v)]"
| "obj_insert ((k', v') # m) k v =
     (if k' = k then (k, v) # m else (k', v') # obj_insert m k v)"

text \<open>\<open>Map::extend\<close> with the entries of another map, in its order.\<close>

definition obj_extend :: "fields \<Rightarrow> fields \<Rightarrow> fields" where
  "obj_extend m n = foldl (\<lambda>a (k, v). obj_insert a k v) m n"

text \<open>\<open>Value::get\<close> with a string key: \<open>None\<close> on anything but an object.\<close>

definition value_get :: "json \<Rightarrow> rstr \<Rightarrow> json option" where
  "value_get v k = (case v of JObj m \<Rightarrow> obj_get m k | _ \<Rightarrow> None)"

definition as_array :: "json \<Rightarrow> json list option" where
  "as_array v = (case v of JArr xs \<Rightarrow> Some xs | _ \<Rightarrow> None)"

definition as_str :: "json \<Rightarrow> rstr option" where
  "as_str v = (case v of JStr s \<Rightarrow> Some s | _ \<Rightarrow> None)"

definition is_object :: "json \<Rightarrow> bool" where
  "is_object v = (case v of JObj _ \<Rightarrow> True | _ \<Rightarrow> False)"

lemma obj_get_Nil [simp, json_simps]: "obj_get [] k = None"
  and obj_get_Cons [simp, json_simps]:
    "obj_get ((k', v) # m) k = (if k' = k then Some v else obj_get m k)"
  by (simp_all add: obj_get_def)

lemma obj_get_insert [simp, json_simps]:
  "obj_get (obj_insert m k v) k' = (if k' = k then Some v else obj_get m k')"
  by (induction m k v rule: obj_insert.induct) auto

lemma obj_extend_Nil [simp, json_simps]: "obj_extend m [] = m"
  and obj_extend_Cons [simp, json_simps]:
    "obj_extend m ((k, v) # n) = obj_extend (obj_insert m k v) n"
  by (simp_all add: obj_extend_def)

lemma obj_get_extend:
  "distinct (map fst n) \<Longrightarrow>
   obj_get (obj_extend m n) k = (case obj_get n k of Some v \<Rightarrow> Some v | None \<Rightarrow> obj_get m k)"
proof (induction n arbitrary: m)
  case Nil
  then show ?case by simp
next
  case (Cons kv n)
  obtain k0 v0 where kv: "kv = (k0, v0)" by (cases kv)
  have "k = k0 \<Longrightarrow> obj_get n k = None"
    using Cons.prems by (auto simp: kv obj_get_def map_of_eq_None_iff)
  with Cons show ?case by (auto simp: kv split: option.splits)
qed

lemma keys_obj_insert:
  "fst ` set (obj_insert m k v) = insert k (fst ` set m)"
  by (induction m k v rule: obj_insert.induct) auto

lemma distinct_obj_insert:
  "distinct (map fst m) \<Longrightarrow> distinct (map fst (obj_insert m k v))"
proof (induction m k v rule: obj_insert.induct)
  case (2 k' v' m k v)
  then show ?case
    using keys_obj_insert [of m k v] by (auto simp flip: set_map)
qed simp

lemma contains_key_insert [simp, json_simps]:
  "contains_key (obj_insert m k v) k' \<longleftrightarrow> k' = k \<or> contains_key m k'"
  by (simp add: contains_key_def)

section \<open>Well-formed values, their depth and their subvalues\<close>

fun json_wf :: "json \<Rightarrow> bool" where
  "json_wf (JArr xs) \<longleftrightarrow> (\<forall>x\<in>set xs. json_wf x)"
| "json_wf (JObj m) \<longleftrightarrow> distinct (map fst m) \<and> (\<forall>kv\<in>set m. json_wf (snd kv))"
| "json_wf _ \<longleftrightarrow> True"

text \<open>A step from a value to a child, and the nodes reached by chains of such steps.\<close>

inductive json_child :: "json \<Rightarrow> json \<Rightarrow> bool" where
  elem: "x \<in> set xs \<Longrightarrow> json_child (JArr xs) x"
| field: "(k, x) \<in> set m \<Longrightarrow> json_child (JObj m) x"

inductive json_at :: "json \<Rightarrow> nat \<Rightarrow> json \<Rightarrow> bool" where
  here: "json_at v 0 v"
| down: "json_child v u \<Longrightarrow> json_at u n w \<Longrightarrow> json_at v (Suc n) w"

inductive_cases json_child_arrE: "json_child (JArr xs) x"
inductive_cases json_child_objE: "json_child (JObj m) x"
inductive_cases json_at_SucE: "json_at v (Suc n) w"
inductive_cases json_at_0E: "json_at v 0 w"
inductive_simps json_child_leaf:
  "json_child JNull x" "json_child (JBool b) x" "json_child (JNum q) x" "json_child (JStr s) x"

definition is_container :: "json \<Rightarrow> bool" where
  "is_container v = (case v of JArr _ \<Rightarrow> True | JObj _ \<Rightarrow> True | _ \<Rightarrow> False)"

end
