(* ===== verification/Types.thy ===== *)
theory Types
  imports Json "HOL-Library.Product_Lexorder"
begin

text \<open>
  The types every module of the crate shares (\<open>rs/src/types.rs\<close>): positions and
  the encoding they are counted in, documents, diagnostics, what one parse collects,
  load errors, and the registry entry with the accessors that apply its defaults and
  the way it is read from JSON. Records carry the source's field names behind a
  prefix; \<open>Position\<close> and \<open>Range\<close>, which derive an ordering, are datatypes so that
  the ordering can be the class instance the derive gives.
\<close>

section \<open>Positions\<close>

datatype position = Position (pos_line: u32) (pos_character: u32)

datatype lsp_range = Range (range_start: position) (range_end: position)

text \<open>\<open>#[derive(PartialOrd, Ord)]\<close>: lexicographic in the order of the fields.\<close>

instantiation position :: linorder
begin

definition less_eq_position :: "position \<Rightarrow> position \<Rightarrow> bool" where
  "less_eq_position p q \<longleftrightarrow>
     (pos_line p, pos_character p) \<le> (pos_line q, pos_character q)"

definition less_position :: "position \<Rightarrow> position \<Rightarrow> bool" where
  "less_position p q \<longleftrightarrow>
     (pos_line p, pos_character p) < (pos_line q, pos_character q)"

instance
  by standard (auto simp: less_eq_position_def less_position_def intro: position.expand)

end

instantiation lsp_range :: linorder
begin

definition less_eq_lsp_range :: "lsp_range \<Rightarrow> lsp_range \<Rightarrow> bool" where
  "less_eq_lsp_range p q \<longleftrightarrow>
     (range_start p, range_end p) \<le> (range_start q, range_end q)"

definition less_lsp_range :: "lsp_range \<Rightarrow> lsp_range \<Rightarrow> bool" where
  "less_lsp_range p q \<longleftrightarrow>
     (range_start p, range_end p) < (range_start q, range_end q)"

instance
  by standard (auto simp: less_eq_lsp_range_def less_lsp_range_def intro: lsp_range.expand)

end

lemma position_less_eq_iff:
  "p \<le> q \<longleftrightarrow> pos_line p < pos_line q \<or>
     (pos_line p = pos_line q \<and> pos_character p \<le> pos_character q)"
  by (auto simp: less_eq_position_def)

definition range_empty :: "position \<Rightarrow> lsp_range" where
  "range_empty p = Range p p"

text \<open>A \<open>usize\<close> count as a wire \<open>u32\<close>, saturating.\<close>

definition wire :: "nat \<Rightarrow> u32" where
  "wire n = (if n \<le> u32_max then of_nat n else of_nat u32_max)"

definition u32_sat_add :: "u32 \<Rightarrow> u32 \<Rightarrow> u32" where
  "u32_sat_add a b = wire (unat a + unat b)"

lemma unat_wire: "unat (wire n) = min n u32_max"
  by (auto simp: wire_def u32_max_def unat_of_nat take_bit_nat_eq_self)

lemma unat_wire_small [simp]: "n \<le> u32_max \<Longrightarrow> unat (wire n) = n"
  by (simp add: unat_wire)

lemma unat_u32_le: "unat (w :: u32) \<le> u32_max"
proof -
  have "unat w < 2 ^ 32" using unsigned_less [of w] by simp
  then show ?thesis by (simp add: u32_max_def)
qed

lemma wire_unat [simp]: "wire (unat w) = w"
  by (simp add: wire_def unat_u32_le)

lemma wire_le_iff: "wire a \<le> wire b \<longleftrightarrow> min a u32_max \<le> min b u32_max"
  by (simp add: word_le_nat_alt unat_wire)

lemma wire_mono: "a \<le> b \<Longrightarrow> wire a \<le> wire b"
  by (auto simp: wire_le_iff)

lemma wire_less_iff: "wire a < wire b \<longleftrightarrow> min a u32_max < min b u32_max"
  by (simp add: word_less_nat_alt unat_wire)

lemma wire_0 [simp]: "wire 0 = 0"
  by (simp add: wire_def)

datatype position_encoding = Utf16 | Utf8

fun enc_as_str :: "position_encoding \<Rightarrow> rstr" where
  "enc_as_str Utf16 = str ''utf-16''"
| "enc_as_str Utf8 = str ''utf-8''"

definition enc_from_wire :: "rstr \<Rightarrow> position_encoding option" where
  "enc_from_wire name =
     (if name = str ''utf-16'' then Some Utf16
      else if name = str ''utf-8'' then Some Utf8 else None)"

section \<open>Diagnostics\<close>

definition severity_error :: nat where
  "severity_error = 1"

definition error_registry :: rstr where
  "error_registry = str ''https://tabnas.dev/errors/''"

record diagnostic =
  diag_range :: lsp_range
  diag_severity :: nat
  diag_code :: "rstr option"
  diag_source :: rstr
  diag_message :: rstr
  diag_href :: "rstr option"

section \<open>Documents\<close>

text \<open>
  \<open>doc_line_starts\<close> is the \<open>OnceCell\<close> of the line index: \<open>None\<close> until it is first
  asked for.
\<close>

record doc =
  doc_uri :: rstr
  doc_language_id :: rstr
  doc_version :: int
  doc_text :: rstr
  doc_encoding :: position_encoding
  doc_line_starts :: "nat list option"

definition doc_new :: "rstr \<Rightarrow> rstr \<Rightarrow> int \<Rightarrow> rstr \<Rightarrow> doc" where
  "doc_new uri language_id version txt =
     \<lparr>doc_uri = uri, doc_language_id = language_id, doc_version = version, doc_text = txt,
      doc_encoding = Utf16, doc_line_starts = None\<rparr>"

definition with_encoding :: "doc \<Rightarrow> position_encoding \<Rightarrow> doc" where
  "with_encoding d e = d\<lparr>doc_encoding := e\<rparr>"

section \<open>What one parse collects\<close>

datatype rule_event_state = EvOpen | EvClose

record token_point =
  tp_name :: rstr
  tp_si :: nat
  tp_ri :: nat
  tp_ci :: nat
  tp_len :: nat
  tp_src :: rstr

record rule_event =
  ev_i :: nat
  ev_name :: rstr
  ev_state :: rule_event_state
  ev_forced :: bool
  ev_r :: rstr
  ev_o0 :: "token_point option"
  ev_c0 :: "token_point option"

record collected =
  col_lex :: "token_point list"
  col_rules :: "rule_event list"

definition collected_default :: collected where
  "collected_default = \<lparr>col_lex = [], col_rules = []\<rparr>"

section \<open>Load errors\<close>

record issue =
  issue_path :: rstr
  issue_message :: rstr

record load_error =
  le_message :: rstr
  le_issues :: "issue list"

definition load_error_new :: "rstr \<Rightarrow> load_error" where
  "load_error_new m = \<lparr>le_message = m, le_issues = []\<rparr>"

definition load_error_with_issues :: "rstr \<Rightarrow> issue list \<Rightarrow> load_error" where
  "load_error_with_issues m is = \<lparr>le_message = m, le_issues = is\<rparr>"

text \<open>\<open>Display\<close>: the message, then one indented line per issue.\<close>

definition load_error_text :: "load_error \<Rightarrow> rstr" where
  "load_error_text e = foldl (\<lambda>out i. out @ [10] @ str ''  '' @ issue_path i @ str '': '' @ issue_message i)
     (le_message e) (le_issues e)"

section \<open>Registry entries\<close>

datatype entry_source = Bundled | User | Workspace

fun source_as_str :: "entry_source \<Rightarrow> rstr" where
  "source_as_str Bundled = str ''bundled''"
| "source_as_str User = str ''user''"
| "source_as_str Workspace = str ''workspace''"

datatype spec_source = SpecFile rstr | SpecInline json

datatype load = LoadModule rstr | LoadSpec spec_source | LoadGrammar rstr

definition json_kind :: "json \<Rightarrow> rstr" where
  "json_kind v = (case v of
      JNull \<Rightarrow> str ''null'' | JBool _ \<Rightarrow> str ''boolean'' | JNum _ \<Rightarrow> str ''number''
    | JStr _ \<Rightarrow> str ''string'' | JArr _ \<Rightarrow> str ''array'' | JObj _ \<Rightarrow> str ''map'')"

text \<open>\<open>Load::from_value\<close>: a non-null \<open>spec\<close>, else a non-null \<open>grammar\<close>, else the module.\<close>

definition load_from_value :: "json \<Rightarrow> rstr + load" where
  "load_from_value v = (case v of
      JObj m \<Rightarrow>
        (case obj_get m (str ''spec'') of
           Some (JStr file) \<Rightarrow> Inr (LoadSpec (SpecFile file))
         | other \<Rightarrow>
           if other \<noteq> None \<and> other \<noteq> Some JNull then Inr (LoadSpec (SpecInline (the other)))
           else case obj_get m (str ''grammar'') of
             Some (JStr file) \<Rightarrow> Inr (LoadGrammar file)
           | g \<Rightarrow>
             if g \<noteq> None \<and> g \<noteq> Some JNull
             then Inl (str ''invalid value: '' @ json_kind (the g) @ str '', expected a string for grammar'')
             else case obj_get m (str ''module'') of
               Some (JStr name) \<Rightarrow> Inr (LoadModule name)
             | md \<Rightarrow>
               if md \<noteq> None \<and> md \<noteq> Some JNull
               then Inl (str ''invalid value: '' @ json_kind (the md) @ str '', expected a string for module'')
               else Inr (LoadModule []))
    | _ \<Rightarrow> Inl (str ''invalid value: '' @ json_kind v @
                 str '', expected an object naming spec, grammar or module''))"

datatype scope = ScopeDir | ScopeSession | ScopeFolder rstr

type_synonym overrides = "rstr \<rightharpoonup> rstr"

record entry =
  en_name :: rstr
  en_language_id :: "rstr option"
  en_extensions :: "rstr list"
  en_media_types :: "rstr list"
  en_base :: "rstr option"
  en_plugin_kind :: "rstr option"
  en_grammar_kind :: "rstr option"
  en_lex_stream :: "rstr option"
  en_semantic_tokens :: "overrides option"
  en_outline_rules :: "overrides option"
  en_sync_groups :: "rstr list option"
  en_enabled :: "bool option"
  en_error_codes :: "rstr list"
  en_load :: "load option"
  en_options :: "json option"
  en_stack :: "rstr list option"
  en_source :: entry_source
  en_dir :: "rstr option"
  en_scope :: scope

definition entry_new :: "rstr \<Rightarrow> entry" where
  "entry_new name =
     \<lparr>en_name = name, en_language_id = None, en_extensions = [], en_media_types = [],
      en_base = None, en_plugin_kind = None, en_grammar_kind = None, en_lex_stream = None,
      en_semantic_tokens = None, en_outline_rules = None, en_sync_groups = None,
      en_enabled = None, en_error_codes = [], en_load = None, en_options = None,
      en_stack = None, en_source = Bundled, en_dir = None, en_scope = ScopeDir\<rparr>"

text \<open>A declared string field: absent when missing or empty.\<close>

definition declared :: "rstr option \<Rightarrow> rstr option" where
  "declared f = (case f of Some v \<Rightarrow> if v = [] then None else Some v | None \<Rightarrow> None)"

definition unwrap_or :: "'a option \<Rightarrow> 'a \<Rightarrow> 'a" where
  "unwrap_or m d = (case m of Some v \<Rightarrow> v | None \<Rightarrow> d)"

definition language_id :: "entry \<Rightarrow> rstr" where
  "language_id e = (case declared (en_language_id e) of
      Some i \<Rightarrow> i
    | None \<Rightarrow> unwrap_or (strip_prefix (en_name e) (str ''@tabnas/'')) (en_name e))"

definition lex_stream :: "entry \<Rightarrow> rstr" where
  "lex_stream e = unwrap_or (declared (en_lex_stream e)) (str ''clean'')"

definition is_clean :: "entry \<Rightarrow> bool" where
  "is_clean e \<longleftrightarrow> lex_stream e = str ''clean''"

definition plugin_kind :: "entry \<Rightarrow> rstr" where
  "plugin_kind e = unwrap_or (declared (en_plugin_kind e)) (str ''grammar'')"

definition grammar_kind :: "entry \<Rightarrow> rstr" where
  "grammar_kind e = unwrap_or (declared (en_grammar_kind e)) (str ''closure'')"

definition is_enabled :: "entry \<Rightarrow> bool" where
  "is_enabled e \<longleftrightarrow> en_enabled e \<noteq> Some False"

definition is_routable :: "entry \<Rightarrow> bool" where
  "is_routable e \<longleftrightarrow> is_enabled e \<and> plugin_kind e \<noteq> str ''modifier''"

definition entry_load :: "entry \<Rightarrow> load" where
  "entry_load e = unwrap_or (en_load e) (LoadModule (en_name e))"

definition routing_scope :: "entry \<Rightarrow> rstr option" where
  "routing_scope e = (case en_scope e of
      ScopeDir \<Rightarrow> en_dir e | ScopeSession \<Rightarrow> None | ScopeFolder f \<Rightarrow> Some f)"

definition is_workspace :: "entry \<Rightarrow> bool" where
  "is_workspace e \<longleftrightarrow> en_source e = Workspace"

section \<open>Reading an entry from JSON\<close>

text \<open>
  The \<open>Deserialize\<close> derive of \<open>Entry\<close> and the field readers the source writes by
  hand. \<open>None\<close> is serde's error; its text is serde's own and is not modelled.
\<close>

definition read_string :: "json \<Rightarrow> rstr option" where
  "read_string v = as_str v"

fun read_all :: "(json \<Rightarrow> 'a option) \<Rightarrow> json list \<Rightarrow> 'a list option" where
  "read_all f [] = Some []"
| "read_all f (v # vs) =
     (case f v of None \<Rightarrow> None | Some x \<Rightarrow> map_option (\<lambda>xs. x # xs) (read_all f vs))"

definition read_strings :: "json \<Rightarrow> rstr list option" where
  "read_strings v = (case v of JArr vs \<Rightarrow> read_all read_string vs | _ \<Rightarrow> None)"

definition read_bool :: "json \<Rightarrow> bool option" where
  "read_bool v = (case v of JBool b \<Rightarrow> Some b | _ \<Rightarrow> None)"

definition read_usize :: "json \<Rightarrow> nat option" where
  "read_usize v = (case v of
      JNum (NInt i) \<Rightarrow> if 0 \<le> i \<and> i \<le> int usize_max then Some (nat i) else None
    | _ \<Rightarrow> None)"

definition read_overrides :: "json \<Rightarrow> overrides option" where
  "read_overrides v = (case v of
      JObj m \<Rightarrow> map_option (\<lambda>vs. map_of (zip (map fst m) vs)) (read_all read_string (map snd m))
    | _ \<Rightarrow> None)"

definition read_load :: "json \<Rightarrow> load option" where
  "read_load v = (case load_from_value v of Inr l \<Rightarrow> Some l | Inl _ \<Rightarrow> None)"

definition read_source_name :: "rstr \<Rightarrow> entry_source option" where
  "read_source_name s = (if s = str ''bundled'' then Some Bundled
     else if s = str ''user'' then Some User
     else if s = str ''workspace'' then Some Workspace else None)"

definition read_source :: "json \<Rightarrow> entry_source option" where
  "read_source v = (case v of
      JStr s \<Rightarrow> read_source_name s
    | JObj [(k, JNull)] \<Rightarrow> read_source_name k
    | _ \<Rightarrow> None)"

definition read_scope :: "json \<Rightarrow> scope option" where
  "read_scope v = (case v of JNull \<Rightarrow> Some ScopeSession | JStr f \<Rightarrow> Some (ScopeFolder f) | _ \<Rightarrow> None)"

text \<open>\<open>#[serde(default)] Option<T>\<close>: absent and null are \<open>None\<close>.\<close>

definition opt_field :: "(json \<Rightarrow> 'a option) \<Rightarrow> fields \<Rightarrow> rstr \<Rightarrow> 'a option option" where
  "opt_field f m k = (case obj_get m k of
      None \<Rightarrow> Some None | Some JNull \<Rightarrow> Some None | Some v \<Rightarrow> map_option Some (f v))"

text \<open>\<open>#[serde(default, deserialize_with = "null_is_empty")] Vec<String>\<close>.\<close>

definition list_field :: "fields \<Rightarrow> rstr \<Rightarrow> rstr list option" where
  "list_field m k = map_option (\<lambda>v. unwrap_or v []) (opt_field read_strings m k)"

text \<open>A field with a default for absence only.\<close>

definition default_field :: "'a \<Rightarrow> (json \<Rightarrow> 'a option) \<Rightarrow> fields \<Rightarrow> rstr \<Rightarrow> 'a option" where
  "default_field d f m k = (case obj_get m k of None \<Rightarrow> Some d | Some v \<Rightarrow> f v)"

definition entry_of_fields :: "fields \<Rightarrow> entry option" where
  "entry_of_fields m = do {
     name \<leftarrow> Option.bind (obj_get m (str ''name'')) read_string;
     lang \<leftarrow> opt_field read_string m (str ''languageId'');
     exts \<leftarrow> list_field m (str ''extensions'');
     medias \<leftarrow> list_field m (str ''mediaTypes'');
     base \<leftarrow> opt_field read_string m (str ''base'');
     pk \<leftarrow> opt_field read_string m (str ''pluginKind'');
     gk \<leftarrow> opt_field read_string m (str ''grammarKind'');
     ls \<leftarrow> opt_field read_string m (str ''lexStream'');
     st \<leftarrow> opt_field read_overrides m (str ''semanticTokens'');
     rules \<leftarrow> opt_field read_overrides m (str ''outlineRules'');
     sync \<leftarrow> opt_field read_strings m (str ''syncGroups'');
     en \<leftarrow> opt_field read_bool m (str ''enabled'');
     codes \<leftarrow> list_field m (str ''errorCodes'');
     ld \<leftarrow> opt_field read_load m (str ''load'');
     opts \<leftarrow> opt_field Some m (str ''options'');
     stk \<leftarrow> opt_field read_strings m (str ''stack'');
     src \<leftarrow> default_field Bundled read_source m (str ''_source'');
     dir \<leftarrow> opt_field read_string m (str ''_dir'');
     sc \<leftarrow> default_field ScopeDir read_scope m (str ''_scope'');
     Some \<lparr>en_name = name, en_language_id = lang, en_extensions = exts,
       en_media_types = medias, en_base = base, en_plugin_kind = pk, en_grammar_kind = gk,
       en_lex_stream = ls, en_semantic_tokens = st, en_outline_rules = rules,
       en_sync_groups = sync, en_enabled = en, en_error_codes = codes, en_load = ld,
       en_options = opts, en_stack = stk, en_source = src, en_dir = dir, en_scope = sc\<rparr>
   }"

section \<open>Facts the components use\<close>

lemma enc_round_trip: "enc_from_wire (enc_as_str e) = Some e"
  by (cases e) (simp_all add: enc_from_wire_def)

lemma declared_Some: "declared f = Some v \<longleftrightarrow> f = Some v \<and> v \<noteq> []"
  by (auto simp: declared_def split: option.splits)

lemma entry_of_fields_source_scope_dir:
  assumes "entry_of_fields m = Some e"
  shows "default_field Bundled read_source m (str ''_source'') = Some (en_source e)"
    and "opt_field read_string m (str ''_dir'') = Some (en_dir e)"
    and "default_field ScopeDir read_scope m (str ''_scope'') = Some (en_scope e)"
  using assms unfolding entry_of_fields_def by (auto elim!: bind_SomeE)

end
