(* ===== verification/Documents.thy ===== *)
theory Documents
  imports Types
begin

text \<open>
  Documents (\<open>rs/src/documents.rs\<close>): the line index and every conversion between
  byte offsets, engine rows and columns, and wire positions; the edits of a
  \<open>didChange\<close>; the store of open documents. Functions that slice or index return an
  option whose \<open>None\<close> is Rust's panic, and the component's lemmas show that it does
  not happen while the line index agrees with the text (\<open>index_ok\<close>, which every
  operation keeps). The lemmas read the index through \<open>line_view\<close>, a line of a text
  with what is before and after it.
\<close>

section \<open>The line index\<close>

definition line_starts_of :: "rstr \<Rightarrow> nat list" where
  "line_starts_of s =
     0 # map (\<lambda>(i, b). i + 1) (filter (\<lambda>(i, b). b = 10) (List.enumerate 0 (encode_utf8 s)))"

definition line_starts :: "doc \<Rightarrow> nat list" where
  "line_starts d = (case doc_line_starts d of
      Some starts \<Rightarrow> starts | None \<Rightarrow> line_starts_of (doc_text d))"

text \<open>What \<open>get_or_init\<close> leaves in the cell after a call of \<open>line_starts\<close>.\<close>

definition fill_line_starts :: "doc \<Rightarrow> doc" where
  "fill_line_starts d = d\<lparr>doc_line_starts := Some (line_starts d)\<rparr>"

definition doc_update :: "doc \<Rightarrow> rstr \<Rightarrow> int \<Rightarrow> doc" where
  "doc_update d txt version =
     d\<lparr>doc_text := txt, doc_version := version, doc_line_starts := None\<rparr>"

definition line_count :: "doc \<Rightarrow> nat" where
  "line_count d = length (line_starts d)"

definition units_of :: "position_encoding \<Rightarrow> rchar \<Rightarrow> nat" where
  "units_of enc c = (case enc of Utf16 \<Rightarrow> len_utf16 c | Utf8 \<Rightarrow> len_utf8 c)"

definition measure_text :: "position_encoding \<Rightarrow> rstr \<Rightarrow> nat" where
  "measure_text enc s = (case enc of Utf16 \<Rightarrow> utf16_len s | Utf8 \<Rightarrow> byte_len s)"

text \<open>\<open>starts.partition_point(|&start| start <= offset).max(1) - 1\<close>.\<close>

definition line_of :: "doc \<Rightarrow> nat \<Rightarrow> nat" where
  "line_of d offset =
     max (length (takeWhile (\<lambda>start. start \<le> offset) (line_starts d))) 1 - 1"

definition line_span :: "doc \<Rightarrow> nat \<Rightarrow> (nat \<times> nat) option" where
  "line_span d line = (let starts = line_starts d in
     if starts = [] then None
     else let ln = min line (length starts - 1) in do {
       start \<leftarrow> index starts ln;
       let end0 = (case index starts (ln + 1) of
           Some next \<Rightarrow> next - 1 | None \<Rightarrow> byte_len (doc_text d));
       if start < end0 then do {
         b \<leftarrow> byte_at (doc_text d) (end0 - 1);
         Some (start, if b = 13 then end0 - 1 else end0)
       } else Some (start, end0)
     })"

definition boundary :: "doc \<Rightarrow> nat \<Rightarrow> nat" where
  "boundary d offset = clamp_boundary (doc_text d) offset"

fun char_indices :: "nat \<Rightarrow> rstr \<Rightarrow> (nat \<times> rchar) list" where
  "char_indices k [] = []"
| "char_indices k (c # s) = (k, c) # char_indices (k + len_utf8 c) s"

definition byte_of_scalar :: "doc \<Rightarrow> nat \<Rightarrow> nat" where
  "byte_of_scalar d pos = (case index (char_indices 0 (doc_text d)) pos of
      Some (b, c) \<Rightarrow> b | None \<Rightarrow> byte_len (doc_text d))"

section \<open>Conversions\<close>

definition column_before :: "doc \<Rightarrow> nat \<Rightarrow> nat \<Rightarrow> nat option" where
  "column_before d at chars = do {
     prefix \<leftarrow> slice_to (doc_text d) (boundary d at);
     Some (sum_list (map (units_of (doc_encoding d)) (take chars (rev prefix))))
   }"

definition position_at :: "doc \<Rightarrow> nat \<Rightarrow> position option" where
  "position_at d offset = (let off = boundary d offset; line = line_of d off in do {
     start \<leftarrow> index (line_starts d) line;
     s \<leftarrow> slice (doc_text d) start off;
     Some (Position (wire line) (wire (measure_text (doc_encoding d) s)))
   })"

text \<open>The loop of \<open>offset_at\<close>: \<open>i\<close> bytes and \<open>units\<close> wire units into the line.\<close>

fun offset_walk :: "position_encoding \<Rightarrow> nat \<Rightarrow> nat \<Rightarrow> nat \<Rightarrow> nat \<Rightarrow> nat \<Rightarrow> rstr \<Rightarrow> nat" where
  "offset_walk enc start fin want i units [] = fin"
| "offset_walk enc start fin want i units (c # s) =
     (if want \<le> units then start + i
      else offset_walk enc start fin want (i + len_utf8 c) (units + units_of enc c) s)"

definition offset_at :: "doc \<Rightarrow> position \<Rightarrow> nat option" where
  "offset_at d p = do {
     (start, fin) \<leftarrow> line_span d (unat (pos_line p));
     content \<leftarrow> slice (doc_text d) start fin;
     Some (offset_walk (doc_encoding d) start fin (unat (pos_character p)) 0 0 content)
   }"

definition position_from_engine :: "doc \<Rightarrow> nat \<Rightarrow> nat \<Rightarrow> position option" where
  "position_from_engine d row col = (let line = min (row - 1) (line_count d - 1) in do {
     (start, fin) \<leftarrow> line_span d line;
     content \<leftarrow> slice (doc_text d) start fin;
     Some (Position (wire line)
       (wire (sum_list (map (units_of (doc_encoding d)) (take (col - 1) content)))))
   })"

definition position_from_site :: "doc \<Rightarrow> nat \<Rightarrow> nat \<Rightarrow> nat \<Rightarrow> position option" where
  "position_from_site d si row col = (let line = min (row - 1) (line_count d - 1) in do {
     column \<leftarrow> column_before d si (col - 1);
     Some (Position (wire line) (wire column))
   })"

definition position_of_token :: "doc \<Rightarrow> token_point \<Rightarrow> position option" where
  "position_of_token d t = position_from_site d (tp_si t) (tp_ri t) (tp_ci t)"

definition range_from :: "doc \<Rightarrow> nat \<Rightarrow> nat \<Rightarrow> nat \<Rightarrow> nat \<Rightarrow> lsp_range option" where
  "range_from d row col pos len = (let from = byte_of_scalar d pos in do {
     start \<leftarrow> position_from_site d from row col;
     rest \<leftarrow> slice_from (doc_text d) from;
     let fin = foldl (\<lambda>k c. k + len_utf8 c) from (take len rest);
     p \<leftarrow> position_at d fin;
     Some (Range start p)
   })"

section \<open>Edits\<close>

definition apply_change :: "doc \<Rightarrow> lsp_range option \<Rightarrow> rstr \<Rightarrow> doc option" where
  "apply_change d rng txt = do {
     next_text \<leftarrow> (case rng of
         None \<Rightarrow> Some txt
       | Some r \<Rightarrow> do {
           start \<leftarrow> offset_at d (range_start r);
           fin \<leftarrow> offset_at d (range_end r);
           before \<leftarrow> slice_to (doc_text d) start;
           after \<leftarrow> slice_from (doc_text d) fin;
           Some (before @ txt @ after)
         });
     Some (doc_update d next_text (doc_version d))
   }"

fun apply_changes :: "doc \<Rightarrow> (lsp_range option \<times> rstr) list \<Rightarrow> int \<Rightarrow> doc option" where
  "apply_changes d [] version = Some (d\<lparr>doc_version := version\<rparr>)"
| "apply_changes d ((rng, txt) # cs) version =
     Option.bind (apply_change d rng txt) (\<lambda>d'. apply_changes d' cs version)"

section \<open>The store of open documents\<close>

record document_store =
  st_docs :: "rstr \<rightharpoonup> doc"
  st_encoding :: position_encoding

definition store_new :: document_store where
  "store_new = \<lparr>st_docs = Map.empty, st_encoding = Utf16\<rparr>"

definition store_with_encoding :: "position_encoding \<Rightarrow> document_store" where
  "store_with_encoding e = \<lparr>st_docs = Map.empty, st_encoding = e\<rparr>"

definition store_set_encoding :: "document_store \<Rightarrow> position_encoding \<Rightarrow> document_store" where
  "store_set_encoding st e = st\<lparr>st_encoding := e\<rparr>"

definition store_insert :: "document_store \<Rightarrow> doc \<Rightarrow> document_store" where
  "store_insert st d = st\<lparr>st_docs := (st_docs st)(doc_uri d \<mapsto> d)\<rparr>"

definition store_open :: "document_store \<Rightarrow> rstr \<Rightarrow> rstr \<Rightarrow> int \<Rightarrow> rstr \<Rightarrow> document_store" where
  "store_open st uri lang version txt =
     (let d = with_encoding (doc_new uri lang version txt) (st_encoding st)
      in st\<lparr>st_docs := (st_docs st)(uri \<mapsto> d)\<rparr>)"

definition store_get :: "document_store \<Rightarrow> rstr \<Rightarrow> doc option" where
  "store_get st uri = st_docs st uri"

definition store_put :: "document_store \<Rightarrow> rstr \<Rightarrow> doc \<Rightarrow> document_store" where
  "store_put st uri d = st\<lparr>st_docs := (st_docs st)(uri \<mapsto> d)\<rparr>"

definition store_close :: "document_store \<Rightarrow> rstr \<Rightarrow> document_store" where
  "store_close st uri = st\<lparr>st_docs := (st_docs st)(uri := None)\<rparr>"

section \<open>The index agrees with the text\<close>

definition index_ok :: "doc \<Rightarrow> bool" where
  "index_ok d \<longleftrightarrow> doc_line_starts d = None \<or> doc_line_starts d = Some (line_starts_of (doc_text d))"

lemma line_starts_ok: "index_ok d \<Longrightarrow> line_starts d = line_starts_of (doc_text d)"
  by (auto simp: index_ok_def line_starts_def)

lemma index_ok_new [simp, intro]: "index_ok (doc_new u l v t)"
  by (simp add: index_ok_def doc_new_def)

lemma index_ok_update [simp, intro]: "index_ok (doc_update d t v)"
  by (simp add: index_ok_def doc_update_def)

lemma index_ok_fill [intro]: "index_ok d \<Longrightarrow> index_ok (fill_line_starts d)"
  using line_starts_ok [of d] by (simp add: index_ok_def fill_line_starts_def)

lemma doc_update_sel [simp]:
  "doc_text (doc_update d t v) = t" "doc_version (doc_update d t v) = v"
  "doc_encoding (doc_update d t v) = doc_encoding d" "doc_uri (doc_update d t v) = doc_uri d"
  "doc_language_id (doc_update d t v) = doc_language_id d"
  by (simp_all add: doc_update_def)

text \<open>The index as a recursion on the characters.\<close>

fun starts_rec :: "nat \<Rightarrow> rstr \<Rightarrow> nat list" where
  "starts_rec k [] = []"
| "starts_rec k (c # s) =
     (if c = 10 then (k + 1) # starts_rec (k + 1) s else starts_rec (k + len_utf8 c) s)"

lemma newline_byte: "10 \<in> set (encode_char c) \<longleftrightarrow> c = 10"
  by (auto simp: encode_char_def)

lemma enumerate_mem: "(i, b) \<in> set (List.enumerate k xs) \<Longrightarrow> b \<in> set xs"
  by (metis enumerate_eq_zip set_zip_rightD)

lemma enumerate_encode_char:
  "filter (\<lambda>(i, b). b = 10) (List.enumerate k (encode_char c)) = (if c = 10 then [(k, 10)] else [])"
proof (cases "c = 10")
  case True
  then show ?thesis by (simp add: encode_char_def)
next
  case False
  then have "10 \<notin> set (encode_char c)" by (simp add: newline_byte)
  then show ?thesis
    using False by (auto simp: filter_empty_conv dest: enumerate_mem)
qed

lemma starts_rec_enumerate:
  "map (\<lambda>(i, b). i + 1) (filter (\<lambda>(i, b). b = 10) (List.enumerate k (encode_utf8 s))) = starts_rec k s"
  by (induction s arbitrary: k)
     (simp_all add: enumerate_append_eq enumerate_encode_char len_utf8_ascii)

lemma line_starts_of_rec: "line_starts_of s = 0 # starts_rec 0 s"
  unfolding line_starts_of_def by (simp only: starts_rec_enumerate)

lemma starts_rec_append: "starts_rec k (a @ b) = starts_rec k a @ starts_rec (k + byte_len a) b"
  by (induction a arbitrary: k) (simp_all add: add.assoc len_utf8_ascii)

lemma starts_rec_none: "10 \<notin> set s \<Longrightarrow> starts_rec k s = []"
  by (induction s arbitrary: k) auto

lemma length_starts_rec [simp]: "length (starts_rec k s) = count_list s 10"
  by (induction s arbitrary: k) auto

lemma starts_rec_bounds: "x \<in> set (starts_rec k s) \<Longrightarrow> k < x \<and> x \<le> k + byte_len s"
proof (induction s arbitrary: k)
  case (Cons c s)
  obtain m where "len_utf8 c = Suc m" by (rule len_utf8_SucE)
  with Cons show ?case by (fastforce split: if_splits)
qed simp

lemma last_starts_rec:
  "pre = [] \<or> last pre = 10 \<Longrightarrow> last (0 # starts_rec 0 pre) = byte_len pre"
  by (cases pre rule: rev_cases) (auto simp: starts_rec_append len_utf8_ascii)

lemma length_line_starts_of [simp]: "length (line_starts_of s) = Suc (count_list s 10)"
  by (simp add: line_starts_of_rec)

section \<open>Lines of a text\<close>

text \<open>
  Line \<open>i\<close> of \<open>s\<close> is \<open>l\<close>, with \<open>pre\<close> before it (empty or ended by a line feed) and
  \<open>post\<close> after it (empty or begun by one).
\<close>

definition line_view :: "rstr \<Rightarrow> nat \<Rightarrow> rstr \<Rightarrow> rstr \<Rightarrow> rstr \<Rightarrow> bool" where
  "line_view s i pre l post \<longleftrightarrow> s = pre @ l @ post \<and> 10 \<notin> set l \<and> count_list pre 10 = i \<and>
     (pre = [] \<or> last pre = 10) \<and> (post = [] \<or> hd post = 10)"

lemma split_at_newline:
  "i \<le> count_list s (10::nat) \<Longrightarrow>
   \<exists>pre rest. s = pre @ rest \<and> count_list pre 10 = i \<and> (pre = [] \<or> last pre = 10)"
proof (induction s arbitrary: i)
  case Nil
  then show ?case by simp
next
  case (Cons c s)
  show ?case
  proof (cases "i = 0")
    case True
    then have "c # s = [] @ c # s \<and> count_list [] 10 = i \<and> ([] = [] \<or> last [] = (10::nat))"
      by simp
    then show ?thesis by blast
  next
    case False
    define j where "j = (if c = 10 then i - 1 else i)"
    have "j \<le> count_list s 10" using Cons.prems by (auto simp: j_def)
    then obtain pre rest where
      s: "s = pre @ rest" "count_list pre 10 = j" "pre = [] \<or> last pre = 10"
      using Cons.IH by blast
    have "c = 10 \<or> pre \<noteq> []" using False s(2) by (auto simp: j_def)
    with s False show ?thesis
      by (intro exI [of _ "c # pre"] exI [of _ rest]) (auto simp: j_def)
  qed
qed

lemma up_to_newline:
  obtains l post where "rest = l @ post" and "10 \<notin> set l" and "post = [] \<or> hd post = (10::nat)"
proof -
  have "rest = takeWhile (\<lambda>c. c \<noteq> 10) rest @ dropWhile (\<lambda>c. c \<noteq> 10) rest" by simp
  moreover have "10 \<notin> set (takeWhile (\<lambda>c. c \<noteq> 10) rest)"
    by (auto dest: set_takeWhileD)
  moreover have "dropWhile (\<lambda>c. c \<noteq> 10) rest = [] \<or> hd (dropWhile (\<lambda>c. c \<noteq> 10) rest) = 10"
    by (metis (mono_tags, lifting) hd_dropWhile)
  ultimately show thesis by (rule that)
qed

lemma line_view_ex:
  assumes "i \<le> count_list s 10"
  shows "\<exists>pre l post. line_view s i pre l post"
proof -
  obtain pre rest where
    s: "s = pre @ rest" "count_list pre 10 = i" "pre = [] \<or> last pre = 10"
    using split_at_newline [OF assms] by blast
  obtain l post where "rest = l @ post" "10 \<notin> set l" "post = [] \<or> hd post = 10"
    by (rule up_to_newline)
  with s show ?thesis unfolding line_view_def by blast
qed

text \<open>The last line of a prefix: what \<open>position_at\<close> measures.\<close>

lemma last_line_ex:
  obtains pre m where "a = pre @ m" and "10 \<notin> set m" and "count_list pre 10 = count_list a 10"
    and "pre = [] \<or> last pre = (10::nat)"
proof -
  obtain pre l post where v: "line_view a (count_list a 10) pre l post"
    using line_view_ex [of "count_list a 10" a] by auto
  then have a: "a = pre @ (l @ post)" and n: "count_list pre 10 = count_list a 10"
    and pre: "pre = [] \<or> last pre = 10"
    unfolding line_view_def by blast+
  have "count_list (l @ post) 10 = 0" using n unfolding a by simp
  then have "10 \<notin> set (l @ post)" by (rule count_list_0_iff [THEN iffD1])
  from that [OF a this n pre] show thesis .
qed

lemma line_view_index:
  assumes "line_view s i pre l post"
  shows "index (line_starts_of s) i = Some (byte_len pre)"
    and "index (line_starts_of s) (i + 1) =
           (if post = [] then None else Some (byte_len pre + byte_len l + 1))"
proof -
  have s: "s = pre @ l @ post" and i: "count_list pre 10 = i"
    and pre: "pre = [] \<or> last pre = 10" and l: "10 \<notin> set l"
    and post: "post = [] \<or> hd post = 10"
    using assms by (auto simp: line_view_def)
  let ?h = "0 # starts_rec 0 pre"
  let ?t = "starts_rec (byte_len pre + byte_len l) post"
  have starts: "line_starts_of s = ?h @ ?t"
    by (simp add: s line_starts_of_rec starts_rec_append starts_rec_none [OF l])
  have len: "length ?h = Suc i" using i by simp
  have "?h ! i = last ?h" using len by (metis diff_Suc_1 last_conv_nth list.distinct(1))
  then have "(?h @ ?t) ! i = byte_len pre"
    using len last_starts_rec [OF pre] by (simp only: nth_append) simp
  then show "index (line_starts_of s) i = Some (byte_len pre)"
    unfolding starts index_Some_iff using len by simp
  show "index (line_starts_of s) (i + 1) =
           (if post = [] then None else Some (byte_len pre + byte_len l + 1))"
  proof (cases post)
    case Nil
    then show ?thesis unfolding starts using len by (simp add: index_None_iff)
  next
    case (Cons c r)
    with post have "?t = (byte_len pre + byte_len l + 1) # starts_rec (byte_len pre + byte_len l + 1) r"
      by simp
    then have "index (?h @ ?t) (length ?h) = Some (byte_len pre + byte_len l + 1)"
      by (metis index_append_length)
    with Cons len show ?thesis unfolding starts by simp
  qed
qed

section \<open>What the operations compute, line by line\<close>

lemma units_of_simps [simp]: "units_of Utf16 = len_utf16" "units_of Utf8 = len_utf8"
  by (auto simp: units_of_def)

lemma measure_text_sum: "measure_text enc s = sum_list (map (units_of enc) s)"
  by (cases enc) (simp_all add: measure_text_def utf16_len_def byte_len_def)

lemma measure_text_append [simp]:
  "measure_text enc (a @ b) = measure_text enc a + measure_text enc b"
  by (simp add: measure_text_sum)

lemma measure_text_Nil [simp]: "measure_text enc [] = 0"
  by (simp add: measure_text_sum)

lemma units_of_pos [simp]: "0 < units_of enc c"
  by (cases enc) simp_all

lemma measure_text_le_byte_len: "measure_text enc s \<le> byte_len s"
  by (cases enc) (simp_all add: measure_text_def utf16_len_le_byte_len)

lemma measure_text_eq_0 [simp]: "measure_text enc s = 0 \<longleftrightarrow> s = []"
proof (cases s)
  case (Cons c r)
  have "0 < units_of enc c" by simp
  with Cons show ?thesis by (simp add: measure_text_sum)
qed simp

text \<open>The content of a line: the line without a carriage return at its end.\<close>

abbreviation line_content :: "rstr \<Rightarrow> rstr" where
  "line_content l \<equiv> strip_last 13 l"

lemma line_content_split: "\<exists>cr. l = line_content l @ cr \<and> (cr = [] \<or> cr = [13])"
  by (cases l rule: rev_cases) (auto simp: strip_last_def)

lemma line_index_min:
  "index_ok d \<Longrightarrow> min line (length (line_starts d) - 1) = min line (count_list (doc_text d) 10)"
  by (simp add: line_starts_ok)

lemma line_span_view:
  assumes ok: "index_ok d"
    and v: "line_view (doc_text d) (min line (count_list (doc_text d) 10)) pre l post"
  shows "line_span d line = Some (byte_len pre, byte_len pre + byte_len (line_content l))"
proof -
  let ?i = "min line (count_list (doc_text d) 10)"
  have s: "doc_text d = pre @ l @ post" using v by (simp add: line_view_def)
  have starts: "line_starts d = line_starts_of (doc_text d)" by (rule line_starts_ok [OF ok])
  have ne: "line_starts d \<noteq> []" by (simp add: starts line_starts_of_rec)
  note idx = line_view_index [OF v, folded starts]
  define e0 where "e0 = (case index (line_starts d) (?i + 1) of
      Some next \<Rightarrow> next - 1 | None \<Rightarrow> byte_len (doc_text d))"
  have e0: "e0 = byte_len pre + byte_len l"
    unfolding e0_def idx by (simp add: s)
  have span: "line_span d line = (if byte_len pre < e0
      then Option.bind (byte_at (doc_text d) (e0 - 1))
             (\<lambda>b. Some (byte_len pre, if b = 13 then e0 - 1 else e0))
      else Some (byte_len pre, e0))"
    using ne idx(1) unfolding line_span_def Let_def line_index_min [OF ok] e0_def by simp
  show ?thesis
  proof (cases l rule: rev_cases)
    case Nil
    then show ?thesis by (simp add: span e0 strip_last_def)
  next
    case (snoc l' c)
    obtain k where k: "len_utf8 c = Suc k" by (rule len_utf8_SucE)
    have at: "e0 - 1 = byte_len (pre @ l') + len_utf8 c - 1"
      by (simp add: e0 snoc k)
    have "(pre @ l') @ [c] @ post = doc_text d" by (simp add: s snoc)
    from byte_before_boundary [of 13 "pre @ l'" c post, unfolded this, folded at]
    have b13: "byte_at (doc_text d) (e0 - 1) = Some 13 \<longleftrightarrow> c = 13" by simp
    have "e0 - 1 < length (encode_utf8 (doc_text d))"
      by (simp add: e0 s snoc k)
    then obtain b where b: "byte_at (doc_text d) (e0 - 1) = Some b"
      by (simp add: byte_at_def)
    have "c = 13 \<Longrightarrow> len_utf8 c = 1" by (simp add: len_utf8_def)
    then show ?thesis using b b13
      by (auto simp: span e0 snoc k strip_last_def)
  qed
qed

lemma line_span_ex:
  assumes "index_ok d"
  obtains pre l post where
    "line_view (doc_text d) (min line (count_list (doc_text d) 10)) pre l post"
    and "line_span d line = Some (byte_len pre, byte_len pre + byte_len (line_content l))"
proof -
  obtain pre l post where v: "line_view (doc_text d) (min line (count_list (doc_text d) 10)) pre l post"
    using line_view_ex [of "min line (count_list (doc_text d) 10)" "doc_text d"] by auto
  show thesis by (rule that [OF v line_span_view [OF assms v]])
qed

lemma line_of_prefix:
  assumes "index_ok d" and "doc_text d = a @ b"
  shows "line_of d (byte_len a) = count_list a 10"
proof -
  have "line_starts d = (0 # starts_rec 0 a) @ starts_rec (byte_len a) b"
    using assms by (simp add: line_starts_ok line_starts_of_rec starts_rec_append)
  moreover have "takeWhile (\<lambda>x. x \<le> byte_len a) ((0 # starts_rec 0 a) @ starts_rec (byte_len a) b)
      = 0 # starts_rec 0 a"
  proof -
    have "\<And>x. x \<in> set (0 # starts_rec 0 a) \<Longrightarrow> x \<le> byte_len a"
      using starts_rec_bounds [of _ 0 a] by auto
    moreover have "takeWhile (\<lambda>x. x \<le> byte_len a) (starts_rec (byte_len a) b) = []"
      using starts_rec_bounds [of _ "byte_len a" b]
      by (cases "starts_rec (byte_len a) b") (auto simp: not_le)
    ultimately show ?thesis by (simp add: takeWhile_append)
  qed
  ultimately show ?thesis by (simp add: line_of_def)
qed

lemma position_at_prefix:
  assumes ok: "index_ok d" and d: "doc_text d = a @ b" and k: "boundary d k = byte_len a"
    and a: "a = pre @ m" "10 \<notin> set m" "pre = [] \<or> last pre = 10"
  shows "position_at d k =
    Some (Position (wire (count_list a 10)) (wire (measure_text (doc_encoding d) m)))"
proof -
  have n: "count_list a 10 = count_list pre 10" using a by (simp add: count_list_0_iff)
  obtain l post where "b = l @ post" "10 \<notin> set l" "post = [] \<or> hd post = 10"
    by (rule up_to_newline)
  then have "line_view (doc_text d) (count_list a 10) pre (m @ l) post"
    unfolding line_view_def d n using a by simp
  from line_view_index(1) [OF this]
  have "index (line_starts d) (count_list a 10) = Some (byte_len pre)"
    using ok by (simp add: line_starts_ok)
  moreover have "slice (doc_text d) (byte_len pre) (byte_len a) = Some m"
    unfolding slice_Some d a by auto
  ultimately show ?thesis
    unfolding position_at_def Let_def k line_of_prefix [OF ok d] by simp
qed

lemma position_at_ex:
  assumes "index_ok d"
  obtains a b pre m where "doc_text d = a @ b" and "boundary d k = byte_len a"
    and "a = pre @ m" and "10 \<notin> set m" and "pre = [] \<or> last pre = 10"
    and "position_at d k =
      Some (Position (wire (count_list a 10)) (wire (measure_text (doc_encoding d) m)))"
proof -
  obtain a b where ab: "doc_text d = a @ b" "boundary d k = byte_len a"
    unfolding boundary_def by (rule clamp_boundary_split)
  obtain pre m where pm: "a = pre @ m" "10 \<notin> set m" "pre = [] \<or> last pre = (10::nat)"
    using last_line_ex [of a thesis] by metis
  show thesis by (rule that [OF ab pm position_at_prefix [OF assms ab pm]])
qed

text \<open>The characters \<open>offset_at\<close> walks over: the shortest prefix of \<open>want\<close> units.\<close>

fun take_units :: "position_encoding \<Rightarrow> nat \<Rightarrow> rstr \<Rightarrow> rstr" where
  "take_units enc want [] = []"
| "take_units enc want (c # s) =
     (if want = 0 then [] else c # take_units enc (want - units_of enc c) s)"

lemma take_units_prefix: "\<exists>r. s = take_units enc want s @ r"
  by (induction enc want s rule: take_units.induct) auto

lemma take_units_exact: "take_units enc (measure_text enc x) (x @ y) = x"
proof (induction x)
  case Nil
  then show ?case by (cases y) simp_all
next
  case (Cons c x)
  have "0 < units_of enc c" by simp
  with Cons show ?case by (simp add: measure_text_sum)
qed

lemma offset_walk_take_units:
  "fin = start + i + byte_len s \<Longrightarrow>
   offset_walk enc start fin want i units s =
     start + i + byte_len (take_units enc (want - units) s)"
  by (induction enc start fin want i units s rule: offset_walk.induct) auto

lemma offset_at_view:
  assumes ok: "index_ok d"
    and v: "line_view (doc_text d) (min (unat (pos_line p)) (count_list (doc_text d) 10)) pre l post"
  shows "offset_at d p = Some (byte_len pre +
     byte_len (take_units (doc_encoding d) (unat (pos_character p)) (line_content l)))"
proof -
  have s: "doc_text d = pre @ l @ post" using v by (simp add: line_view_def)
  obtain cr where cr: "l = line_content l @ cr" using line_content_split by blast
  have "doc_text d = pre @ line_content l @ (cr @ post)"
    unfolding s by (subst cr) simp
  then have "slice (doc_text d) (byte_len pre) (byte_len pre + byte_len (line_content l))
      = Some (line_content l)"
    unfolding slice_Some by blast
  then show ?thesis
    unfolding offset_at_def line_span_view [OF ok v] by (simp add: offset_walk_take_units)
qed

lemma offset_at_ex:
  assumes "index_ok d"
  obtains pre l post where
    "line_view (doc_text d) (min (unat (pos_line p)) (count_list (doc_text d) 10)) pre l post"
    and "offset_at d p = Some (byte_len pre +
     byte_len (take_units (doc_encoding d) (unat (pos_character p)) (line_content l)))"
proof -
  obtain pre l post where
    v: "line_view (doc_text d) (min (unat (pos_line p)) (count_list (doc_text d) 10)) pre l post"
    using line_view_ex [of "min (unat (pos_line p)) (count_list (doc_text d) 10)" "doc_text d"]
    by auto
  show thesis by (rule that [OF v offset_at_view [OF assms v]])
qed

lemma take_units_content_split:
  obtains r where "l = take_units enc n (line_content l) @ r"
proof -
  obtain cr where "l = line_content l @ cr" using line_content_split by blast
  moreover obtain r where "line_content l = take_units enc n (line_content l) @ r"
    using take_units_prefix by blast
  ultimately show thesis using that by (metis append.assoc)
qed

lemma byte_len_take_units_le: "byte_len (take_units enc n s) \<le> byte_len s"
proof -
  obtain r where "s = take_units enc n s @ r" using take_units_prefix by blast
  then show ?thesis by (metis byte_len_append le_add1)
qed

lemma index_char_indices:
  "index (char_indices k s) n =
     (if n < length s then Some (k + byte_len (take n s), s ! n) else None)"
proof (induction s arbitrary: k n)
  case (Cons c s)
  then show ?case by (cases n) simp_all
qed simp

lemma byte_of_scalar_take: "byte_of_scalar d pos = byte_len (take pos (doc_text d))"
  by (simp add: byte_of_scalar_def index_char_indices)

lemma foldl_len_utf8: "foldl (\<lambda>k c. k + len_utf8 c) n s = n + byte_len s"
  by (induction s arbitrary: n) simp_all

lemma column_before_prefix:
  assumes "doc_text d = a @ b" and "boundary d k = byte_len a"
  shows "column_before d k n = Some (measure_text (doc_encoding d) (drop (length a - n) a))"
proof -
  have "take n (rev a) = rev (drop (length a - n) a)" by (simp add: take_rev)
  then show ?thesis
    using assms by (simp add: column_before_def measure_text_sum rev_map [symmetric])
qed

lemma column_before_ex: "\<exists>n. column_before d k c = Some n"
  unfolding boundary_def [symmetric]
  by (metis boundary_def clamp_boundary_split column_before_prefix)

lemma position_from_site_ex: "\<exists>p. position_from_site d si row col = Some p"
  using column_before_ex [of d si "col - 1"] by (auto simp: position_from_site_def Let_def)

lemma position_at_total: "index_ok d \<Longrightarrow> \<exists>p. position_at d k = Some p"
  by (rule position_at_ex [of d k]) auto

lemma offset_at_total: "index_ok d \<Longrightarrow> \<exists>k. offset_at d p = Some k"
  by (rule offset_at_ex [of d p]) auto

lemma range_from_total:
  assumes "index_ok d"
  shows "\<exists>r. range_from d row col pos len = Some r"
proof -
  let ?from = "byte_of_scalar d pos"
  have "slice_from (doc_text d) ?from = Some (drop pos (doc_text d))"
    unfolding slice_from_Some byte_of_scalar_take by (metis append_take_drop_id)
  moreover obtain p where "position_from_site d ?from row col = Some p"
    using position_from_site_ex by blast
  moreover obtain q where "position_at d (foldl (\<lambda>k c. k + len_utf8 c) ?from
      (take len (drop pos (doc_text d)))) = Some q"
    using position_at_total [OF assms] by blast
  ultimately show ?thesis unfolding range_from_def Let_def by simp
qed

lemma position_from_engine_total:
  assumes "index_ok d"
  shows "\<exists>p. position_from_engine d row col = Some p"
proof -
  let ?line = "min (row - 1) (line_count d - 1)"
  obtain pre l post where
    v: "line_view (doc_text d) (min ?line (count_list (doc_text d) 10)) pre l post"
    and span: "line_span d ?line = Some (byte_len pre, byte_len pre + byte_len (line_content l))"
    by (rule line_span_ex [OF assms])
  obtain cr where cr: "l = line_content l @ cr" using line_content_split by blast
  have "doc_text d = pre @ line_content l @ (cr @ post)"
    using v cr by (metis append.assoc line_view_def)
  then have "slice (doc_text d) (byte_len pre) (byte_len pre + byte_len (line_content l))
      = Some (line_content l)"
    unfolding slice_Some by blast
  then show ?thesis unfolding position_from_engine_def Let_def span by simp
qed

lemma offset_at_boundary:
  assumes "index_ok d" and "offset_at d p = Some k"
  shows "is_char_boundary (doc_text d) k"
proof -
  obtain pre l post where
    v: "line_view (doc_text d) (min (unat (pos_line p)) (count_list (doc_text d) 10)) pre l post"
    and k: "offset_at d p = Some (byte_len pre +
       byte_len (take_units (doc_encoding d) (unat (pos_character p)) (line_content l)))"
    by (rule offset_at_ex [OF assms(1)])
  let ?t = "take_units (doc_encoding d) (unat (pos_character p)) (line_content l)"
  obtain r where "l = ?t @ r" by (rule take_units_content_split)
  moreover have "doc_text d = pre @ l @ post" using v by (simp add: line_view_def)
  ultimately have "doc_text d = (pre @ ?t) @ (r @ post)" by simp
  moreover have "byte_len (pre @ ?t) = k" using k assms(2) by simp
  ultimately show ?thesis unfolding is_char_boundary_iff by blast
qed

lemma apply_change_ranged:
  assumes ok: "index_ok d"
  obtains i j a b a' b' where
    "offset_at d (range_start r) = Some i" and "offset_at d (range_end r) = Some j"
    and "doc_text d = a @ b" and "byte_len a = i" and "doc_text d = a' @ b'" and "byte_len a' = j"
    and "apply_change d (Some r) t = Some (doc_update d (a @ t @ b') (doc_version d))"
proof -
  obtain i j where i: "offset_at d (range_start r) = Some i" and j: "offset_at d (range_end r) = Some j"
    using offset_at_total [OF ok] by blast
  obtain a b where a: "doc_text d = a @ b" "byte_len a = i"
    using offset_at_boundary [OF ok i] unfolding is_char_boundary_iff by blast
  obtain a' b' where a': "doc_text d = a' @ b'" "byte_len a' = j"
    using offset_at_boundary [OF ok j] unfolding is_char_boundary_iff by blast
  have "slice_to (doc_text d) i = Some a"
    unfolding slice_to_Some using a by blast
  moreover have "slice_from (doc_text d) j = Some b'"
    unfolding slice_from_Some using a' by blast
  ultimately have "apply_change d (Some r) t = Some (doc_update d (a @ t @ b') (doc_version d))"
    by (simp add: apply_change_def i j)
  with i j a a' show thesis by (rule that)
qed

lemma apply_change_total: "index_ok d \<Longrightarrow> \<exists>d'. apply_change d rng t = Some d'"
  by (cases rng) (auto simp: apply_change_def [of d None] elim!: apply_change_ranged)

lemma apply_change_frame:
  assumes "apply_change d rng t = Some d'"
  shows "index_ok d'" and "doc_uri d' = doc_uri d" and "doc_language_id d' = doc_language_id d"
    and "doc_encoding d' = doc_encoding d" and "doc_version d' = doc_version d"
  using assms unfolding apply_change_def by (auto elim!: bind_SomeE)

lemma offset_at_in_line:
  assumes ok: "index_ok d" and k: "offset_at d p = Some k"
  obtains s e where
    "line_span d (min (unat (pos_line p)) (count_list (doc_text d) 10)) = Some (s, e)"
    and "s \<le> k" and "k \<le> e"
    and "line_of d k = min (unat (pos_line p)) (count_list (doc_text d) 10)"
    and "is_char_boundary (doc_text d) k"
proof -
  let ?i = "min (unat (pos_line p)) (count_list (doc_text d) 10)"
  obtain pre l post where
    v: "line_view (doc_text d) ?i pre l post"
    and kv: "offset_at d p = Some (byte_len pre +
       byte_len (take_units (doc_encoding d) (unat (pos_character p)) (line_content l)))"
    by (rule offset_at_ex [OF ok])
  let ?t = "take_units (doc_encoding d) (unat (pos_character p)) (line_content l)"
  have kt: "k = byte_len pre + byte_len ?t" using kv k by simp
  have span: "line_span d ?i = Some (byte_len pre, byte_len pre + byte_len (line_content l))"
    by (rule line_span_view [OF ok, where post = post]) (simp add: v)
  obtain r where r: "l = ?t @ r" by (rule take_units_content_split)
  have s: "doc_text d = pre @ l @ post" and l: "10 \<notin> set l" and n: "count_list pre 10 = ?i"
    using v unfolding line_view_def by blast+
  have dt: "doc_text d = (pre @ ?t) @ (r @ post)" unfolding s by (subst r) simp
  have "10 \<notin> set ?t" using l r by (metis Un_iff set_append)
  then have "count_list (pre @ ?t) 10 = ?i" using n by (simp add: count_list_0_iff)
  then have "line_of d k = ?i" using line_of_prefix [OF ok dt] by (simp add: kt)
  moreover have "is_char_boundary (doc_text d) k" by (rule offset_at_boundary [OF ok k])
  ultimately show thesis
    using that [OF span] byte_len_take_units_le by (simp add: kt)
qed

lemma boundary_prefix_order:
  assumes "s = a @ b" and "s = a' @ b'" and "byte_len a \<le> byte_len a'"
  obtains x where "a' = a @ x"
proof -
  from assms(1,2) have "(\<exists>x. a' = a @ x) \<or> (\<exists>y. a = a' @ y)"
    by (metis append_eq_append_conv2)
  then show thesis
  proof
    assume "\<exists>x. a' = a @ x" then show thesis using that by blast
  next
    assume "\<exists>y. a = a' @ y"
    then obtain y where "a = a' @ y" ..
    with assms(3) have "y = []" by simp
    with \<open>a = a' @ y\<close> show thesis using that [of "[]"] by simp
  qed
qed

lemma last_line_unique:
  assumes "pre @ m = pre' @ m'" and "10 \<notin> set m" and "10 \<notin> set m'"
    and "pre = [] \<or> last pre = (10::nat)" and "pre' = [] \<or> last pre' = 10"
  shows "pre' = pre \<and> m' = m"
proof -
  from assms(1) have "(\<exists>x. pre' = pre @ x \<and> m = x @ m') \<or> (\<exists>y. pre = pre' @ y \<and> m' = y @ m)"
    by (metis append_eq_append_conv2)
  then show ?thesis
  proof
    assume "\<exists>x. pre' = pre @ x \<and> m = x @ m'"
    then obtain x where x: "pre' = pre @ x" "m = x @ m'" by blast
    have "x = []" using x assms(2,5) by (cases x rule: rev_cases) auto
    with x show ?thesis by simp
  next
    assume "\<exists>y. pre = pre' @ y \<and> m' = y @ m"
    then obtain y where y: "pre = pre' @ y" "m' = y @ m" by blast
    have "y = []" using y assms(3,4) by (cases y rule: rev_cases) auto
    with y show ?thesis by simp
  qed
qed

lemma count_newlines_small: "byte_len (a :: rstr) \<le> n \<Longrightarrow> count_list a 10 \<le> n"
  using count_le_length [of a 10] length_le_byte_len [of a] by linarith

lemma measure_small: "byte_len m \<le> n \<Longrightarrow> measure_text enc m \<le> n"
  using measure_text_le_byte_len [of enc m] by linarith

lemma apply_changes_frame:
  "apply_changes d cs v = Some d' \<Longrightarrow>
   doc_version d' = v \<and> doc_uri d' = doc_uri d \<and> doc_language_id d' = doc_language_id d \<and>
   doc_encoding d' = doc_encoding d"
proof (induction d cs v arbitrary: d' rule: apply_changes.induct)
  case (2 d rng t cs version)
  from "2.prems" obtain d1 where d1: "apply_change d rng t = Some d1"
    and d': "apply_changes d1 cs version = Some d'"
    unfolding apply_changes.simps by (rule bind_SomeE)
  from "2.IH" [OF d1 d'] apply_change_frame [OF d1] show ?case by simp
qed auto

lemma apply_changes_total:
  "index_ok d \<Longrightarrow> \<exists>d'. apply_changes d cs v = Some d' \<and> index_ok d'"
proof (induction d cs v rule: apply_changes.induct)
  case (1 d v)
  then show ?case by (simp add: index_ok_def)
next
  case (2 d rng t cs v)
  obtain d1 where d1: "apply_change d rng t = Some d1"
    using apply_change_total [OF 2(2)] by blast
  with 2 apply_change_frame(1) [OF d1] show ?case by simp
qed

lemma position_offset_inverse:
  assumes ok: "index_ok d" and k: "is_char_boundary (doc_text d) k"
    and span: "line_span d (line_of d k) = Some (s, e)" and "k \<le> e"
    and small: "byte_len (doc_text d) \<le> u32_max"
  shows "Option.bind (position_at d k) (offset_at d) = Some k"
proof -
  obtain a b where d: "doc_text d = a @ b" and a: "byte_len a = k"
    using k unfolding is_char_boundary_iff by blast
  have bk: "boundary d k = byte_len a" using k a by (simp add: boundary_def clamp_boundary_id)
  obtain pre m where pm: "a = pre @ m" "10 \<notin> set m" "pre = [] \<or> last pre = (10::nat)"
    using last_line_ex [of a thesis] by metis
  obtain l post where lp: "b = l @ post" "10 \<notin> set l" "post = [] \<or> hd post = (10::nat)"
    by (rule up_to_newline)
  have n: "count_list a 10 = count_list pre 10" using pm by (simp add: count_list_0_iff)
  have "count_list a 10 \<le> length a" by (rule count_le_length)
  then have n_small: "count_list a 10 \<le> u32_max"
    using small length_le_byte_len [of a] by (simp add: d)
  have "measure_text (doc_encoding d) m \<le> byte_len m" by (rule measure_text_le_byte_len)
  then have m_small: "measure_text (doc_encoding d) m \<le> u32_max"
    using small by (simp add: d pm)
  have line: "min (count_list a 10) (count_list (doc_text d) 10) = count_list a 10"
    by (simp add: d)
  have v: "line_view (doc_text d) (count_list a 10) pre (m @ l) post"
    unfolding line_view_def using d pm lp n by simp
  have "line_of d k = count_list a 10" using line_of_prefix [OF ok d] a by simp
  then have "e = byte_len pre + byte_len (line_content (m @ l))"
    using span line_span_view [OF ok, of "count_list a 10"] v line by simp
  then have "byte_len m \<le> byte_len (line_content (m @ l))"
    using \<open>k \<le> e\<close> a pm by simp
  then obtain y where y: "line_content (m @ l) = m @ y"
    by (cases l rule: rev_cases; cases m rule: rev_cases)
       (auto simp: strip_last_def butlast_append len_utf8_ascii split: if_splits)
  show ?thesis
    using position_at_prefix [OF ok d bk pm] offset_at_view [OF ok, of "Position (wire (count_list a 10)) (wire (measure_text (doc_encoding d) m))"]
      v line n_small m_small a pm
    by (simp add: y take_units_exact)
qed

lemma apply_change_version_irrelevant:
  "map_option (\<lambda>d. d\<lparr>doc_version := v\<rparr>) (apply_change (d\<lparr>doc_version := w\<rparr>) rng t) =
   map_option (\<lambda>d. d\<lparr>doc_version := v\<rparr>) (apply_change d rng t)"
proof -
  have "line_span (d\<lparr>doc_version := w\<rparr>) n = line_span d n" for n
    by (simp add: line_span_def line_starts_def Let_def cong: option.case_cong if_cong)
  then have "offset_at (d\<lparr>doc_version := w\<rparr>) p = offset_at d p" for p
    by (simp add: offset_at_def)
  then show ?thesis
    by (cases rng) (auto simp: apply_change_def doc_update_def split: Option.bind_splits)
qed

lemma apply_changes_version_irrelevant:
  "apply_changes (d\<lparr>doc_version := w\<rparr>) cs v = apply_changes d cs v"
proof (induction cs arbitrary: d w)
  case (Cons c cs)
  obtain rng t where c: "c = (rng, t)" by (cases c)
  have eq: "map_option (\<lambda>d. d\<lparr>doc_version := 0\<rparr>) (apply_change (d\<lparr>doc_version := w\<rparr>) rng t) =
      map_option (\<lambda>d. d\<lparr>doc_version := 0\<rparr>) (apply_change d rng t)"
    by (rule apply_change_version_irrelevant)
  have fwd: "Option.bind m (\<lambda>d'. apply_changes d' cs v) =
      Option.bind (map_option (\<lambda>d. d\<lparr>doc_version := 0\<rparr>) m) (\<lambda>d'. apply_changes d' cs v)" for m
    by (cases m) (simp_all add: Cons.IH)
  show ?case by (simp only: c apply_changes.simps) (metis eq fwd)
qed simp

lemma apply_changes_cut:
  "map_option doc_text (Option.bind (apply_changes d cs w) (\<lambda>m. apply_changes m cs' v)) =
   map_option doc_text (apply_changes d (cs @ cs') v)"
proof (induction cs arbitrary: d)
  case Nil
  then show ?case by (simp add: apply_changes_version_irrelevant)
next
  case (Cons c cs)
  obtain rng t where "c = (rng, t)" by (cases c)
  then show ?case using Cons.IH by (cases "apply_change d rng t") simp_all
qed

section \<open>Edits without an index\<close>

text \<open>
  The text before a position, by lines and without an index: the lines before the one it names
  (the last line when there are fewer), and of that line the shortest prefix of as many units as
  it counts, short of the line feed and of a carriage return before it. Lines are broken at line
  feeds, as the store breaks them.
\<close>

fun lines_of :: "rstr \<Rightarrow> rstr list" where
  "lines_of [] = [[]]"
| "lines_of (c # s) = (if c = 10 then [] # lines_of s else (c # hd (lines_of s)) # tl (lines_of s))"

definition store_before :: "position_encoding \<Rightarrow> position \<Rightarrow> rstr \<Rightarrow> rstr" where
  "store_before enc p s =
     (let ls = lines_of s; i = min (unat (pos_line p)) (length ls - 1)
      in concat (map (\<lambda>l. l @ [10]) (take i ls)) @
         take_units enc (unat (pos_character p)) (line_content (ls ! i)))"

text \<open>A change replaces the whole text, or what is between the two positions of its range.\<close>

definition store_edit :: "position_encoding \<Rightarrow> rstr \<Rightarrow> lsp_range option \<times> rstr \<Rightarrow> rstr" where
  "store_edit enc s change = (case change of
      (None, t) \<Rightarrow> t
    | (Some r, t) \<Rightarrow> store_before enc (range_start r) s @ t @
        drop (length (store_before enc (range_end r) s)) s)"

lemma lines_of_ne [simp]: "lines_of s \<noteq> []"
  by (induction s) auto

lemma length_lines_of: "length (lines_of s) = Suc (count_list s 10)"
proof (induction s)
  case (Cons c s)
  then show ?case by (cases "lines_of s") auto
qed simp

lemma lines_of_single: "10 \<notin> set l \<Longrightarrow> lines_of l = [l]"
  by (induction l) auto

lemma lines_of_append: "lines_of (a @ 10 # b) = lines_of a @ lines_of b"
proof (induction a)
  case (Cons c a)
  then show ?case by (cases "lines_of a") auto
qed simp

lemma concat_lines_of: "concat (map (\<lambda>l. l @ [10]) (lines_of s)) = s @ [10]"
proof (induction s)
  case (Cons c s)
  then show ?case by (cases "lines_of s") auto
qed simp

lemma line_view_lines:
  assumes "line_view s i pre l post"
  shows "concat (map (\<lambda>l. l @ [10]) (take i (lines_of s))) = pre" and "lines_of s ! i = l"
proof -
  have s: "s = pre @ l @ post" and i: "count_list pre 10 = i" and l: "10 \<notin> set l"
    and pre: "pre = [] \<or> last pre = 10" and post: "post = [] \<or> hd post = 10"
    using assms by (auto simp: line_view_def)
  obtain rest where rest: "lines_of (l @ post) = l # rest"
    using post lines_of_single [OF l] by (cases post) (auto simp: lines_of_append)
  have "\<exists>ls. lines_of s = ls @ lines_of (l @ post) \<and> length ls = i \<and> concat (map (\<lambda>l. l @ [10]) ls) = pre"
  proof (cases pre rule: rev_cases)
    case Nil
    then show ?thesis using i by (simp add: s)
  next
    case (snoc p c)
    with pre have c: "pre = p @ [10]" by simp
    then have "lines_of s = lines_of p @ lines_of (l @ post)" by (simp add: s lines_of_append)
    moreover have "length (lines_of p) = i" using i by (simp add: c length_lines_of)
    ultimately show ?thesis using c concat_lines_of by blast
  qed
  then obtain ls where "lines_of s = ls @ l # rest" "length ls = i" "concat (map (\<lambda>l. l @ [10]) ls) = pre"
    using rest by auto
  then show "concat (map (\<lambda>l. l @ [10]) (take i (lines_of s))) = pre" and "lines_of s ! i = l"
    by auto
qed

lemma offset_at_lines:
  assumes "index_ok d"
  shows "offset_at d p = Some (byte_len (store_before (doc_encoding d) p (doc_text d)))"
    and "\<exists>rest. doc_text d = store_before (doc_encoding d) p (doc_text d) @ rest"
proof -
  let ?i = "min (unat (pos_line p)) (count_list (doc_text d) 10)"
  obtain pre l post where v: "line_view (doc_text d) ?i pre l post"
    and at: "offset_at d p = Some (byte_len pre +
       byte_len (take_units (doc_encoding d) (unat (pos_character p)) (line_content l)))"
    by (rule offset_at_ex [OF assms])
  have before: "store_before (doc_encoding d) p (doc_text d) =
      pre @ take_units (doc_encoding d) (unat (pos_character p)) (line_content l)"
    by (simp add: store_before_def Let_def length_lines_of line_view_lines [OF v])
  then show "offset_at d p = Some (byte_len (store_before (doc_encoding d) p (doc_text d)))"
    by (simp add: at)
  obtain r where "l = take_units (doc_encoding d) (unat (pos_character p)) (line_content l) @ r"
    by (rule take_units_content_split)
  then have "doc_text d = (pre @ take_units (doc_encoding d) (unat (pos_character p)) (line_content l)) @ (r @ post)"
    using v by (metis append.assoc line_view_def)
  then show "\<exists>rest. doc_text d = store_before (doc_encoding d) p (doc_text d) @ rest"
    unfolding before by blast
qed

lemma apply_change_lines:
  assumes "index_ok d"
  shows "apply_change d rng t =
    Some (doc_update d (store_edit (doc_encoding d) (doc_text d) (rng, t)) (doc_version d))"
proof (cases rng)
  case None
  then show ?thesis by (simp add: apply_change_def store_edit_def)
next
  case (Some r)
  let ?a = "store_before (doc_encoding d) (range_start r) (doc_text d)"
    and ?b = "store_before (doc_encoding d) (range_end r) (doc_text d)"
  obtain u where "doc_text d = ?a @ u" using offset_at_lines(2) [OF assms] by blast
  then have to: "slice_to (doc_text d) (byte_len ?a) = Some ?a" unfolding slice_to_Some by blast
  obtain v where v: "doc_text d = ?b @ v" using offset_at_lines(2) [OF assms] by blast
  then have "drop (length ?b) (doc_text d) = v" by (metis append_eq_conv_conj)
  then have from_end: "slice_from (doc_text d) (byte_len ?b) = Some (drop (length ?b) (doc_text d))"
    unfolding slice_from_Some using v by metis
  show ?thesis
    by (simp add: Some apply_change_def store_edit_def offset_at_lines(1) [OF assms] to from_end)
qed

lemma apply_changes_lines:
  assumes "index_ok d"
  shows "\<exists>d'. apply_changes d cs v = Some d' \<and> index_ok d' \<and>
    doc_text d' = foldl (store_edit (doc_encoding d)) (doc_text d) cs"
  using assms
proof (induction cs arbitrary: d)
  case Nil
  then show ?case by (simp add: index_ok_def)
next
  case (Cons c cs)
  obtain rng t where c: "c = (rng, t)" by (cases c)
  show ?case
    using Cons.IH [OF index_ok_update, of d "store_edit (doc_encoding d) (doc_text d) c" "doc_version d"]
    by (simp add: c apply_change_lines [OF Cons.prems])
qed

section \<open>Edits as the protocol defines them\<close>

text \<open>
  The protocol breaks lines at a line feed, at a carriage return with one, and at a carriage
  return alone: a line with the break that ends it. As in the store, a line past the last is the
  last one, and a unit inside a character is its end, which the protocol leaves open.
\<close>

fun protocol_lines :: "rstr \<Rightarrow> (rstr \<times> rstr) list" where
  "protocol_lines [] = [([], [])]"
| "protocol_lines (c # s) =
     (if c = 10 then ([], [10]) # protocol_lines s
      else if c = 13 then
        (if s \<noteq> [] \<and> hd s = 10 then ([], [13, 10]) # protocol_lines (tl s) else ([], [13]) # protocol_lines s)
      else (c # fst (hd (protocol_lines s)), snd (hd (protocol_lines s))) # tl (protocol_lines s))"

definition protocol_before :: "position_encoding \<Rightarrow> position \<Rightarrow> rstr \<Rightarrow> rstr" where
  "protocol_before enc p s =
     (let ls = protocol_lines s; i = min (unat (pos_line p)) (length ls - 1)
      in concat (map (\<lambda>(l, brk). l @ brk) (take i ls)) @ take_units enc (unat (pos_character p)) (fst (ls ! i)))"

definition protocol_edit :: "position_encoding \<Rightarrow> rstr \<Rightarrow> lsp_range option \<times> rstr \<Rightarrow> rstr" where
  "protocol_edit enc s change = (case change of
      (None, t) \<Rightarrow> t
    | (Some r, t) \<Rightarrow> protocol_before enc (range_start r) s @ t @
        drop (length (protocol_before enc (range_end r) s)) s)"

text \<open>The texts whose lines the store and the protocol break alike.\<close>

fun no_lone_return :: "rstr \<Rightarrow> bool" where
  "no_lone_return [] \<longleftrightarrow> True"
| "no_lone_return (c # s) \<longleftrightarrow> (if c = 13 then s \<noteq> [] \<and> hd s = 10 else True) \<and> no_lone_return s"

text \<open>Every change with a range is to such a text.\<close>

fun agreed_lines :: "position_encoding \<Rightarrow> rstr \<Rightarrow> (lsp_range option \<times> rstr) list \<Rightarrow> bool" where
  "agreed_lines enc s [] \<longleftrightarrow> True"
| "agreed_lines enc s (c # cs) \<longleftrightarrow>
     (fst c = None \<or> no_lone_return s) \<and> agreed_lines enc (protocol_edit enc s c) cs"

definition stored_line :: "rstr \<times> rstr \<Rightarrow> rstr" where
  "stored_line x = fst x @ (if snd x = [13, 10] then [13] else [])"

lemma protocol_lines_ne [simp]: "protocol_lines s \<noteq> []"
  by (cases s) auto

lemma protocol_lines_stored:
  "no_lone_return s \<Longrightarrow> lines_of s = map stored_line (protocol_lines s)"
proof (induction s rule: protocol_lines.induct)
  case (2 c s)
  consider "c = 10" | "c = 13" "s \<noteq> []" "hd s = 10" | "c \<noteq> 10" "c \<noteq> 13"
    using "2.prems" by (auto split: if_splits)
  then show ?case
  proof cases
    case 1
    then show ?thesis using 2 by (simp add: stored_line_def)
  next
    case two: 2
    then obtain r where s: "s = 10 # r" by (cases s) auto
    then have "lines_of r = map stored_line (protocol_lines r)" using 2 two by auto
    then show ?thesis using two(1) by (simp add: s stored_line_def)
  next
    case 3
    then have "lines_of s = map stored_line (protocol_lines s)" using 2 by auto
    then show ?thesis using 3 by (cases "protocol_lines s") (simp_all add: stored_line_def)
  qed
qed (simp add: stored_line_def)

lemma protocol_lines_breaks:
  "no_lone_return s \<Longrightarrow>
    (\<forall>x\<in>set (protocol_lines s). 13 \<notin> set (fst x)) \<and>
    (\<forall>x\<in>set (butlast (protocol_lines s)). snd x \<in> {[10], [13, 10]}) \<and> snd (last (protocol_lines s)) = []"
proof (induction s rule: protocol_lines.induct)
  case (2 c s)
  consider "c = 10" | "c = 13" "s \<noteq> []" "hd s = 10" | "c \<noteq> 10" "c \<noteq> 13"
    using "2.prems" by (auto split: if_splits)
  then show ?case
  proof cases
    case 1
    then show ?thesis using 2 by simp
  next
    case two: 2
    then obtain r where s: "s = 10 # r" by (cases s) auto
    then show ?thesis using 2 two by auto
  next
    case 3
    then show ?thesis using 2 by (cases "protocol_lines s") (auto split: if_splits)
  qed
qed simp

lemma strip_last_clean: "13 \<notin> set l \<Longrightarrow> strip_last 13 l = l"
  by (cases l rule: rev_cases) (auto simp: strip_last_def)

lemma strip_last_snoc: "strip_last c (l @ [c]) = l"
  by (simp add: strip_last_def)

lemma stored_line_break:
  "snd x = [10] \<or> snd x = [13, 10] \<Longrightarrow> stored_line x @ [10] = fst x @ snd x"
  by (cases x) (auto simp: stored_line_def)

lemma store_before_protocol:
  assumes "no_lone_return s"
  shows "store_before enc p s = protocol_before enc p s"
proof -
  let ?ls = "protocol_lines s" and ?i = "min (unat (pos_line p)) (length (protocol_lines s) - 1)"
  note breaks = protocol_lines_breaks [OF assms]
  have i: "?i < length ?ls" by (cases ?ls) auto
  have content: "line_content (stored_line x) = fst x" if "x \<in> set ?ls" for x
    using breaks that by (auto simp: stored_line_def strip_last_clean strip_last_snoc)
  have "set (take ?i ?ls) \<subseteq> set (butlast ?ls)"
    by (metis butlast_conv_take min.cobounded2 set_take_subset_set_take)
  then have "snd x = [10] \<or> snd x = [13, 10]" if "x \<in> set (take ?i ?ls)" for x
    using breaks that by blast
  then have "stored_line x @ [10] = fst x @ snd x" if "x \<in> set (take ?i ?ls)" for x
    using that by (metis stored_line_break)
  then have "map (\<lambda>l. l @ [10]) (take ?i (map stored_line ?ls)) = map (\<lambda>(l, brk). l @ brk) (take ?i ?ls)"
    by (simp add: take_map case_prod_unfold)
  then show ?thesis
    using content [OF nth_mem [OF i]] i
    by (simp add: store_before_def protocol_before_def Let_def protocol_lines_stored [OF assms])
qed

lemma store_edits_protocol:
  "agreed_lines enc s cs \<Longrightarrow> foldl (store_edit enc) s cs = foldl (protocol_edit enc) s cs"
proof (induction cs arbitrary: s)
  case (Cons c cs)
  have "store_edit enc s c = protocol_edit enc s c"
    using Cons.prems by (cases c; cases "fst c") (simp_all add: store_edit_def protocol_edit_def store_before_protocol)
  with Cons show ?case by simp
qed simp

section \<open>Properties\<close>

text \<open>
  C15: no conversion and no edit of a document panics. While the line index agrees
  with the text, every offset has a position, every position an offset, every engine
  row and column a position, every diagnostic a range, and every change, whatever its
  range, a new document; and the new document's index agrees with its text again.
\<close>

theorem document_operations_total:
  assumes "index_ok d"
  shows "(\<exists>p. position_at d k = Some p) \<and> (\<exists>j. offset_at d p = Some j) \<and>
    (\<exists>q. position_from_engine d row col = Some q) \<and> (\<exists>q. position_from_site d si row col = Some q) \<and>
    (\<exists>r. range_from d row col pos len = Some r) \<and>
    (\<exists>d'. apply_change d rng t = Some d' \<and> index_ok d')"
  using position_at_total [OF assms] offset_at_total [OF assms] range_from_total [OF assms]
    position_from_engine_total [OF assms] position_from_site_ex apply_change_total [OF assms]
    apply_change_frame(1)
  by metis

theorem document_operations_total_witness:
  "\<exists>p. position_at (doc_new [] [] 1 [0x1D11E, 10]) 2 = Some p"
  using document_operations_total [OF index_ok_new] by blast

text \<open>
  C27: a position and back is the same offset: for a character boundary no later than
  the end of its line's content, in a text a client can address.
\<close>

theorem offset_of_position:
  assumes "index_ok d" and "is_char_boundary (doc_text d) k"
    and "line_span d (line_of d k) = Some (s, e)" and "k \<le> e"
    and "byte_len (doc_text d) \<le> u32_max"
  shows "Option.bind (position_at d k) (offset_at d) = Some k"
  using assms by (rule position_offset_inverse)

theorem offset_of_position_witness:
  "Option.bind (position_at (doc_new (str ''u'') (str ''l'') 1 [97, 233, 10, 0x1D11E, 98, 13, 10]) 8)
     (offset_at (doc_new (str ''u'') (str ''l'') 1 [97, 233, 10, 0x1D11E, 98, 13, 10])) = Some 8"
proof -
  let ?d = "doc_new (str ''u'') (str ''l'') 1 [97, 233, 10, 0x1D11E, 98, 13, 10]"
  have "is_char_boundary (doc_text ?d) 8" by code_simp
  moreover have "line_span ?d (line_of ?d 8) = Some (4, 9)" by code_simp
  moreover have "byte_len (doc_text ?d) \<le> u32_max" by code_simp
  ultimately show ?thesis using offset_of_position [of ?d 8 4 9] by simp
qed

text \<open>
  An edit's offsets never leave the line the client named. The offset of any wire
  position, however far past the line or the text it points, is a character boundary
  between the start and the end of the content of that line (the last line when the
  position names a later one): neither the line break nor its carriage return is
  reachable, and nothing spills into the next line.
\<close>

theorem offset_stays_on_line:
  assumes "index_ok d" and "offset_at d p = Some k"
  shows "\<exists>s e. line_span d (min (unat (pos_line p)) (line_count d - 1)) = Some (s, e) \<and>
     s \<le> k \<and> k \<le> e \<and> is_char_boundary (doc_text d) k \<and>
     line_of d k = min (unat (pos_line p)) (line_count d - 1)"
proof -
  have "line_count d - 1 = count_list (doc_text d) 10"
    using assms(1) by (simp add: line_count_def line_starts_ok)
  then show ?thesis by (metis offset_at_in_line [OF assms])
qed

theorem offset_stays_on_line_witness:
  "\<exists>s e. line_span (doc_new [] [] 1 [97, 98, 13, 10, 99]) 0 = Some (s, e) \<and> s \<le> 2 \<and> 2 \<le> e"
proof -
  let ?d = "doc_new [] [] 1 [97, 98, 13, 10, 99]"
  have k: "offset_at ?d (Position 0 99) = Some 2" by code_simp
  have "min (unat (pos_line (Position 0 99))) (line_count ?d - 1) = 0" by simp
  with offset_stays_on_line [OF index_ok_new k] show ?thesis by auto
qed

text \<open>
  Rounding a position once is rounding it for good. Whatever position a client
  sends, the position of its offset names the same offset.
\<close>

theorem offset_position_stable:
  assumes "index_ok d" and "offset_at d p = Some k" and "byte_len (doc_text d) \<le> u32_max"
  shows "Option.bind (position_at d k) (offset_at d) = Some k"
proof -
  obtain s e where
    span: "line_span d (min (unat (pos_line p)) (count_list (doc_text d) 10)) = Some (s, e)"
    and le: "k \<le> e" and b: "is_char_boundary (doc_text d) k"
    and line: "line_of d k = min (unat (pos_line p)) (count_list (doc_text d) 10)"
    by (rule offset_at_in_line [OF assms(1,2)])
  show ?thesis
    by (rule position_offset_inverse [OF assms(1) b _ le assms(3)]) (simp add: line span)
qed

theorem offset_position_stable_witness:
  "Option.bind (position_at (doc_new [] [] 1 [97, 98, 13, 10, 99]) 2)
     (offset_at (doc_new [] [] 1 [97, 98, 13, 10, 99])) = Some 2"
proof -
  let ?d = "doc_new [] [] 1 [97, 98, 13, 10, 99]"
  have "offset_at ?d (Position 0 99) = Some 2" and "byte_len (doc_text ?d) \<le> u32_max"
    by code_simp+
  with offset_position_stable [OF index_ok_new] show ?thesis by blast
qed

text \<open>
  Positions follow offsets. A later offset never has an earlier position, in the
  order the protocol compares positions by (line, then character), whatever the
  encoding.
\<close>

theorem position_at_mono:
  assumes "index_ok d" and "j \<le> k" and "byte_len (doc_text d) \<le> u32_max"
    and "position_at d j = Some p" and "position_at d k = Some q"
  shows "p \<le> q"
proof -
  obtain a b pre m where a: "doc_text d = a @ b" "boundary d j = byte_len a" "a = pre @ m"
      "10 \<notin> set m" "pre = [] \<or> last pre = 10"
    and p: "position_at d j =
      Some (Position (wire (count_list a 10)) (wire (measure_text (doc_encoding d) m)))"
    by (rule position_at_ex [OF assms(1)])
  obtain a' b' pre' m' where a': "doc_text d = a' @ b'" "boundary d k = byte_len a'" "a' = pre' @ m'"
      "10 \<notin> set m'" "pre' = [] \<or> last pre' = 10"
    and q: "position_at d k =
      Some (Position (wire (count_list a' 10)) (wire (measure_text (doc_encoding d) m')))"
    by (rule position_at_ex [OF assms(1)])
  have "byte_len a \<le> byte_len a'"
    using clamp_boundary_mono [OF assms(2), of "doc_text d"] a(2) a'(2) by (simp add: boundary_def)
  then obtain x where x: "a' = a @ x" by (rule boundary_prefix_order [OF a(1) a'(1)])
  have small: "count_list a' 10 \<le> u32_max" "count_list a 10 \<le> u32_max"
    using assms(3) a(1) a'(1) by (metis byte_len_append count_newlines_small le_add1 le_trans)+
  show ?thesis
  proof (cases "10 \<in> set x")
    case True
    then have "count_list a 10 < count_list a' 10"
      using count_list_0_iff [of x 10] by (simp add: x)
    then show ?thesis
      using assms(4,5) p q small by (auto simp: position_less_eq_iff wire_less_iff)
  next
    case False
    have "pre @ (m @ x) = pre' @ m'" using a(3) a'(3) x by simp
    moreover have "10 \<notin> set (m @ x)" using a(4) False by simp
    ultimately have "pre' = pre \<and> m' = m @ x" using a'(4) a(5) a'(5) by (rule last_line_unique)
    then show ?thesis
      using assms(4,5) p q False by (auto simp: position_less_eq_iff wire_mono x count_list_0_iff)
  qed
qed

theorem position_at_mono_witness:
  "\<exists>p q. position_at (doc_new [] [] 1 [97, 10, 0x1D11E, 98]) 2 = Some p \<and>
     position_at (doc_new [] [] 1 [97, 10, 0x1D11E, 98]) 6 = Some q \<and> p \<le> q"
proof -
  let ?d = "doc_new [] [] 1 [97, 10, 0x1D11E, 98]"
  have p: "position_at ?d 2 = Some (Position 1 0)" and q: "position_at ?d 6 = Some (Position 1 2)"
    and "byte_len (doc_text ?d) \<le> u32_max"
    by code_simp+
  then have "Position 1 0 \<le> Position 1 2"
    using position_at_mono [OF index_ok_new _ _ p q] by simp
  with p q show ?thesis by blast
qed

text \<open>
  What an edit does. A full change replaces the text; a ranged one replaces exactly
  the bytes between the offsets of its two ends, which are character boundaries, and
  keeps everything before the first and after the second; the version is left to the
  caller, and the identity and the encoding of the document are kept.
\<close>

theorem apply_change_splice:
  assumes "index_ok d"
  shows "apply_change d None t = Some (doc_update d t (doc_version d)) \<and>
    (\<exists>i j a b a' b'. offset_at d (range_start r) = Some i \<and> offset_at d (range_end r) = Some j \<and>
       doc_text d = a @ b \<and> byte_len a = i \<and> doc_text d = a' @ b' \<and> byte_len a' = j \<and>
       apply_change d (Some r) t = Some (doc_update d (a @ t @ b') (doc_version d)))"
proof (rule conjI)
  show "apply_change d None t = Some (doc_update d t (doc_version d))"
    by (simp add: apply_change_def)
  show "\<exists>i j a b a' b'. offset_at d (range_start r) = Some i \<and> offset_at d (range_end r) = Some j \<and>
       doc_text d = a @ b \<and> byte_len a = i \<and> doc_text d = a' @ b' \<and> byte_len a' = j \<and>
       apply_change d (Some r) t = Some (doc_update d (a @ t @ b') (doc_version d))"
    by (rule apply_change_ranged [OF assms, of r t]) blast
qed

theorem apply_change_splice_witness:
  "apply_change (doc_new [] [] 1 [97, 98]) None [120] = Some (doc_new [] [] 1 [120])"
  using apply_change_splice [OF index_ok_new, of "[]" "[]" 1 "[97, 98]" "[120]"]
  by (simp add: doc_update_def doc_new_def)

text \<open>
  A \<open>didChange\<close> notification never fails, whatever its changes: each applies to the
  text the one before it left (the line index follows every change, so a ranged edit
  after a full replacement measures the text that exists), the document ends with the
  notification's version, and a notification cut in two applies as one.
\<close>

theorem apply_changes_sequence:
  assumes "index_ok d"
  shows "\<exists>d'. apply_changes d (cs @ cs') v = Some d' \<and> index_ok d' \<and> doc_version d' = v \<and>
      doc_uri d' = doc_uri d \<and> doc_encoding d' = doc_encoding d \<and>
      map_option doc_text (Option.bind (apply_changes d cs w) (\<lambda>m. apply_changes m cs' v)) =
        Some (doc_text d')"
proof -
  obtain d' where d': "apply_changes d (cs @ cs') v = Some d'" "index_ok d'"
    using apply_changes_total [OF assms] by blast
  have "map_option doc_text (Option.bind (apply_changes d cs w) (\<lambda>m. apply_changes m cs' v)) =
      map_option doc_text (apply_changes d (cs @ cs') v)"
    by (rule apply_changes_cut)
  with d' apply_changes_frame [OF d'(1)] show ?thesis by simp
qed

theorem apply_changes_sequence_witness:
  "\<exists>d'. apply_changes (doc_new [] [] 1 [97, 10, 98])
      ([(None, [120, 10, 121])] @ [(Some (Range (Position 1 0) (Position 1 0)), [90])]) 2 = Some d' \<and>
    doc_version d' = 2 \<and> doc_text d' = [120, 10, 90, 121]"
proof -
  let ?d = "doc_new [] [] 1 [97, 10, 98]"
  let ?cs = "[(None, [120, 10, 121])]"
  let ?cs' = "[(Some (Range (Position 1 0) (Position 1 0)), [90])]"
  obtain d' where d': "apply_changes ?d (?cs @ ?cs') 2 = Some d'" "doc_version d' = 2"
    using apply_changes_sequence [OF index_ok_new, of "[]" "[]" 1 "[97, 10, 98]" ?cs ?cs' 2 0] by blast
  have "map_option doc_text (apply_changes ?d (?cs @ ?cs') 2) = Some [120, 10, 90, 121]"
    by code_simp
  with d' show ?thesis by simp
qed

text \<open>
  The engine's place is the document's. When the engine's row and column count lines
  and scalar values from the start of the line (no lone carriage return restarted the
  column), the position measured back from the token is the position of its byte
  offset, and so is the one measured along the line, when the line's content reaches it.
\<close>

theorem position_from_site_agrees:
  assumes "index_ok d" and "doc_text d = pre @ m @ b" and "10 \<notin> set m"
    and "pre = [] \<or> last pre = 10"
  shows "position_from_site d (byte_len (pre @ m)) (count_list pre 10 + 1) (length m + 1) =
    position_at d (byte_len (pre @ m))"
proof -
  have d: "doc_text d = (pre @ m) @ b" using assms(2) by simp
  have bk: "boundary d (byte_len (pre @ m)) = byte_len (pre @ m)"
    unfolding boundary_def by (rule clamp_boundary_id) (simp only: d is_char_boundary_append)
  have n: "count_list (pre @ m) 10 = count_list pre 10"
    using assms(3) by (simp add: count_list_0_iff)
  have "column_before d (byte_len (pre @ m)) (length m) =
      Some (measure_text (doc_encoding d) m)"
    using column_before_prefix [OF d bk, of "length m"] by simp
  moreover have "min (count_list pre 10) (line_count d - 1) = count_list pre 10"
    using assms(1,2) by (simp add: line_count_def line_starts_ok)
  ultimately show ?thesis
    using position_at_prefix [OF assms(1) d bk refl assms(3,4)] n
    by (simp add: position_from_site_def Let_def)
qed

theorem position_from_site_agrees_witness:
  "position_from_site (doc_new [] [] 1 [34, 0x1D11E, 120, 34]) (byte_len ([] @ [34, 0x1D11E]))
     (count_list [] (10::nat) + 1) (length [34, 0x1D11E :: nat] + 1) =
   position_at (doc_new [] [] 1 [34, 0x1D11E, 120, 34]) (byte_len ([] @ [34, 0x1D11E]))"
  by (rule position_from_site_agrees [OF index_ok_new, of _ _ _ _ "[]" "[34, 0x1D11E]" "[120, 34]"])
     (simp_all add: doc_new_def)

text \<open>
  C14: edits through the index are the edits the client means. Each change of a notification
  replaces what is between its two positions, counted by lines and units over the text the change
  before it left, or the whole text when it has no range, whatever the encoding and however far
  the positions point. The lines are those the store has, broken at line feeds; and they are
  those of the protocol, which breaks at a lone carriage return too, as long as no change with a
  range is to a text with one. The document ends with the notification's version, its other
  fields kept.
\<close>

theorem changes_as_protocol:
  assumes "index_ok d"
  shows "case apply_changes d cs v of
      None \<Rightarrow> False
    | Some d' \<Rightarrow> index_ok d' \<and> doc_text d' = foldl (store_edit (doc_encoding d)) (doc_text d) cs \<and>
        (agreed_lines (doc_encoding d) (doc_text d) cs \<longrightarrow>
          doc_text d' = foldl (protocol_edit (doc_encoding d)) (doc_text d) cs) \<and>
        doc_version d' = v \<and> doc_uri d' = doc_uri d \<and> doc_language_id d' = doc_language_id d \<and>
        doc_encoding d' = doc_encoding d"
  using apply_changes_lines [OF assms, of cs v] apply_changes_frame [of d cs v] store_edits_protocol by fastforce

theorem changes_as_protocol_witness:
  "case apply_changes (doc_new [] [] 1 [97, 13, 10, 0x1D11E, 98])
      [(Some (Range (Position 1 2) (Position 9 9)), [120, 10, 121]), (Some (Range (Position 0 7) (Position 2 0)), [])] 2 of
     None \<Rightarrow> False
   | Some d' \<Rightarrow> doc_text d' = [97, 121] \<and> doc_version d' = 2"
proof -
  let ?d = "doc_new [] [] 1 [97, 13, 10, 0x1D11E, 98]"
  let ?cs = "[(Some (Range (Position 1 2) (Position 9 9)), [120, 10, 121]), (Some (Range (Position 0 7) (Position 2 0)), [])]"
  have "agreed_lines (doc_encoding ?d) (doc_text ?d) ?cs" by code_simp
  moreover have "foldl (protocol_edit (doc_encoding ?d)) (doc_text ?d) ?cs = [97, 121]" by code_simp
  ultimately show ?thesis
    using changes_as_protocol [OF index_ok_new, of "[]" "[]" 1 "[97, 13, 10, 0x1D11E, 98]" ?cs 2]
    by (auto split: option.splits)
qed

section \<open>Divergence\<close>

text \<open>
  A change after a lone carriage return lands elsewhere: the protocol's second line is not one of
  the store's, so what the client inserts at its start goes to the start of the text.
\<close>

theorem lone_return_misplaced:
  "map_option doc_text (apply_changes (doc_new [] [] 1 [97, 13, 98]) [(Some (range_empty (Position 1 0)), [120])] 2) =
     Some [120, 97, 13, 98] \<and>
   protocol_edit Utf16 [97, 13, 98] (Some (range_empty (Position 1 0)), [120]) = [97, 13, 120, 98]"
  by code_simp

end
