(* ===== verification/Trace.thy ===== *)
theory Trace
  imports Types "HOL-Library.Multiset"
begin

text \<open>
  The lex trace (\<open>rs/src/trace.rs\<close>): the recorder of token events, the anchoring of a
  token reported at the end of its text, and the reconciliation of the trace into the
  tokens the parse used. The reconciliation keeps the union of the claimed spans in a
  \<open>BTreeMap\<close> of disjoint intervals; the contract \<open>claimed_spans\<close> states what it needs of
  that container, and both the map and the plain scan it replaced are shown to meet it.
\<close>

section \<open>Recording\<close>

definition tp_span :: "token_point \<Rightarrow> nat" where
  "tp_span t = max (tp_len t) 1"

text \<open>
  The recorder. The engine's token is opaque: \<open>no_token\<close> is its \<open>is_no_token\<close> and
  \<open>point\<close> is \<open>TokenPoint::of\<close>, the slice of the token the trace keeps.
\<close>

definition trace_record ::
  "('tok \<Rightarrow> bool) \<Rightarrow> ('tok \<Rightarrow> token_point) \<Rightarrow> 'tok \<Rightarrow> token_point list \<Rightarrow> token_point list" where
  "trace_record no_token point t events = (if no_token t then events else events @ [point t])"

definition trace_take :: "token_point list \<Rightarrow> token_point list \<times> token_point list" where
  "trace_take events = (events, [])"

definition trace_clear :: "token_point list \<Rightarrow> token_point list" where
  "trace_clear events = []"

section \<open>Anchoring\<close>

definition is_line_end :: "rchar \<Rightarrow> bool" where
  "is_line_end c \<longleftrightarrow> c = 10 \<or> c = 13"

text \<open>\<open>s.rfind(['\n', '\r'])\<close>: the byte offset of the last match.\<close>

definition rfind_line_end :: "rstr \<Rightarrow> nat option" where
  "rfind_line_end s = (case dropWhile (\<lambda>c. \<not> is_line_end c) (rev s) of
      [] \<Rightarrow> None | c # r \<Rightarrow> Some (byte_len r))"

definition checked_add :: "nat \<Rightarrow> nat \<Rightarrow> nat option" where
  "checked_add a b = (if a + b \<le> usize_max then Some (a + b) else None)"

definition checked_sub :: "nat \<Rightarrow> nat \<Rightarrow> nat option" where
  "checked_sub a b = (if b \<le> a then Some (a - b) else None)"

definition anchor :: "token_point \<Rightarrow> rstr \<Rightarrow> token_point option" where
  "anchor event source = (let src = tp_src event; n = byte_len src in
     if n = 0 \<or> tp_len event \<noteq> n then None
     else do {
       after \<leftarrow> checked_add (tp_si event) n;
       if slice source (tp_si event) after = Some src then None
       else do {
         start \<leftarrow> checked_sub (tp_si event) n;
         if slice source start (tp_si event) \<noteq> Some src then None
         else do {
           before \<leftarrow> slice_to source start;
           let chars = length src;
           let from = (case rfind_line_end before of None \<Rightarrow> 0 | Some i \<Rightarrow> i + 1);
           window \<leftarrow> slice source from start;
           let ci = (if list_ex is_line_end src \<or> tp_ci event \<le> chars
                     then length window + 1 else tp_ci event - chars);
           Some (event\<lparr>tp_si := start, tp_ri := tp_ri event - count_list src 10, tp_ci := ci\<rparr>)
         }
       }
     })"

section \<open>The union of claimed spans\<close>

text \<open>A \<open>BTreeMap<usize, usize>\<close>: its entries in key order.\<close>

type_synonym span_map = "(nat \<times> nat) list"

text \<open>\<open>map.range(..=k).next_back()\<close> and \<open>map.range(k..).next()\<close>.\<close>

definition floor_entry :: "span_map \<Rightarrow> nat \<Rightarrow> (nat \<times> nat) option" where
  "floor_entry m k = (case filter (\<lambda>(s, e). s \<le> k) m of [] \<Rightarrow> None | x # xs \<Rightarrow> Some (last (x # xs)))"

definition ceil_entry :: "span_map \<Rightarrow> nat \<Rightarrow> (nat \<times> nat) option" where
  "ceil_entry m k = find (\<lambda>(s, e). k \<le> s) m"

definition map_remove :: "span_map \<Rightarrow> nat \<Rightarrow> span_map" where
  "map_remove m k = filter (\<lambda>(s, e). s \<noteq> k) m"

fun map_insert :: "span_map \<Rightarrow> nat \<Rightarrow> nat \<Rightarrow> span_map" where
  "map_insert [] k v = [(k, v)]"
| "map_insert ((s, e) # m) k v =
     (if k < s then (k, v) # (s, e) # m
      else if k = s then (k, v) # m else (s, e) # map_insert m k v)"

definition is_shadowed :: "span_map \<Rightarrow> nat \<Rightarrow> bool" where
  "is_shadowed claimed si = (case floor_entry claimed si of None \<Rightarrow> False | Some (s, e) \<Rightarrow> si < e)"

lemma ceil_entry_Some: "ceil_entry m k = Some (s, e) \<Longrightarrow> (s, e) \<in> set m \<and> k \<le> s"
  by (auto simp: ceil_entry_def find_Some_iff in_set_conv_nth)

lemma length_map_remove: "(s, e) \<in> set m \<Longrightarrow> length (map_remove m s) < length m"
  unfolding map_remove_def by (rule length_filter_less) auto

text \<open>The \<open>while let\<close> of \<open>claim\<close>: absorb the intervals from \<open>start\<close> up to \<open>fin\<close>.\<close>

function claim_absorb :: "span_map \<Rightarrow> nat \<Rightarrow> nat \<Rightarrow> span_map \<times> nat" where
  "claim_absorb m start fin = (case ceil_entry m start of
      None \<Rightarrow> (m, fin)
    | Some (s, e) \<Rightarrow>
        if fin < s then (m, fin) else claim_absorb (map_remove m s) start (max fin e))"
  by pat_completeness auto
termination
  by (relation "measure (\<lambda>(m, start, fin). length m)")
     (auto dest!: ceil_entry_Some intro: length_map_remove)

declare claim_absorb.simps [simp del]

definition claim :: "span_map \<Rightarrow> nat \<Rightarrow> nat \<Rightarrow> span_map" where
  "claim claimed start fin =
     (let (m1, s1, e1) = (case floor_entry claimed start of
            None \<Rightarrow> (claimed, start, fin)
          | Some (s, e) \<Rightarrow>
              if start \<le> e then (map_remove claimed s, s, max fin e) else (claimed, start, fin));
          (m2, e2) = claim_absorb m1 s1 e1
      in map_insert m2 s1 e2)"

section \<open>Reconciliation\<close>

text \<open>
  The loop of \<open>reconcile_placed\<close>, newest event first, over the two operations it uses of
  the container of claimed spans. \<open>place\<close> answers the event moved, or \<open>None\<close>.
\<close>

definition placed :: "(token_point \<Rightarrow> token_point option) \<Rightarrow> token_point \<Rightarrow> token_point" where
  "placed place event = unwrap_or (place event) event"

fun reconcile_over ::
  "('c \<Rightarrow> nat \<Rightarrow> bool) \<Rightarrow> ('c \<Rightarrow> nat \<Rightarrow> nat \<Rightarrow> 'c) \<Rightarrow> (token_point \<Rightarrow> token_point option) \<Rightarrow>
   'c \<Rightarrow> token_point list \<Rightarrow> token_point list" where
  "reconcile_over shadowed add place claimed [] = []"
| "reconcile_over shadowed add place claimed (event # events) =
     (let at = placed place event in
      if shadowed claimed (tp_si at) then reconcile_over shadowed add place claimed events
      else at # reconcile_over shadowed add place
             (add claimed (tp_si at) (usat_add (tp_si at) (tp_span at))) events)"

definition reconcile_placed ::
  "(token_point \<Rightarrow> token_point option) \<Rightarrow> token_point list \<Rightarrow> token_point list" where
  "reconcile_placed place events =
     sort_key tp_si (reconcile_over is_shadowed claim place [] (rev events))"

definition reconcile :: "token_point list \<Rightarrow> token_point list" where
  "reconcile events = reconcile_placed (\<lambda>_. None) events"

definition reconcile_in :: "token_point list \<Rightarrow> rstr \<Rightarrow> token_point list" where
  "reconcile_in events source = reconcile_placed (\<lambda>event. anchor event source) events"

section \<open>The contract of the container\<close>

definition span_points :: "span_map \<Rightarrow> nat set" where
  "span_points m = (\<Union>(s, e)\<in>set m. {s..<e})"

text \<open>The bytes an event claims; none at the very end of the address space.\<close>

definition claimed_by :: "token_point \<Rightarrow> nat set" where
  "claimed_by t = {tp_si t..<usat_add (tp_si t) (tp_span t)}"

text \<open>The documented contract, over the set of claimed bytes.\<close>

fun keep_newest :: "(token_point \<Rightarrow> token_point option) \<Rightarrow> nat set \<Rightarrow> token_point list \<Rightarrow> token_point list" where
  "keep_newest place P [] = []"
| "keep_newest place P (event # events) =
     (let at = placed place event in
      if tp_si at \<in> P then keep_newest place P events
      else at # keep_newest place (P \<union> claimed_by at) events)"

locale claimed_spans =
  fixes empty :: 'c
    and shadowed :: "'c \<Rightarrow> nat \<Rightarrow> bool"
    and add :: "'c \<Rightarrow> nat \<Rightarrow> nat \<Rightarrow> 'c"
    and ok :: "'c \<Rightarrow> bool"
    and points :: "'c \<Rightarrow> nat set"
  assumes empty_ok: "ok empty"
    and empty_points: "points empty = {}"
    and shadowed_points: "ok c \<Longrightarrow> shadowed c x \<longleftrightarrow> x \<in> points c"
    and add_ok: "ok c \<Longrightarrow> s \<le> e \<Longrightarrow> ok (add c s e)"
    and add_points: "ok c \<Longrightarrow> s \<le> e \<Longrightarrow> points (add c s e) = points c \<union> {s..<e}"
begin

lemma reconcile_over_keep:
  "ok c \<Longrightarrow> \<forall>x\<in>set events. tp_si (placed place x) \<le> usize_max \<Longrightarrow>
    reconcile_over shadowed add place c events = keep_newest place (points c) events"
proof (induction events arbitrary: c)
  case Nil
  then show ?case by simp
next
  case (Cons event events)
  let ?at = "placed place event"
  let ?c = "add c (tp_si ?at) (usat_add (tp_si ?at) (tp_span ?at))"
  show ?case
  proof (cases "tp_si ?at \<in> points c")
    case True
    then show ?thesis using Cons by (simp add: Let_def shadowed_points)
  next
    case False
    then have "ok ?c" and "points ?c = points c \<union> claimed_by ?at"
      using Cons.prems by (simp_all add: add_ok add_points claimed_by_def usat_add_def)
    with False Cons show ?thesis by (simp add: Let_def shadowed_points)
  qed
qed

lemma reconcile_over_empty:
  "\<forall>x\<in>set events. tp_si (placed place x) \<le> usize_max \<Longrightarrow>
    reconcile_over shadowed add place empty events = keep_newest place {} events"
  using reconcile_over_keep [OF empty_ok] by (simp add: empty_points)

end

section \<open>The ordered map meets the contract\<close>

definition span_ok :: "span_map \<Rightarrow> bool" where
  "span_ok m \<longleftrightarrow> sorted_wrt (\<lambda>a b. snd a < fst b) m \<and> (\<forall>(s, e)\<in>set m. s \<le> e)"

lemma span_ok_Nil [simp]: "span_ok []" by (simp add: span_ok_def)

lemma span_ok_le: "span_ok m \<Longrightarrow> x \<in> set m \<Longrightarrow> fst x \<le> snd x"
  by (auto simp: span_ok_def)

lemma span_ok_Cons:
  "span_ok ((s, e) # m) \<longleftrightarrow> s \<le> e \<and> (\<forall>(a, b)\<in>set m. e < a) \<and> span_ok m"
  by (auto simp: span_ok_def)

lemma span_ok_append:
  "span_ok (p @ q) \<longleftrightarrow> span_ok p \<and> span_ok q \<and> (\<forall>(s, e)\<in>set p. \<forall>(a, b)\<in>set q. e < a)"
  by (auto simp: span_ok_def sorted_wrt_append case_prod_unfold)

lemma span_points_simps [simp]:
  "span_points [] = {}"
  "span_points ((s, e) # m) = {s..<e} \<union> span_points m"
  "span_points (p @ q) = span_points p \<union> span_points q"
  by (auto simp: span_points_def)

lemma floor_entry_None: "floor_entry m k = None \<Longrightarrow> (a, b) \<in> set m \<Longrightarrow> k < a"
  by (auto simp: floor_entry_def filter_empty_conv split: list.splits)

lemma filter_floor:
  assumes "span_ok m"
  shows "\<exists>p q. m = p @ q \<and> filter (\<lambda>(s, e). s \<le> k) m = p \<and>
    (\<forall>(a, b)\<in>set p. a \<le> k) \<and> (\<forall>(a, b)\<in>set q. k < a)"
  using assms
proof (induction m)
  case Nil
  then show ?case by simp
next
  case (Cons x m)
  obtain s e where x: "x = (s, e)" by force
  from Cons x have hd: "s \<le> e" "\<forall>(a, b)\<in>set m. e < a" and ok: "span_ok m"
    by (auto simp: span_ok_Cons)
  obtain p q where pq: "m = p @ q" "filter (\<lambda>(s, e). s \<le> k) m = p"
    "\<forall>(a, b)\<in>set p. a \<le> k" "\<forall>(a, b)\<in>set q. k < a"
    using Cons.IH [OF ok] by blast
  show ?case
  proof (cases "s \<le> k")
    case True
    show ?thesis
      by (rule exI [of _ "x # p"], rule exI [of _ q]) (use pq x True in auto)
  next
    case False
    have "\<forall>(a, b)\<in>set m. k < a" using hd False by (auto split: prod.splits)
    then have "\<forall>(a, b)\<in>set (x # m). k < a" using x False by auto
    moreover from this have "filter (\<lambda>(s, e). s \<le> k) (x # m) = []"
      by (auto simp: filter_empty_conv)
    ultimately show ?thesis by (intro exI [of _ "[]"] exI [of _ "x # m"]) auto
  qed
qed

lemma floor_entry_Some:
  assumes "span_ok m" "floor_entry m k = Some (s, e)"
  obtains p q where "m = p @ (s, e) # q" "s \<le> k" "\<forall>(a, b)\<in>set q. k < a"
proof -
  obtain p q where pq: "m = p @ q" "filter (\<lambda>(s, e). s \<le> k) m = p"
    "\<forall>(a, b)\<in>set p. a \<le> k" "\<forall>(a, b)\<in>set q. k < a"
    using filter_floor [OF assms(1)] by blast
  from assms(2) pq(2) have "p \<noteq> []" "last p = (s, e)"
    by (auto simp: floor_entry_def split: list.splits)
  then have "p = butlast p @ [(s, e)]" by (metis append_butlast_last_id)
  with pq have "m = butlast p @ (s, e) # q" "s \<le> k"
    by (metis append.assoc append_Cons append_Nil,
        metis \<open>last p = (s, e)\<close> \<open>p \<noteq> []\<close> case_prodD last_in_set)
  from that [OF this pq(4)] show thesis .
qed

lemma is_shadowed_points:
  assumes "span_ok m" shows "is_shadowed m x \<longleftrightarrow> x \<in> span_points m"
proof (cases "floor_entry m x")
  case None
  then have "x \<notin> span_points m"
    using floor_entry_None [OF None] by (fastforce simp: span_points_def)
  with None show ?thesis by (simp add: is_shadowed_def)
next
  case (Some se)
  obtain s e where se: "se = (s, e)" by force
  obtain p q where m: "m = p @ (s, e) # q" "s \<le> x" and q: "\<forall>(a, b)\<in>set q. x < a"
    using floor_entry_Some [OF assms, of x s e] Some se by blast
  from assms m have "\<forall>(a, b)\<in>set p. b < s" by (auto simp: span_ok_append span_ok_Cons)
  with m q have "x \<in> span_points m \<longleftrightarrow> x < e"
    by (fastforce simp: span_points_def)
  with Some se show ?thesis by (simp add: is_shadowed_def)
qed

lemma map_remove_at:
  assumes "span_ok (p @ (s, e) # q)" shows "map_remove (p @ (s, e) # q) s = p @ q"
proof -
  from assms have "\<forall>x\<in>set p. snd x < s" "\<forall>x\<in>set q. e < fst x" "s \<le> e"
    by (auto simp: span_ok_append span_ok_Cons case_prod_unfold)
  moreover have "\<forall>x\<in>set p. fst x \<le> snd x" using span_ok_le [OF assms] by simp
  ultimately have "\<forall>x\<in>set p \<union> set q. fst x \<noteq> s" by fastforce
  then show ?thesis by (auto simp: map_remove_def case_prod_unfold filter_id_conv)
qed

lemma map_insert_at:
  "\<forall>(a, b)\<in>set p. a < s \<Longrightarrow> \<forall>(a, b)\<in>set q. s < a \<Longrightarrow>
    map_insert (p @ q) s e = p @ (s, e) # q"
  by (induction p) (cases q; auto)+

lemma ceil_entry_at:
  "\<forall>(a, b)\<in>set p. a < k \<Longrightarrow> \<forall>(a, b)\<in>set q. k \<le> a \<Longrightarrow>
    ceil_entry (p @ q) k = (case q of [] \<Rightarrow> None | x # _ \<Rightarrow> Some x)"
  by (induction p) (auto simp: ceil_entry_def split: list.splits)

text \<open>The loop swallows a prefix of the intervals at or after \<open>s\<close> and leaves the rest beyond its end.\<close>

lemma claim_absorb_at:
  assumes "span_ok (p @ q)" "\<forall>(a, b)\<in>set p. a < s" "\<forall>(a, b)\<in>set q. s \<le> a" "s \<le> e"
  shows "\<exists>q' e'. claim_absorb (p @ q) s e = (p @ q', e') \<and> e \<le> e' \<and> suffix q' q \<and>
    (\<forall>(a, b)\<in>set q'. e' < a) \<and> {s..<e'} \<union> span_points q' = {s..<e} \<union> span_points q"
  using assms
proof (induction q arbitrary: e)
  case Nil
  then have "ceil_entry p s = None" using ceil_entry_at [of p s "[]"] by simp
  then show ?case by (intro exI [of _ "[]"] exI [of _ e]) (simp add: claim_absorb.simps)
next
  case (Cons x q)
  obtain a b where x: "x = (a, b)" by force
  have ceil: "ceil_entry (p @ x # q) s = Some (a, b)"
    using ceil_entry_at [OF Cons.prems(2,3)] x by simp
  from Cons.prems x have ab: "a \<le> b" "s \<le> a" "\<forall>(c, d)\<in>set q. b < c" and ok: "span_ok (p @ q)"
    by (auto simp: span_ok_append span_ok_Cons)
  show ?case
  proof (cases "e < a")
    case True
    moreover from True ab have "\<forall>(c, d)\<in>set (x # q). e < c" using x by auto
    ultimately show ?thesis using ceil by (simp add: claim_absorb.simps)
  next
    case False
    have rm: "map_remove (p @ x # q) a = p @ q"
      using Cons.prems(1) x by (simp add: map_remove_at)
    obtain q' e' where q': "claim_absorb (p @ q) s (max e b) = (p @ q', e')" "max e b \<le> e'"
      "suffix q' q" "\<forall>(a, b)\<in>set q'. e' < a"
      "{s..<e'} \<union> span_points q' = {s..<max e b} \<union> span_points q"
      using Cons.IH [OF ok Cons.prems(2), of "max e b"] Cons.prems(3,4) by (auto simp: le_max_iff_disj)
    have "{s..<max e b} = {s..<e} \<union> {a..<b}" using False ab Cons.prems(4) by auto
    with q' x ceil rm False show ?thesis
      by (intro exI [of _ q'] exI [of _ e'])
         (auto simp: claim_absorb.simps [of "p @ (a, b) # q"] suffix_ConsI)
  qed
qed

lemma claim_at:
  assumes "span_ok (p @ q)" "\<forall>(a, b)\<in>set p. b < s" "\<forall>(a, b)\<in>set q. s \<le> a" "s \<le> e"
    and absorbed: "claim_absorb (p @ q) s e = (m, f)"
  shows "span_ok (map_insert m s f)"
    and "span_points (map_insert m s f) = span_points p \<union> {s..<e} \<union> span_points q"
proof -
  have p: "\<forall>(a, b)\<in>set p. a < s"
    using assms(2) span_ok_le [OF assms(1)] by (fastforce simp: case_prod_unfold)
  obtain q' where q': "m = p @ q'" "e \<le> f" "suffix q' q" "\<forall>(a, b)\<in>set q'. f < a"
    "{s..<f} \<union> span_points q' = {s..<e} \<union> span_points q"
    using claim_absorb_at [OF assms(1) p assms(3,4)] absorbed by auto
  have ins: "map_insert m s f = p @ (s, f) # q'"
    unfolding q'(1) by (rule map_insert_at [OF p]) (use q'(2,4) assms(4) in auto)
  from q'(3) obtain z where "q = z @ q'" by (auto simp: suffix_def)
  with assms(1) have "span_ok q'" "\<forall>(a, b)\<in>set p. \<forall>(c, d)\<in>set q'. b < c"
    by (simp_all add: span_ok_append case_prod_unfold)
  with ins assms q' show "span_ok (map_insert m s f)"
    by (auto simp: span_ok_append span_ok_Cons case_prod_unfold)
  from ins q'(5) show "span_points (map_insert m s f) = span_points p \<union> {s..<e} \<union> span_points q"
    by auto
qed

lemma claim_ok:
  assumes ok: "span_ok m" and le: "s \<le> e"
  shows "span_ok (claim m s e) \<and> span_points (claim m s e) = span_points m \<union> {s..<e}"
proof (cases "floor_entry m s")
  case None
  obtain m2 e2 where ab: "claim_absorb m s e = (m2, e2)" by force
  have q: "\<forall>(a, b)\<in>set m. s \<le> a" using floor_entry_None [OF None] by fastforce
  show ?thesis
    using claim_at [of "[]" m s e] q ok le ab None by (auto simp: claim_def)
next
  case (Some se)
  obtain a b where se: "se = (a, b)" by force
  obtain p q where m: "m = p @ (a, b) # q" "a \<le> s" and q: "\<forall>(c, d)\<in>set q. s < c"
    using floor_entry_Some [OF ok, of s a b] Some se by blast
  from ok m have facts: "a \<le> b" "\<forall>(c, d)\<in>set p. d < a" "span_ok (p @ q)"
    by (auto simp: span_ok_append span_ok_Cons)
  have q': "\<forall>(c, d)\<in>set q. s \<le> c" "\<forall>(c, d)\<in>set q. a \<le> c" using q m(2) by fastforce+
  show ?thesis
  proof (cases "s \<le> b")
    case True
    obtain m2 e2 where ab: "claim_absorb (p @ q) a (max e b) = (m2, e2)" by force
    have "{a..<max e b} = {a..<b} \<union> {s..<e}" using True m(2) le by auto
    then show ?thesis
      using claim_at [OF facts(3,2) q'(2) _ ab] facts(1) True Some se m ok ab le
      by (auto simp: claim_def map_remove_at)
  next
    case False
    obtain m2 e2 where ab: "claim_absorb (p @ (a, b) # q) s e = (m2, e2)" by force
    have p: "\<forall>(c, d)\<in>set (p @ [(a, b)]). d < s" using facts False m(2) by fastforce
    show ?thesis
      using claim_at [of "p @ [(a, b)]" q s e, OF _ p q'(1) le] ab False Some se m ok
      by (auto simp: claim_def)
  qed
qed

interpretation span_tree: claimed_spans "[]" is_shadowed claim span_ok span_points
  by unfold_locales (auto simp: is_shadowed_points claim_ok)

text \<open>The scan of every claimed span that the map replaced.\<close>

definition scan_shadowed :: "span_map \<Rightarrow> nat \<Rightarrow> bool" where
  "scan_shadowed spans x \<longleftrightarrow> list_ex (\<lambda>(s, e). s \<le> x \<and> x < e) spans"

definition scan_claim :: "span_map \<Rightarrow> nat \<Rightarrow> nat \<Rightarrow> span_map" where
  "scan_claim spans s e = (s, e) # spans"

interpretation span_scan: claimed_spans "[]" scan_shadowed scan_claim "\<lambda>_. True" span_points
  by unfold_locales (auto simp: scan_shadowed_def scan_claim_def span_points_def list_ex_iff case_prod_unfold)

section \<open>What survives\<close>

definition in_range :: "(token_point \<Rightarrow> token_point option) \<Rightarrow> token_point list \<Rightarrow> bool" where
  "in_range place events \<longleftrightarrow> (\<forall>x\<in>set events. tp_si (placed place x) \<le> usize_max)"

definition claimed_bytes :: "token_point list \<Rightarrow> nat set" where
  "claimed_bytes ts = (\<Union>t\<in>set ts. claimed_by t)"

lemma claimed_bytes_simps [simp]:
  "claimed_bytes [] = {}"
  "claimed_bytes (t # ts) = claimed_by t \<union> claimed_bytes ts"
  "claimed_bytes (ts @ us) = claimed_bytes ts \<union> claimed_bytes us"
  "claimed_bytes (sort_key k ts) = claimed_bytes ts"
  by (auto simp: claimed_bytes_def)

lemma reconcile_placed_keep:
  "in_range place events \<Longrightarrow>
    reconcile_placed place events = sort_key tp_si (keep_newest place {} (rev events))"
  by (simp add: reconcile_placed_def span_tree.reconcile_over_empty in_range_def)

lemma keep_newest_append:
  "keep_newest place P (es @ fs) =
    keep_newest place P es @ keep_newest place (P \<union> claimed_bytes (keep_newest place P es)) fs"
  by (induction es arbitrary: P) (auto simp: Let_def Un_assoc)

lemma keep_newest_subset: "set (keep_newest place P es) \<subseteq> placed place ` set es"
proof (induction es arbitrary: P)
  case (Cons e es)
  show ?case using Cons.IH [of P] Cons.IH [of "P \<union> claimed_by (placed place e)"]
    by (auto simp: Let_def)
qed simp

lemma keep_newest_fresh: "t \<in> set (keep_newest place P es) \<Longrightarrow> tp_si t \<notin> P"
  by (induction es arbitrary: P) (force simp: Let_def split: if_splits)+

lemma start_claimed: "tp_si t < usize_max \<Longrightarrow> tp_si t \<in> claimed_by t"
  by (auto simp: claimed_by_def usat_add_def tp_span_def)

lemma keep_newest_cover:
  "e \<in> set es \<Longrightarrow> tp_si (placed place e) < usize_max \<Longrightarrow>
    tp_si (placed place e) \<in> P \<union> claimed_bytes (keep_newest place P es)"
  by (induction es arbitrary: P) (auto simp: Let_def start_claimed)

lemma keep_newest_distinct:
  "\<forall>e\<in>set es. tp_si (placed place e) < usize_max \<Longrightarrow>
    distinct (map tp_si (keep_newest place P es))"
  by (induction es arbitrary: P)
     (auto simp: Let_def dest!: keep_newest_fresh dest: start_claimed)

text \<open>Processed from the right, tokens with distinct starts never shadow one another.\<close>

lemma keep_newest_sorted:
  "sorted_wrt (\<lambda>a b. tp_si b < tp_si a) ts \<Longrightarrow> \<forall>t\<in>set ts. \<forall>x\<in>P. tp_si t < x \<Longrightarrow>
    keep_newest (\<lambda>_. None) P ts = ts"
proof (induction ts arbitrary: P)
  case Nil
  then show ?case by simp
next
  case (Cons t ts)
  have at: "placed (\<lambda>_. None) t = t" by (simp add: placed_def unwrap_or_def)
  have "keep_newest (\<lambda>_. None) (P \<union> claimed_by t) ts = ts"
    by (rule Cons.IH) (use Cons.prems in \<open>auto simp: claimed_by_def\<close>)
  moreover have "tp_si t \<notin> P" using Cons.prems(2) by auto
  ultimately show ?case by (simp add: at Let_def)
qed

lemma reconcile_sorted_id:
  assumes "sorted (map tp_si ts)" "distinct (map tp_si ts)" "\<forall>t\<in>set ts. tp_si t \<le> usize_max"
  shows "reconcile ts = ts"
proof -
  have "sorted_wrt (\<lambda>a b. tp_si b < tp_si a) (rev ts)"
    using assms(1,2) strict_sorted_iff [of "map tp_si ts"] by (simp add: sorted_wrt_rev sorted_wrt_map)
  then have "keep_newest (\<lambda>_. None) {} (rev ts) = rev ts"
    by (rule keep_newest_sorted) simp
  moreover have "in_range (\<lambda>_. None) ts"
    using assms(3) by (simp add: in_range_def placed_def unwrap_or_def)
  moreover have "sort_key tp_si (rev ts) = ts"
    by (rule sort_key_inj_key_eq) (use assms in \<open>auto simp: distinct_map\<close>)
  ultimately show ?thesis by (simp add: reconcile_def reconcile_placed_keep)
qed

lemma anchor_parts:
  assumes "anchor event source = Some t"
  shows "tp_si t + byte_len (tp_src event) = tp_si event" "tp_src t = tp_src event"
    "tp_name t = tp_name event" "tp_len t = tp_len event" "tp_len event = byte_len (tp_src event)"
    "slice source (tp_si t) (tp_si event) = Some (tp_src event)"
  using assms
  by (auto simp: anchor_def Let_def checked_sub_def checked_add_def
      split: if_splits Option.bind_splits)

lemma placed_anchor_le: "tp_si (placed (\<lambda>e. anchor e source) e) \<le> tp_si e"
  using anchor_parts(1) [of e source]
  by (cases "anchor e source") (fastforce simp: placed_def unwrap_or_def)+

lemma in_range_anchor:
  "\<forall>e\<in>set events. tp_si e \<le> usize_max \<Longrightarrow> in_range (\<lambda>e. anchor e source) events"
  unfolding in_range_def using placed_anchor_le order_trans by blast

section \<open>Properties\<close>

text \<open>
  C26: the interval map changes nothing but the cost. For every trace whose offsets fit a
  machine word, reconciling over the ordered map of disjoint intervals gives exactly the
  list that the quadratic scan of every claimed span gives.
\<close>

theorem reconcile_refines_scan:
  assumes "\<forall>e\<in>set events. tp_si e \<le> usize_max"
  shows "reconcile_in events source =
    sort_key tp_si (reconcile_over scan_shadowed scan_claim (\<lambda>e. anchor e source) [] (rev events))"
  using in_range_anchor [OF assms, of source]
  by (simp add: reconcile_in_def reconcile_placed_keep span_scan.reconcile_over_empty in_range_def)

theorem reconcile_refines_scan_witness:
  "reconcile_in [\<lparr>tp_name = [], tp_si = 0, tp_ri = 1, tp_ci = 1, tp_len = 1, tp_src = [97]\<rparr>,
                 \<lparr>tp_name = [], tp_si = 0, tp_ri = 1, tp_ci = 1, tp_len = 2, tp_src = [97, 98]\<rparr>] [97, 98]
    = [\<lparr>tp_name = [], tp_si = 0, tp_ri = 1, tp_ci = 1, tp_len = 2, tp_src = [97, 98]\<rparr>]"
  apply (subst reconcile_refines_scan)
   apply (simp add: usize_max_def)
  apply code_simp
  done

text \<open>
  C17: the reconciliation contract, one event at a time. Nothing reconciles to nothing,
  and an event older than a trace joins its tokens exactly when the place of its text is
  not inside the span of a token the newer events left; the answer is sorted by position.
\<close>

theorem reconcile_contract:
  assumes "\<forall>e\<in>set (event # events). tp_si e \<le> usize_max"
  shows "reconcile_in [] source = [] \<and>
    sorted (map tp_si (reconcile_in (event # events) source)) \<and>
    mset (reconcile_in (event # events) source) =
      (let at = placed (\<lambda>e. anchor e source) event; newer = reconcile_in events source in
       if tp_si at \<in> claimed_bytes newer then mset newer else add_mset at (mset newer))"
proof -
  let ?p = "\<lambda>e. anchor e source"
  have ok: "in_range ?p (event # events)" "in_range ?p events"
    using assms by (auto intro!: in_range_anchor)
  let ?k = "keep_newest ?p {} (rev events)"
  have "keep_newest ?p {} (rev (event # events)) =
      ?k @ (if tp_si (placed ?p event) \<in> claimed_bytes ?k then [] else [placed ?p event])"
    by (simp add: keep_newest_append Let_def)
  then show ?thesis
    using ok by (simp add: reconcile_in_def reconcile_placed_keep Let_def reconcile_placed_def [of _ "[]"])
qed

theorem reconcile_contract_witness:
  "sorted (map tp_si (reconcile_in
     [\<lparr>tp_name = [], tp_si = 4, tp_ri = 1, tp_ci = 1, tp_len = 1, tp_src = [97]\<rparr>] [97, 98]))"
  using reconcile_contract
    [of "\<lparr>tp_name = [], tp_si = 4, tp_ri = 1, tp_ci = 1, tp_len = 1, tp_src = [97]\<rparr>" "[]" "[97, 98]"]
  by (simp add: usize_max_def)

text \<open>
  Nothing of the trace is lost and nothing is kept twice. Every event's place lies
  inside a surviving token, the survivors are events put on their text, no two start at
  the same byte, and reconciling them again gives the same list.
\<close>

theorem reconcile_survivors:
  assumes "\<forall>e\<in>set events. tp_si e < usize_max"
  shows "(\<forall>e\<in>set events. tp_si (placed (\<lambda>e. anchor e source) e) \<in> claimed_bytes (reconcile_in events source)) \<and>
    set (reconcile_in events source) \<subseteq> placed (\<lambda>e. anchor e source) ` set events \<and>
    distinct (map tp_si (reconcile_in events source)) \<and>
    reconcile (reconcile_in events source) = reconcile_in events source"
proof -
  let ?p = "\<lambda>e. anchor e source"
  let ?k = "keep_newest ?p {} (rev events)"
  have small: "\<forall>e\<in>set (rev events). tp_si (placed ?p e) < usize_max"
    using assms placed_anchor_le le_less_trans by (metis set_rev)
  have eq: "reconcile_in events source = sort_key tp_si ?k"
    using assms by (simp add: reconcile_in_def reconcile_placed_keep in_range_anchor less_imp_le)
  have dist: "distinct (map tp_si (sort_key tp_si ?k))"
    using keep_newest_distinct [OF small, of "{}"] by (simp add: distinct_map)
  have sub: "set ?k \<subseteq> placed ?p ` set events"
    using keep_newest_subset [of ?p "{}" "rev events"] by simp
  have "reconcile (sort_key tp_si ?k) = sort_key tp_si ?k"
    by (rule reconcile_sorted_id [OF _ dist]) (use sub small in fastforce)+
  moreover have "\<forall>e\<in>set events. tp_si (placed ?p e) \<in> claimed_bytes ?k"
    using keep_newest_cover [of _ "rev events" ?p "{}"] small by simp
  ultimately show ?thesis using dist sub by (simp add: eq)
qed

theorem reconcile_survivors_witness:
  "distinct (map tp_si (reconcile_in
     [\<lparr>tp_name = [], tp_si = 4, tp_ri = 1, tp_ci = 1, tp_len = 1, tp_src = [97]\<rparr>] [97, 98]))"
  using reconcile_survivors
    [of "[\<lparr>tp_name = [], tp_si = 4, tp_ri = 1, tp_ci = 1, tp_len = 1, tp_src = [97]\<rparr>]" "[97, 98]"]
  by (simp add: usize_max_def)

text \<open>
  Anchoring puts a token on its text and is done after one move. A moved token keeps
  its name, source and length, ends where it was reported, has its text at its new place,
  and is not moved again.
\<close>

theorem anchor_on_text:
  assumes "anchor event source = Some t" "tp_si event \<le> usize_max"
  shows "slice source (tp_si t) (tp_si t + tp_len t) = Some (tp_src t) \<and>
    tp_si t + tp_len t = tp_si event \<and> tp_name t = tp_name event \<and> tp_src t = tp_src event \<and>
    slice source (tp_si event) (tp_si event + tp_len event) \<noteq> Some (tp_src event) \<and>
    anchor t source = None"
proof -
  note parts = anchor_parts [OF assms(1)]
  have "slice source (tp_si event) (tp_si event + tp_len event) \<noteq> Some (tp_src event)"
    using assms(1) by (auto simp: anchor_def Let_def checked_add_def split: if_splits Option.bind_splits)
  moreover have at: "slice source (tp_si t) (tp_si t + tp_len t) = Some (tp_src t)"
    using parts by simp
  moreover have "anchor t source = None"
    using at parts assms(2) by (auto simp: anchor_def Let_def checked_add_def)
  ultimately show ?thesis using parts by simp
qed

theorem anchor_on_text_witness:
  "anchor \<lparr>tp_name = [], tp_si = 2, tp_ri = 1, tp_ci = 3, tp_len = 2, tp_src = [97, 98]\<rparr> [97, 98, 32] =
     Some \<lparr>tp_name = [], tp_si = 0, tp_ri = 1, tp_ci = 1, tp_len = 2, tp_src = [97, 98]\<rparr> \<and>
   anchor \<lparr>tp_name = [], tp_si = 0, tp_ri = 1, tp_ci = 1, tp_len = 2, tp_src = [97, 98]\<rparr> [97, 98, 32] = None"
proof -
  have moved: "anchor \<lparr>tp_name = [], tp_si = 2, tp_ri = 1, tp_ci = 3, tp_len = 2, tp_src = [97, 98]\<rparr> [97, 98, 32] =
     Some \<lparr>tp_name = [], tp_si = 0, tp_ri = 1, tp_ci = 1, tp_len = 2, tp_src = [97, 98]\<rparr>"
    by code_simp
  show ?thesis using moved anchor_on_text [OF moved] by (simp add: usize_max_def)
qed

end
