(* ===== verification/Semantic.thy ===== *)
theory Semantic
  imports Trace
begin

text \<open>
  Semantic tokens (\<open>rs/src/semantic.rs\<close>): the legend and the tables that map engine token
  names onto it, the two forward cursors that measure a token's column, the emitter of
  line-local segments and the delta encoding of the wire. The cursors are an instance of
  \<open>stateful_query\<close>: whatever is asked, in whatever order, the answer is the one of walking
  back from the token.
\<close>

section \<open>The legend\<close>

datatype token_type =
  TString | TNumber | TComment | TKeyword | TOperator | TVariable | TMacro | TType | TProperty

definition legend :: "token_type list" where
  "legend = [TString, TNumber, TComment, TKeyword, TOperator, TVariable, TMacro, TType, TProperty]"

fun type_name :: "token_type \<Rightarrow> rstr" where
  "type_name TString = str ''string''"
| "type_name TNumber = str ''number''"
| "type_name TComment = str ''comment''"
| "type_name TKeyword = str ''keyword''"
| "type_name TOperator = str ''operator''"
| "type_name TVariable = str ''variable''"
| "type_name TMacro = str ''macro''"
| "type_name TType = str ''type''"
| "type_name TProperty = str ''property''"

text \<open>The discriminant: the declaration order.\<close>

fun type_index :: "token_type \<Rightarrow> u32" where
  "type_index TString = 0"
| "type_index TNumber = 1"
| "type_index TComment = 2"
| "type_index TKeyword = 3"
| "type_index TOperator = 4"
| "type_index TVariable = 5"
| "type_index TMacro = 6"
| "type_index TType = 7"
| "type_index TProperty = 8"

definition type_from_name :: "rstr \<Rightarrow> token_type option" where
  "type_from_name name = find (\<lambda>k. type_name k = name) legend"

definition type_from_index :: "u32 \<Rightarrow> token_type option" where
  "type_from_index i = index legend (unat i)"

section \<open>Token names to types\<close>

definition default_token_types :: "(rstr \<times> token_type) list" where
  "default_token_types =
    [(str ''#ST'', TString), (str ''#NR'', TNumber), (str ''#CM'', TComment),
     (str ''#VL'', TKeyword), (str ''#TX'', TString), (str ''#OB'', TOperator),
     (str ''#CB'', TOperator), (str ''#OS'', TOperator), (str ''#CS'', TOperator),
     (str ''#CL'', TOperator), (str ''#CA'', TOperator)]"

definition prefix_types :: "(rstr \<times> token_type) list" where
  "prefix_types =
    [(str ''KW_'', TKeyword), (str ''LIT_'', TString), (str ''TRIVIA_'', TComment),
     (str ''PP_'', TMacro), (str ''PUNC_'', TOperator)]"

definition default_token_type :: "rstr \<Rightarrow> token_type option" where
  "default_token_type name = map_option snd (find (\<lambda>(canon, k). canon = name) default_token_types)"

definition prefix_token_type :: "rstr \<Rightarrow> token_type option" where
  "prefix_token_type name =
     (case find (\<lambda>(pre, k). starts_with name pre) prefix_types of
        Some (pre, k) \<Rightarrow> Some k
      | None \<Rightarrow>
          if name = str ''#KW'' then Some TKeyword
          else if name = str ''ID'' \<or> name = str ''#ID'' then Some TVariable
          else None)"

definition token_type_name :: "rstr \<Rightarrow> overrides option \<Rightarrow> rstr option" where
  "token_type_name name ov =
     (let fallback = map_option type_name
            (case default_token_type name of Some k \<Rightarrow> Some k | None \<Rightarrow> prefix_token_type name)
      in case Option.bind ov (\<lambda>m. m name) of
           Some kind \<Rightarrow> if kind \<noteq> [] then Some kind else fallback
         | None \<Rightarrow> fallback)"

definition token_type_of :: "rstr \<Rightarrow> overrides option \<Rightarrow> token_type option" where
  "token_type_of name ov = Option.bind (token_type_name name ov) type_from_name"

section \<open>Tokens and segments\<close>

record semantic_token =
  st_row :: nat
  st_col :: nat
  st_len :: nat
  st_col_chars :: nat
  st_len_chars :: nat
  st_kind :: token_type

record segment =
  sg_row :: nat
  sg_col :: nat
  sg_len :: nat
  sg_col_chars :: nat
  sg_len_chars :: nat
  sg_start :: nat
  sg_end :: nat
  sg_kind :: token_type

definition segment_token :: "segment \<Rightarrow> semantic_token" where
  "segment_token s = \<lparr>st_row = sg_row s, st_col = sg_col s, st_len = sg_len s,
     st_col_chars = sg_col_chars s, st_len_chars = sg_len_chars s, st_kind = sg_kind s\<rparr>"

section \<open>Columns\<close>

record cursor =
  cu_byte :: nat
  cu_chars :: nat
  cu_units :: nat

definition cursor_default :: cursor where
  "cursor_default = \<lparr>cu_byte = 0, cu_chars = 0, cu_units = 0\<rparr>"

text \<open>The slice of the text that is passed panics (\<open>None\<close>) off a boundary.\<close>

definition advance_to :: "cursor \<Rightarrow> rstr \<Rightarrow> nat \<Rightarrow> cursor option" where
  "advance_to cur txt0 byte = do {
     passed \<leftarrow> slice txt0 (cu_byte cur) byte;
     Some ((foldl (\<lambda>k c. k\<lparr>cu_chars := cu_chars k + 1, cu_units := cu_units k + len_utf16 c\<rparr>) cur passed)
             \<lparr>cu_byte := byte\<rparr>)
   }"

fun advance_walk :: "nat \<Rightarrow> cursor \<Rightarrow> rstr \<Rightarrow> cursor" where
  "advance_walk chars cur [] = cur"
| "advance_walk chars cur (c # rest) =
     (if cu_chars cur < chars
      then advance_walk chars \<lparr>cu_byte = cu_byte cur + len_utf8 c, cu_chars = cu_chars cur + 1,
             cu_units = cu_units cur + len_utf16 c\<rparr> rest
      else cur)"

definition advance_chars :: "cursor \<Rightarrow> rstr \<Rightarrow> nat \<Rightarrow> cursor option" where
  "advance_chars cur txt0 chars = do {
     rest \<leftarrow> slice_from txt0 (cu_byte cur);
     Some (advance_walk chars cur rest)
   }"

record columns =
  sc_text :: rstr
  sc_at :: cursor
  sc_from :: cursor

definition columns_new :: "rstr \<Rightarrow> columns" where
  "columns_new s = \<lparr>sc_text = s, sc_at = cursor_default, sc_from = cursor_default\<rparr>"

definition boundary_at_or_before :: "rstr \<Rightarrow> nat \<Rightarrow> nat" where
  "boundary_at_or_before s si = floor_boundary s (min si (byte_len s))"

definition walk_back :: "rstr \<Rightarrow> nat \<Rightarrow> nat \<Rightarrow> (nat \<times> nat) option" where
  "walk_back s si want = do {
     before \<leftarrow> slice_to s si;
     Some (foldl (\<lambda>(units, chars) c. (units + len_utf16 c, chars + 1)) (0, 0) (take want (rev before)))
   }"

definition columns_column :: "columns \<Rightarrow> nat \<times> nat \<Rightarrow> (nat \<times> nat) option \<times> columns" where
  "columns_column cols q = (case q of (si0, ci) \<Rightarrow>
     let si = boundary_at_or_before (sc_text cols) si0; want = ci - 1 in
     if si < cu_byte (sc_at cols) then (walk_back (sc_text cols) si want, cols)
     else case advance_to (sc_at cols) (sc_text cols) si of
       None \<Rightarrow> (None, cols)
     | Some at \<Rightarrow>
         let cols = cols\<lparr>sc_at := at\<rparr>; start = cu_chars at - want in
         if start < cu_chars (sc_from cols) then (walk_back (sc_text cols) si want, cols)
         else case advance_chars (sc_from cols) (sc_text cols) start of
           None \<Rightarrow> (None, cols)
         | Some from \<Rightarrow>
             (do { units \<leftarrow> checked_sub (cu_units at) (cu_units from);
                   chars \<leftarrow> checked_sub (cu_chars at) (cu_chars from);
                   Some (units, chars) },
              cols\<lparr>sc_from := from\<rparr>))"

section \<open>The emitter\<close>

record emitter =
  em_out :: "segment list"
  em_prev_row :: nat
  em_prev_col :: nat

definition emitter_new :: emitter where
  "emitter_new = \<lparr>em_out = [], em_prev_row = 0, em_prev_col = 0\<rparr>"

definition emit :: "emitter \<Rightarrow> segment \<Rightarrow> emitter" where
  "emit em seg =
     (if sg_len seg < 1 then em
      else if sg_row seg < em_prev_row em \<or>
              (sg_row seg = em_prev_row em \<and> sg_col seg < em_prev_col em) then em
      else \<lparr>em_out = em_out em @ [seg], em_prev_row = sg_row seg, em_prev_col = sg_col seg\<rparr>)"

text \<open>The lines of a token that spans lines: the index, the running offset and the parts left.\<close>

fun emit_parts ::
  "nat \<Rightarrow> nat \<Rightarrow> nat \<Rightarrow> nat \<Rightarrow> token_type \<Rightarrow> nat \<Rightarrow> nat \<Rightarrow> rstr list \<Rightarrow> emitter \<Rightarrow> emitter" where
  "emit_parts size_all row col col_chars kind i offset [] em = em"
| "emit_parts size_all row col col_chars kind i offset (part # parts) em =
     (let seg = strip_last 13 part in
      emit_parts size_all row col col_chars kind (i + 1)
        (min (usat_add offset (byte_len part + 1)) size_all) parts
        (emit em \<lparr>sg_row = usat_add row i, sg_col = (if i = 0 then col else 0),
           sg_len = utf16_len seg, sg_col_chars = (if i = 0 then col_chars else 0),
           sg_len_chars = length seg, sg_start = offset,
           sg_end = min (usat_add offset (byte_len seg)) size_all, sg_kind = kind\<rparr>))"

definition emit_token :: "rstr \<Rightarrow> emitter \<Rightarrow> token_point \<Rightarrow> token_type \<Rightarrow> nat \<times> nat \<Rightarrow> emitter" where
  "emit_token s em token kind cc = (case cc of (col, col_chars) \<Rightarrow>
     let row = tp_ri token - 1 in
     if list_ex (\<lambda>c. c = 10) (tp_src token) then
       emit_parts (byte_len s) row col col_chars kind 0 (min (tp_si token) (byte_len s))
         (split_char 10 (tp_src token)) em
     else
       let fin = min (usat_add (tp_si token) (tp_span token)) (byte_len s) in
       emit em \<lparr>sg_row = row, sg_col = col, sg_len = max (utf16_len (tp_src token)) 1,
         sg_col_chars = col_chars, sg_len_chars = max (length (tp_src token)) 1,
         sg_start = min (tp_si token) fin, sg_end = fin, sg_kind = kind\<rparr>)"

fun segments_loop ::
  "overrides option \<Rightarrow> rstr \<Rightarrow> columns \<Rightarrow> emitter \<Rightarrow> token_point list \<Rightarrow> emitter option" where
  "segments_loop ov s cols em [] = Some em"
| "segments_loop ov s cols em (token # tokens) =
     (case token_type_of (tp_name token) ov of
        None \<Rightarrow> segments_loop ov s cols em tokens
      | Some kind \<Rightarrow>
          (case columns_column cols (tp_si token, tp_ci token) of
             (None, cols) \<Rightarrow> None
           | (Some cc, cols) \<Rightarrow> segments_loop ov s cols (emit_token s em token kind cc) tokens))"

definition segments :: "token_point list \<Rightarrow> overrides option \<Rightarrow> rstr \<Rightarrow> segment list option" where
  "segments reconciled ov s =
     map_option em_out (segments_loop ov s (columns_new s) emitter_new reconciled)"

definition semantic_tokens_reconciled ::
  "token_point list \<Rightarrow> overrides option \<Rightarrow> rstr \<Rightarrow> semantic_token list option" where
  "semantic_tokens_reconciled reconciled ov s = map_option (map segment_token) (segments reconciled ov s)"

definition semantic_tokens ::
  "token_point list \<Rightarrow> overrides option \<Rightarrow> rstr \<Rightarrow> semantic_token list option" where
  "semantic_tokens events ov s = semantic_tokens_reconciled (reconcile_in events s) ov s"

section \<open>The wire form\<close>

definition try_u32 :: "nat \<Rightarrow> u32 option" where
  "try_u32 n = (if n \<le> u32_max then Some (of_nat n) else None)"

fun encode_loop :: "nat \<Rightarrow> nat \<Rightarrow> semantic_token list \<Rightarrow> u32 list" where
  "encode_loop prev_row prev_col [] = []"
| "encode_loop prev_row prev_col (t # ts) =
     (if st_len t < 1 \<or> st_row t < prev_row \<or> (st_row t = prev_row \<and> st_col t < prev_col)
      then encode_loop prev_row prev_col ts
      else
        let d_row = st_row t - prev_row;
            d_col = (if d_row = 0 then st_col t - prev_col else st_col t)
        in case (try_u32 d_row, try_u32 d_col, try_u32 (st_len t)) of
             (Some dr, Some dc, Some len) \<Rightarrow>
               [dr, dc, len, type_index (st_kind t), 0] @ encode_loop (st_row t) (st_col t) ts
           | _ \<Rightarrow> encode_loop prev_row prev_col ts)"

definition encode :: "semantic_token list \<Rightarrow> u32 list" where
  "encode tokens = encode_loop 0 0 tokens"

definition semantic_tokens_data :: "token_point list \<Rightarrow> overrides option \<Rightarrow> rstr \<Rightarrow> u32 list option" where
  "semantic_tokens_data events ov s = map_option encode (semantic_tokens events ov s)"

section \<open>The tables\<close>

lemma type_from_name_Some: "type_from_name n = Some k \<longleftrightarrow> type_name k = n"
  by (cases k) (auto simp: type_from_name_def legend_def)

lemma type_from_index_Some: "type_from_index i = Some k \<longleftrightarrow> i = type_index k"
proof -
  have "unat i < 9 \<Longrightarrow> i \<in> {0, 1, 2, 3, 4, 5, 6, 7, 8}"
  proof -
    assume "unat i < 9"
    then have "unat i \<in> set [0..<9]" by simp
    then have "word_of_nat (unat i) \<in> (word_of_nat :: nat \<Rightarrow> u32) ` set [0..<9]" by blast
    then show ?thesis by (simp add: upt_rec)
  qed
  moreover have "type_from_index i = Some k \<Longrightarrow> unat i < 9"
    by (simp add: type_from_index_def index_Some_iff legend_def)
  moreover have "\<forall>j\<in>{0, 1, 2, 3, 4, 5, 6, 7, 8}. type_from_index j = Some k \<longleftrightarrow> j = type_index k"
    by (cases k) (simp_all add: type_from_index_def legend_def)
  moreover have "type_index k \<in> {0, 1, 2, 3, 4, 5, 6, 7, 8}" by (cases k) simp_all
  ultimately show ?thesis by metis
qed

lemma type_name_read: "Option.bind (map_option type_name x) type_from_name = x"
  by (cases x) (auto simp: type_from_name_Some)

lemma find_map_of: "map_option snd (find (\<lambda>(a, b). a = n) xs) = map_of xs n"
  by (induction xs) auto

lemma default_token_type_Some: "default_token_type n = Some k \<longleftrightarrow> (n, k) \<in> set default_token_types"
  unfolding default_token_type_def find_map_of
  by (rule map_of_eq_Some_iff) (simp add: default_token_types_def)

lemma find_unique:
  "(\<And>y. y \<in> set xs \<Longrightarrow> P y \<Longrightarrow> P x \<Longrightarrow> x \<in> set xs \<Longrightarrow> x = y) \<Longrightarrow>
    find P xs = Some x \<longleftrightarrow> x \<in> set xs \<and> P x"
  by (induction xs) auto

lemma starts_with_prefix: "starts_with n p \<longleftrightarrow> prefix p n"
  by (auto simp: starts_with_iff prefix_def)

lemma prefix_types_apart:
  assumes "(p, k) \<in> set prefix_types" "(q, k') \<in> set prefix_types" "starts_with n p" "starts_with n q"
  shows "(p, k) = (q, k')"
proof -
  have "list_all (\<lambda>(p, k). list_all (\<lambda>(q, k'). (prefix p q \<or> prefix q p) \<longrightarrow> (p, k) = (q, k')) prefix_types)
      prefix_types"
    by code_simp
  moreover have "prefix p q \<or> prefix q p"
    using assms(3,4) prefix_same_cases by (auto simp: starts_with_prefix)
  ultimately show ?thesis using assms(1,2) by (fastforce simp: list_all_iff)
qed

lemma find_prefix:
  "find (\<lambda>(pre, k). starts_with n pre) prefix_types = Some (p, k) \<longleftrightarrow>
    (p, k) \<in> set prefix_types \<and> starts_with n p"
  using prefix_types_apart by (subst find_unique) auto

lemma whole_names:
  "prefix_token_type (str ''#KW'') = Some TKeyword" "prefix_token_type (str ''ID'') = Some TVariable"
  "prefix_token_type (str ''#ID'') = Some TVariable"
  by code_simp+

lemma prefix_token_type_Some:
  "prefix_token_type n = Some k \<longleftrightarrow>
    (\<exists>p. (p, k) \<in> set prefix_types \<and> starts_with n p) \<or>
    (n = str ''#KW'' \<and> k = TKeyword) \<or> (n \<in> {str ''ID'', str ''#ID''} \<and> k = TVariable)"
proof (cases "n \<in> {str ''#KW'', str ''ID'', str ''#ID''}")
  case True
  have "list_all (\<lambda>(p, k). list_all (\<lambda>n. \<not> starts_with n p) [str ''#KW'', str ''ID'', str ''#ID'']) prefix_types"
    by code_simp
  then have "\<forall>(p, k)\<in>set prefix_types. \<not> starts_with n p"
    using True by (auto simp: list_all_iff)
  then show ?thesis using True whole_names by auto
next
  case False
  then show ?thesis
    using find_prefix [of n] prefix_types_apart
    by (auto simp: prefix_token_type_def split: option.splits)
qed

lemma default_not_prefix:
  assumes "(n, k) \<in> set default_token_types" shows "prefix_token_type n = None"
proof -
  have "list_all (\<lambda>(n, k). prefix_token_type n = None) default_token_types" by code_simp
  with assms show ?thesis by (auto simp: list_all_iff)
qed

section \<open>The cursors\<close>

text \<open>The cursor after a piece of text.\<close>

definition cursor_after :: "rstr \<Rightarrow> cursor" where
  "cursor_after a = \<lparr>cu_byte = byte_len a, cu_chars = length a, cu_units = utf16_len a\<rparr>"

lemma cursor_after_simps [simp]:
  "cu_byte (cursor_after a) = byte_len a" "cu_chars (cursor_after a) = length a"
  "cu_units (cursor_after a) = utf16_len a" "cursor_after [] = cursor_default"
  by (simp_all add: cursor_after_def cursor_default_def)

definition columns_good :: "rstr \<Rightarrow> columns \<Rightarrow> bool" where
  "columns_good s cols \<longleftrightarrow> sc_text cols = s \<and>
     (\<exists>a f. prefix a s \<and> prefix f a \<and> sc_at cols = cursor_after a \<and> sc_from cols = cursor_after f)"

definition columns_answer :: "rstr \<Rightarrow> nat \<times> nat \<Rightarrow> (nat \<times> nat) option" where
  "columns_answer s q = walk_back s (boundary_at_or_before s (fst q)) (snd q - 1)"

lemma prefix_byte_le:
  "prefix (a :: rstr) s \<Longrightarrow> prefix b s \<Longrightarrow> byte_len a \<le> byte_len b \<Longrightarrow> prefix a b"
proof -
  assume ab: "prefix a s" "prefix b s" "byte_len a \<le> byte_len b"
  consider "prefix a b" | z where "a = b @ z"
    using prefix_same_cases [OF ab(1,2)] by (auto elim: prefixE)
  then show "prefix a b"
  proof cases
    case 2
    with ab(3) have "z = []" by simp
    with 2 show ?thesis by simp
  qed
qed

lemma prefix_length_le_iff:
  "prefix (a :: rstr) s \<Longrightarrow> prefix b s \<Longrightarrow> length a \<le> length b \<Longrightarrow> prefix a b"
  by (rule prefix_length_prefix)

lemma boundary_split:
  obtains a b where "s = a @ b" "boundary_at_or_before s k = byte_len a"
  using clamp_boundary_split [of s k] unfolding boundary_at_or_before_def clamp_boundary_def by blast

lemma advance_fold:
  "(foldl (\<lambda>k c. k\<lparr>cu_chars := cu_chars k + 1, cu_units := cu_units k + len_utf16 c\<rparr>) cur x)
     \<lparr>cu_byte := b\<rparr> =
   \<lparr>cu_byte = b, cu_chars = cu_chars cur + length x, cu_units = cu_units cur + utf16_len x\<rparr>"
  by (induction x arbitrary: cur) simp_all

lemma advance_to_after:
  assumes "prefix a b" "prefix b s"
  shows "advance_to (cursor_after a) s (byte_len b) = Some (cursor_after b)"
proof -
  from assms obtain x y where b: "b = a @ x" "s = a @ x @ y" by (auto elim!: prefixE)
  then have "slice s (byte_len a) (byte_len b) = Some x" by (auto simp: slice_Some)
  then show ?thesis by (simp add: advance_to_def advance_fold [simplified] cursor_after_def b)
qed

lemma advance_walk_after:
  "length f \<le> n \<Longrightarrow> n \<le> length (f @ r) \<Longrightarrow>
    advance_walk n (cursor_after f) r = cursor_after (take n (f @ r))"
proof (induction r arbitrary: f)
  case Nil
  then show ?case by simp
next
  case (Cons c r)
  show ?case
  proof (cases "length f < n")
    case True
    then have "advance_walk n (cursor_after f) (c # r) = advance_walk n (cursor_after (f @ [c])) r"
      by (simp add: cursor_after_def)
    with Cons.IH [of "f @ [c]"] Cons.prems True show ?thesis by simp
  next
    case False
    with Cons.prems show ?thesis by simp
  qed
qed

lemma advance_chars_after:
  assumes "prefix f s" "length f \<le> n" "n \<le> length s"
  shows "advance_chars (cursor_after f) s n = Some (cursor_after (take n s))"
  using assms advance_walk_after [of f n] by (auto simp: advance_chars_def elim!: prefixE)

lemma walk_fold:
  "foldl (\<lambda>(u, n) c. (u + len_utf16 c, n + 1)) (u0, n0) x = (u0 + utf16_len x, n0 + length x)"
  by (induction x arbitrary: u0 n0) simp_all

lemma utf16_len_rev [simp]: "utf16_len (rev x) = utf16_len x"
  by (simp add: utf16_len_def rev_map [symmetric] sum_list_rev)

lemma walk_back_prefix:
  "walk_back (a @ b) (byte_len a) n =
    Some (utf16_len (drop (length a - n) a), length (drop (length a - n) a))"
proof -
  have "take n (rev a) = rev (drop (length a - n) a)" by (simp add: take_rev)
  then show ?thesis by (simp add: walk_back_def walk_fold [simplified])
qed

lemma columns_goodI:
  "sc_text cols = s \<Longrightarrow> sc_at cols = cursor_after a \<Longrightarrow> sc_from cols = cursor_after f \<Longrightarrow>
    prefix a s \<Longrightarrow> prefix f a \<Longrightarrow> columns_good s cols"
  unfolding columns_good_def by blast

lemma columns_column_good:
  assumes "columns_good s cols"
  shows "fst (columns_column cols q) = columns_answer s q \<and>
    columns_good s (snd (columns_column cols q))"
proof -
  obtain si ci where q: "q = (si, ci)" by force
  obtain a f where af: "prefix a s" "prefix f a" "sc_text cols = s"
    "sc_at cols = cursor_after a" "sc_from cols = cursor_after f"
    using assms by (auto simp: columns_good_def)
  obtain b r where b: "s = b @ r" "boundary_at_or_before s si = byte_len b"
    by (rule boundary_split)
  have ans: "columns_answer s (si, ci) = walk_back s (byte_len b) (ci - Suc 0)"
    by (simp add: columns_answer_def b(2))
  show ?thesis
  proof (cases "byte_len b < byte_len a")
    case True
    then show ?thesis using assms af b(2) by (simp add: columns_column_def q Let_def ans)
  next
    case False
    have ab: "prefix a b" by (rule prefix_byte_le [of a s b]) (use af b False in auto)
    have at: "advance_to (cursor_after a) s (byte_len b) = Some (cursor_after b)"
      by (rule advance_to_after [OF ab]) (simp add: b(1))
    have fb: "prefix f b" using af(2) ab by (rule prefix_order.trans)
    let ?n = "length b - (ci - 1)"
    show ?thesis
    proof (cases "?n < length f")
      case True
      moreover have "columns_good s (cols\<lparr>sc_at := cursor_after b\<rparr>)"
        by (rule columns_goodI [of _ _ b f]) (use af b fb in simp_all)
      ultimately show ?thesis using af b(2) False at
        by (simp add: columns_column_def q Let_def ans)
    next
      case nf: False
      have fr: "advance_chars (cursor_after f) s ?n = Some (cursor_after (take ?n b))"
        using advance_chars_after [of f s ?n] nf af b by (auto intro: prefix_order.trans)
      have "b = take ?n b @ drop ?n b" by simp
      then have u: "utf16_len b = utf16_len (take ?n b) + utf16_len (drop ?n b)"
        by (metis utf16_len_append)
      have "columns_good s (cols\<lparr>sc_at := cursor_after b, sc_from := cursor_after (take ?n b)\<rparr>)"
        by (rule columns_goodI [of _ _ b "take ?n b"]) (use af b in \<open>simp_all add: take_is_prefix\<close>)
      then show ?thesis using af b(2) False at nf fr u walk_back_prefix [of b r "ci - Suc 0"]
        by (simp add: columns_column_def q Let_def ans checked_sub_def b(1) [symmetric])
    qed
  qed
qed

lemma columns_good_new: "columns_good s (columns_new s)"
  unfolding columns_good_def columns_new_def
  by (simp, rule exI [of _ "[]"]) (simp add: cursor_after_def cursor_default_def)

interpretation token_columns: stateful_query columns_column "columns_good s" "columns_answer s" for s
  by unfold_locales (use columns_column_good in blast)+

lemma columns_answer_Some: "\<exists>cc. columns_answer s q = Some cc"
proof -
  obtain b r where b: "s = b @ r" "boundary_at_or_before s (fst q) = byte_len b"
    by (rule boundary_split)
  show ?thesis using walk_back_prefix [of b r "snd q - 1"] by (simp add: columns_answer_def b(2) b(1) [symmetric])
qed

text \<open>The loop of \<open>segments\<close> with every column answered directly.\<close>

lemma segments_loop_step:
  assumes "columns_good s cols"
  obtains cc cols' where "columns_column cols q = (Some cc, cols')" "columns_good s cols'"
    "columns_answer s q = Some cc"
  using columns_column_good [OF assms, of q] columns_answer_Some [of s q] that
  by (metis prod.collapse)

section \<open>Emitted segments\<close>

definition seg_le :: "segment \<Rightarrow> segment \<Rightarrow> bool" where
  "seg_le a b \<longleftrightarrow> sg_row a < sg_row b \<or> (sg_row a = sg_row b \<and> sg_col a \<le> sg_col b)"

definition emitter_ok :: "(segment \<Rightarrow> bool) \<Rightarrow> emitter \<Rightarrow> bool" where
  "emitter_ok P em \<longleftrightarrow> sorted_wrt seg_le (em_out em) \<and> (\<forall>g\<in>set (em_out em). 1 \<le> sg_len g \<and> P g) \<and>
     (\<forall>g\<in>set (em_out em). sg_row g < em_prev_row em \<or>
        (sg_row g = em_prev_row em \<and> sg_col g \<le> em_prev_col em))"

lemma emitter_ok_new [simp]: "emitter_ok P emitter_new"
  by (simp add: emitter_ok_def emitter_new_def)

lemma emit_ok [step_intros]: "emitter_ok P em \<Longrightarrow> P g \<or> sg_len g < 1 \<Longrightarrow> emitter_ok P (emit em g)"
  by (force simp: emitter_ok_def emit_def seg_le_def sorted_wrt_append)

lemma emit_parts_ok:
  assumes "emitter_ok P em" "offset \<le> size_all" "size_all \<le> usize_max"
    and "\<And>rows cols cc off part. \<lbrakk>part \<in> set parts; off \<le> size_all\<rbrakk> \<Longrightarrow>
      P \<lparr>sg_row = rows, sg_col = cols, sg_len = utf16_len (strip_last 13 part), sg_col_chars = cc,
         sg_len_chars = length (strip_last 13 part), sg_start = off,
         sg_end = min (usat_add off (byte_len (strip_last 13 part))) size_all, sg_kind = kind\<rparr>"
  shows "emitter_ok P (emit_parts size_all row col col_chars kind i offset parts em)"
  using assms(1,2,4)
proof (induction parts arbitrary: i offset em)
  case (Cons part parts)
  show ?case
    unfolding emit_parts.simps Let_def
    by (rule Cons.IH) (use Cons.prems in \<open>auto intro!: emit_ok\<close>)
qed simp

lemma segments_loop_ok:
  assumes "columns_good s cols" "emitter_ok P em"
    and "\<And>token kind cc em. token \<in> set tokens \<Longrightarrow> emitter_ok P em \<Longrightarrow>
      emitter_ok P (emit_token s em token kind cc)"
  shows "\<exists>em'. segments_loop ov s cols em tokens = Some em' \<and> emitter_ok P em'"
  using assms
proof (induction tokens arbitrary: cols em)
  case Nil
  then show ?case by simp
next
  case (Cons token tokens)
  show ?case
  proof (cases "token_type_of (tp_name token) ov")
    case None
    with Cons show ?thesis by simp
  next
    case (Some kind)
    obtain cc cols' where cc: "columns_column cols (tp_si token, tp_ci token) = (Some cc, cols')"
      "columns_good s cols'"
      by (rule segments_loop_step [OF Cons.prems(1)])
    have "emitter_ok P (emit_token s em token kind cc)" using Cons.prems by simp
    with Cons.IH [OF cc(2)] Cons.prems(3) Some cc(1) show ?thesis by simp
  qed
qed

lemma segments_ok:
  assumes "\<And>token kind cc em. token \<in> set tokens \<Longrightarrow> emitter_ok P em \<Longrightarrow>
      emitter_ok P (emit_token s em token kind cc)"
  shows "\<exists>out. segments tokens ov s = Some out \<and> sorted_wrt seg_le out \<and>
    (\<forall>g\<in>set out. 1 \<le> sg_len g \<and> P g)"
  using segments_loop_ok [OF columns_good_new emitter_ok_new assms, of tokens ov]
  by (auto simp: segments_def emitter_ok_def)

text \<open>What a segment of a token that lies on the text covers: one line of it.\<close>

definition seg_text :: "rstr \<Rightarrow> segment \<Rightarrow> bool" where
  "seg_text s g \<longleftrightarrow> (\<exists>p. slice s (sg_start g) (sg_end g) = Some p \<and> 10 \<notin> set p \<and>
     utf16_len p = sg_len g \<and> length p = sg_len_chars g)"

definition on_text :: "rstr \<Rightarrow> token_point \<Rightarrow> bool" where
  "on_text s t \<longleftrightarrow> tp_src t \<noteq> [] \<and> tp_len t = byte_len (tp_src t) \<and>
     slice s (tp_si t) (tp_si t + tp_len t) = Some (tp_src t)"

definition in_bounds :: "rstr \<Rightarrow> segment \<Rightarrow> bool" where
  "in_bounds s g \<longleftrightarrow> sg_start g \<le> sg_end g \<and> sg_end g \<le> byte_len s"

lemma split_char_cases:
  obtains "split_char c p = [p]" "c \<notin> set p"
  | q r where "p = q @ c # r" "c \<notin> set q" "split_char c p = q # split_char c r"
proof (cases "c \<in> set p")
  case True
  then obtain q r where "p = q @ c # r" "c \<notin> set q" by (meson split_list_first)
  with that(2) show ?thesis by (simp add: split_char_append)
next
  case False
  with that(1) show ?thesis by (simp add: split_char_none)
qed

lemma strip_last_split: "\<exists>cr. s = strip_last c s @ cr"
proof (cases "s \<noteq> [] \<and> last s = c")
  case True
  then have "s = strip_last c s @ [c]" by (auto simp: strip_last_def)
  then show ?thesis by blast
next
  case False
  then have "strip_last c s = s" by (auto simp: strip_last_def)
  then show ?thesis by simp
qed

lemma seg_text_part:
  assumes "s = a @ part @ r" "10 \<notin> set part" "byte_len s \<le> usize_max"
  shows "seg_text s \<lparr>sg_row = rows, sg_col = cl, sg_len = utf16_len (strip_last 13 part),
    sg_col_chars = cc, sg_len_chars = length (strip_last 13 part), sg_start = byte_len a,
    sg_end = min (usat_add (byte_len a) (byte_len (strip_last 13 part))) (byte_len s),
    sg_kind = kind\<rparr>"
proof -
  obtain cr where cr: "part = strip_last 13 part @ cr" using strip_last_split by blast
  then have "10 \<notin> set (strip_last 13 part)" using assms(2) by (metis Un_iff set_append)
  moreover have le: "byte_len a + byte_len (strip_last 13 part) \<le> byte_len s"
    using arg_cong [OF cr, of byte_len] assms(1) by simp
  moreover have "slice s (byte_len a) (byte_len a + byte_len (strip_last 13 part)) =
      Some (strip_last 13 part)"
    unfolding slice_Some using cr assms(1)
    by (intro exI [of _ a] exI [of _ "cr @ r"]) (metis append.assoc)
  ultimately show ?thesis
    using assms(3) by (simp add: seg_text_def usat_add_exact)
qed

lemma emit_parts_text:
  assumes "s = a @ p @ r" "byte_len s \<le> usize_max" "emitter_ok (seg_text s) em"
  shows "emitter_ok (seg_text s)
    (emit_parts (byte_len s) row col cc kind i (byte_len a) (split_char 10 p) em)"
  using assms(1,3)
proof (induction "length p" arbitrary: a p i em rule: less_induct)
  case less
  consider "split_char 10 p = [p]" "10 \<notin> set p"
    | q t where "p = q @ 10 # t" "10 \<notin> set q" "split_char 10 p = q # split_char 10 t"
    using split_char_cases [of 10 p] by metis
  then show ?case
  proof cases
    case 1
    show ?thesis
      unfolding 1(1) emit_parts.simps Let_def
      by (rule emit_ok [OF less.prems(2)]) (simp add: seg_text_part [OF less.prems(1) 1(2) assms(2)])
  next
    case 2
    have s: "s = a @ q @ (10 # t @ r)" "s = (a @ q @ [10]) @ t @ r"
      using less.prems(1) 2(1) by simp_all
    have "min (usat_add (byte_len a) (byte_len q + 1)) (byte_len s) = byte_len (a @ q @ [10])"
      using assms(2) unfolding s(2) by (simp add: usat_add_def len_utf8_def)
    moreover have "length t < length p" using 2(1) by simp
    ultimately show ?thesis
      unfolding 2(3) emit_parts.simps Let_def
      using less.hyps [OF _ s(2) emit_ok [OF less.prems(2)]] seg_text_part [OF s(1) 2(2) assms(2)]
      by simp
  qed
qed

lemma emit_token_text:
  assumes "on_text s t" "byte_len s \<le> usize_max" "emitter_ok (seg_text s) em"
  shows "emitter_ok (seg_text s) (emit_token s em t kind cc)"
proof -
  obtain col cch where cc: "cc = (col, cch)" by force
  obtain a r where s: "s = a @ tp_src t @ r" "byte_len a = tp_si t"
    using assms(1) by (auto simp: on_text_def slice_Some)
  then have le: "tp_si t + byte_len (tp_src t) \<le> byte_len s" by (metis add.assoc byte_len_append le_add1)
  show ?thesis
  proof (cases "10 \<in> set (tp_src t)")
    case True
    then show ?thesis
      using emit_parts_text [OF s(1) assms(2,3)] s(2) le
      by (simp add: emit_token_def cc Let_def list_ex_iff min_absorb1)
  next
    case False
    have "1 \<le> utf16_len (tp_src t)" "1 \<le> length (tp_src t)" "1 \<le> byte_len (tp_src t)"
      using assms(1) by (cases "tp_src t"; auto simp: on_text_def len_utf16_def len_utf8_def)+
    moreover have "slice s (tp_si t) (tp_si t + byte_len (tp_src t)) = Some (tp_src t)"
      using assms(1) unfolding on_text_def by metis
    ultimately show ?thesis using False le assms
      by (auto simp: emit_token_def cc Let_def list_ex_iff tp_span_def on_text_def seg_text_def
          usat_add_exact max_absorb1 min_absorb1 intro!: emit_ok)
  qed
qed

lemma emit_token_bounds:
  assumes "byte_len s \<le> usize_max" "emitter_ok (in_bounds s) em"
  shows "emitter_ok (in_bounds s) (emit_token s em t kind cc)"
proof -
  obtain col cch where cc: "cc = (col, cch)" by force
  show ?thesis
  proof (cases "10 \<in> set (tp_src t)")
    case True
    have "emitter_ok (in_bounds s)
      (emit_parts (byte_len s) (tp_ri t - 1) col cch kind 0 (min (tp_si t) (byte_len s))
         (split_char 10 (tp_src t)) em)"
      by (rule emit_parts_ok) (use assms in \<open>auto simp: in_bounds_def usat_add_def\<close>)
    with True show ?thesis by (simp add: emit_token_def cc Let_def list_ex_iff)
  next
    case False
    then show ?thesis using assms
      by (auto simp: emit_token_def cc Let_def list_ex_iff in_bounds_def intro!: emit_ok)
  qed
qed

section \<open>Reading the wire form\<close>

text \<open>How a client reads \<open>SemanticTokens.data\<close>.\<close>

fun decode_data :: "nat \<Rightarrow> nat \<Rightarrow> u32 list \<Rightarrow> (nat \<times> nat \<times> nat \<times> token_type) list option" where
  "decode_data row col [] = Some []"
| "decode_data row col (dr # dc # len # k # mods # rest) =
     (case type_from_index k of
        None \<Rightarrow> None
      | Some kind \<Rightarrow>
          (let row' = row + unat dr; col' = (if dr = 0 then col + unat dc else unat dc) in
           map_option (\<lambda>ts. (row', col', unat len, kind) # ts) (decode_data row' col' rest)))"
| "decode_data row col _ = None"

definition wire_view :: "semantic_token \<Rightarrow> nat \<times> nat \<times> nat \<times> token_type" where
  "wire_view t = (st_row t, st_col t, st_len t, st_kind t)"

definition tok_le :: "nat \<times> nat \<Rightarrow> semantic_token \<Rightarrow> bool" where
  "tok_le p t \<longleftrightarrow> fst p < st_row t \<or> (fst p = st_row t \<and> snd p \<le> st_col t)"

definition tok_pos :: "semantic_token \<Rightarrow> nat \<times> nat" where
  "tok_pos t = (st_row t, st_col t)"

definition tok_fits :: "semantic_token \<Rightarrow> bool" where
  "tok_fits t \<longleftrightarrow> 1 \<le> st_len t \<and> st_len t \<le> u32_max \<and> st_row t \<le> u32_max \<and> st_col t \<le> u32_max"

lemma try_u32_None: "try_u32 n = None \<longleftrightarrow> \<not> n \<le> u32_max"
  by (simp add: try_u32_def)

lemma case3_None:
  "a = None \<or> b = None \<or> c = None \<Longrightarrow>
    (case (a, b, c) of (Some x, Some y, Some z) \<Rightarrow> f x y z | _ \<Rightarrow> d) = d"
  by (cases a; cases b; cases c) auto

lemma try_u32_Some: "try_u32 n = Some w \<longleftrightarrow> n \<le> u32_max \<and> w = of_nat n"
  by (auto simp: try_u32_def)

lemma unat_of_nat_u32: "n \<le> u32_max \<Longrightarrow> unat (of_nat n :: u32) = n"
  by (simp add: u32_max_def unat_of_nat take_bit_nat_eq_self)

lemma of_nat_u32_0: "n \<le> u32_max \<Longrightarrow> (of_nat n :: u32) = 0 \<longleftrightarrow> n = 0"
  using unat_of_nat_u32 [of n] by (cases "n = 0") (simp, metis unat_eq_zero)

lemma decode_step:
  "decode_data r c ([dr, dc, len, type_index k, m] @ rest) =
    map_option ((#) (r + unat dr, if dr = 0 then c + unat dc else unat dc, unat len, k))
      (decode_data (r + unat dr) (if dr = 0 then c + unat dc else unat dc) rest)"
proof -
  have "type_from_index (type_index k) = Some k" by (simp add: type_from_index_Some)
  then show ?thesis by (simp add: Let_def)
qed

lemma tok_le_trans: "tok_le p t \<Longrightarrow> tok_le (tok_pos t) u \<Longrightarrow> tok_le p u"
  by (auto simp: tok_le_def tok_pos_def)

text \<open>
  The tokens the wire can carry: after a token at \<open>p\<close>, one that is not empty, is not before
  \<open>p\<close>, and whose length and distance fit 32 bits; the next one is then measured from it.
\<close>

definition carries :: "nat \<times> nat \<Rightarrow> semantic_token \<Rightarrow> bool" where
  "carries p t \<longleftrightarrow> 1 \<le> st_len t \<and> tok_le p t \<and> st_len t \<le> u32_max \<and> st_row t - fst p \<le> u32_max \<and>
     (if st_row t = fst p then st_col t - snd p else st_col t) \<le> u32_max"

fun carried :: "nat \<times> nat \<Rightarrow> semantic_token list \<Rightarrow> semantic_token list" where
  "carried p [] = []"
| "carried p (t # ts) = (if carries p t then t # carried (tok_pos t) ts else carried p ts)"

lemma subseq_carried: "subseq (carried p ts) ts"
  by (induction ts arbitrary: p) auto

lemma carried_after: "\<forall>t\<in>set (carried p ts). 1 \<le> st_len t \<and> tok_le p t"
proof (induction ts arbitrary: p)
  case (Cons t ts)
  then show ?case
    using Cons.IH [of "tok_pos t"] tok_le_trans [of p t] by (cases "carries p t") (simp_all add: carries_def)
qed simp

lemma sorted_carried: "sorted_wrt (\<lambda>a b. tok_le (tok_pos a) b) (carried p ts)"
  using carried_after by (induction ts arbitrary: p) auto

lemma carried_all:
  "sorted_wrt (\<lambda>a b. tok_le (tok_pos a) b) ts \<Longrightarrow> \<forall>t\<in>set ts. tok_fits t \<and> tok_le p t \<Longrightarrow> carried p ts = ts"
  by (induction ts arbitrary: p) (auto simp: carries_def tok_fits_def)

lemma encode_loop_decodes:
  "decode_data r c (encode_loop r c ts) = Some (map wire_view (carried (r, c) ts)) \<and>
     length (encode_loop r c ts) = 5 * length (carried (r, c) ts)"
proof (induction ts arbitrary: r c)
  case (Cons t ts)
  let ?dr = "st_row t - r" let ?dc = "if ?dr = 0 then st_col t - c else st_col t"
  have carries: "carries (r, c) t \<longleftrightarrow> \<not> (st_len t < 1 \<or> st_row t < r \<or> (st_row t = r \<and> st_col t < c)) \<and>
      ?dr \<le> u32_max \<and> ?dc \<le> u32_max \<and> st_len t \<le> u32_max"
    by (auto simp: carries_def tok_le_def)
  show ?case
  proof (cases "carries (r, c) t")
    case False
    have "encode_loop r c (t # ts) = encode_loop r c ts"
    proof (cases "st_len t < 1 \<or> st_row t < r \<or> (st_row t = r \<and> st_col t < c)")
      case True
      then show ?thesis by simp
    next
      case go: False
      with False have "try_u32 ?dr = None \<or> try_u32 ?dc = None \<or> try_u32 (st_len t) = None"
        unfolding try_u32_None carries by blast
      then show ?thesis
        unfolding encode_loop.simps Let_def if_not_P [OF go] by (rule case3_None)
    qed
    with Cons.IH [of r c] False show ?thesis by simp
  next
    case kept: True
    note True = kept [unfolded carries]
    have enc: "encode_loop r c (t # ts) =
        [of_nat ?dr, of_nat ?dc, of_nat (st_len t), type_index (st_kind t), 0] @
          encode_loop (st_row t) (st_col t) ts"
      using True by (auto simp: Let_def try_u32_def)
    have row: "r + unat (of_nat ?dr :: u32) = st_row t"
      by (subst unat_of_nat_u32) (use True in auto)
    have "unat (of_nat ?dc :: u32) = ?dc" "(of_nat ?dr :: u32) = 0 \<longleftrightarrow> ?dr = 0"
      by (rule unat_of_nat_u32, use True in simp) (rule of_nat_u32_0, use True in simp)
    then have col: "(if (of_nat ?dr :: u32) = 0 then c + unat (of_nat ?dc :: u32) else unat (of_nat ?dc :: u32)) = st_col t"
      using True by (simp only:) auto
    have "decode_data r c (encode_loop r c (t # ts)) = Some (map wire_view (t # carried (tok_pos t) ts))"
      unfolding enc decode_step row col
      using Cons.IH [of "st_row t" "st_col t"] True by (simp add: wire_view_def tok_pos_def unat_of_nat_u32)
    moreover have "length (encode_loop r c (t # ts)) = 5 * length (t # carried (tok_pos t) ts)"
      unfolding enc using Cons.IH [of "st_row t" "st_col t"] by (simp add: tok_pos_def)
    ultimately show ?thesis using kept by simp
  qed
qed simp

section \<open>Properties\<close>

text \<open>
  The legend is a bijection. Every token type is found again by its name and by its
  index, its index is the place the wire's \<open>data\<close> names, and no other number or name
  reads as a type.
\<close>

theorem legend_bijection:
  "(type_from_name n = Some k \<longleftrightarrow> n = type_name k) \<and> (type_from_index i = Some k \<longleftrightarrow> i = type_index k) \<and>
   legend ! unat (type_index k) = k \<and> unat (type_index k) < length legend"
  by (cases k) (auto simp: type_from_name_Some type_from_index_Some legend_def)

text \<open>
  Which type a token name gets. Without an override a name has a type exactly when one
  of the tables names it, and no two of them disagree; a non-empty override decides alone,
  even to drop the token, and an empty one is no override.
\<close>

theorem token_type_tables:
  "(token_type_of n None = Some k \<longleftrightarrow>
      (n, k) \<in> set default_token_types \<or> (\<exists>p. (p, k) \<in> set prefix_types \<and> starts_with n p) \<or>
      (n = str ''#KW'' \<and> k = TKeyword) \<or> (n \<in> {str ''ID'', str ''#ID''} \<and> k = TVariable)) \<and>
   token_type_of n (Some (m(n \<mapsto> v))) =
     (if v = [] then token_type_of n None else type_from_name v) \<and>
   token_type_of n (Some (m(n := None))) = token_type_of n None"
proof -
  have "token_type_of n None = Some k \<longleftrightarrow>
      (n, k) \<in> set default_token_types \<or> (\<exists>p. (p, k) \<in> set prefix_types \<and> starts_with n p) \<or>
      (n = str ''#KW'' \<and> k = TKeyword) \<or> (n \<in> {str ''ID'', str ''#ID''} \<and> k = TVariable)"
    unfolding default_token_type_Some [symmetric] prefix_token_type_Some [symmetric]
  proof (cases "default_token_type n")
    case None
    then show "token_type_of n None = Some k \<longleftrightarrow> default_token_type n = Some k \<or> prefix_token_type n = Some k"
      by (simp add: token_type_of_def token_type_name_def type_name_read)
  next
    case (Some a)
    then have "prefix_token_type n = None"
      using default_not_prefix by (simp add: default_token_type_Some)
    with Some show "token_type_of n None = Some k \<longleftrightarrow> default_token_type n = Some k \<or> prefix_token_type n = Some k"
      using type_name_read [of "Some a"] by (auto simp: token_type_of_def token_type_name_def)
  qed
  then show ?thesis
    by (simp add: token_type_of_def token_type_name_def)
qed

text \<open>
  C29: the two forward cursors measure what walking back would. Whatever columns are asked of
  a text, in whatever order, each answer is the UTF-16 and scalar length of the last
  \<open>ci - 1\<close> characters before the token's byte, and no query panics.
\<close>

theorem columns_walk_back:
  "fst (run_steps columns_column (columns_new s) qs) =
     map (\<lambda>(si, ci). walk_back s (boundary_at_or_before s si) (ci - 1)) qs \<and>
   None \<notin> set (fst (run_steps columns_column (columns_new s) qs))"
proof -
  have "fst (run_steps columns_column (columns_new s) qs) = map (columns_answer s) qs"
    by (rule token_columns.run_answers [OF columns_good_new])
  moreover have "None \<notin> set (map (columns_answer s) qs)"
    using columns_answer_Some [of s] by (auto simp: image_iff) (metis option.distinct(1))
  ultimately show ?thesis by (simp add: columns_answer_def case_prod_unfold)
qed

text \<open>
  C30: the pipeline never fails and its segments are fit for the wire. For every token list
  and every text of the address space, the segments come in document order, none is empty,
  and each is a byte range inside the text.
\<close>

theorem segments_in_order:
  assumes "byte_len s \<le> usize_max"
  shows "\<exists>out. segments tokens ov s = Some out \<and>
    sorted_wrt (\<lambda>a b. sg_row a < sg_row b \<or> (sg_row a = sg_row b \<and> sg_col a \<le> sg_col b)) out \<and>
    (\<forall>g\<in>set out. 1 \<le> sg_len g \<and> sg_start g \<le> sg_end g \<and> sg_end g \<le> byte_len s)"
  using segments_ok [OF emit_token_bounds [OF assms], of tokens ov]
  by (simp add: in_bounds_def seg_le_def [abs_def])

theorem segments_in_order_witness:
  "\<exists>out. segments [\<lparr>tp_name = str ''#ST'', tp_si = 9, tp_ri = 7, tp_ci = 1, tp_len = 3, tp_src = [97, 10, 98]\<rparr>]
      None [97, 98] = Some out \<and> (\<forall>g\<in>set out. sg_end g \<le> 2)"
  using segments_in_order [of "[97, 98]"] by (fastforce simp: usize_max_def len_utf8_def)

text \<open>
  A segment is one line of its token. When every token lies on its text, each segment's
  bytes are a piece of the document without a line feed, and its lengths are that piece's
  UTF-16 and scalar lengths.
\<close>

theorem segments_cover_lines:
  assumes "byte_len s \<le> usize_max"
    and "\<forall>t\<in>set tokens. tp_src t \<noteq> [] \<and> tp_len t = byte_len (tp_src t) \<and>
      slice s (tp_si t) (tp_si t + tp_len t) = Some (tp_src t)"
  shows "\<exists>out. segments tokens ov s = Some out \<and>
    (\<forall>g\<in>set out. \<exists>p. slice s (sg_start g) (sg_end g) = Some p \<and> 10 \<notin> set p \<and>
       sg_len g = utf16_len p \<and> sg_len_chars g = length p)"
proof -
  have "on_text s t" if "t \<in> set tokens" for t using assms(2) that unfolding on_text_def by blast
  then obtain out where "segments tokens ov s = Some out" "\<forall>g\<in>set out. seg_text s g"
    using segments_ok [of tokens "seg_text s" s ov] emit_token_text [OF _ assms(1)] by blast
  then show ?thesis unfolding seg_text_def by (intro exI [of _ out]) metis
qed

theorem segments_cover_lines_witness:
  "\<exists>out. segments [\<lparr>tp_name = str ''#ST'', tp_si = 1, tp_ri = 1, tp_ci = 2, tp_len = 3, tp_src = [97, 10, 98]\<rparr>]
      None [32, 97, 10, 98, 99] = Some out \<and>
    (\<forall>g\<in>set out. \<exists>p. slice [32, 97, 10, 98, 99] (sg_start g) (sg_end g) = Some p \<and> 10 \<notin> set p \<and>
       sg_len g = utf16_len p \<and> sg_len_chars g = length p)"
  by (rule segments_cover_lines) code_simp+

text \<open>
  C19: the delta encoding reads back. A client decoding \<open>data\<close>, five integers a token, recovers
  the row, column, length and type of exactly the tokens the wire can carry (\<open>carried\<close>): each
  that is not empty, not before the one carried last (the same place is not before it) and within
  32 bits of it. They are in the order of the tokens and of the document; and when the tokens are
  in document order, not empty and within 32 bits, nothing
  is lost.
\<close>

theorem encode_decodes:
  "decode_data 0 0 (encode ts) = Some (map (\<lambda>t. (st_row t, st_col t, st_len t, st_kind t)) (carried (0, 0) ts)) \<and>
   length (encode ts) = 5 * length (carried (0, 0) ts) \<and> subseq (carried (0, 0) ts) ts \<and>
   sorted_wrt (\<lambda>a b. (st_row a, st_col a) \<le> (st_row b, st_col b)) (carried (0, 0) ts) \<and>
   (sorted_wrt (\<lambda>a b. (st_row a, st_col a) \<le> (st_row b, st_col b)) ts \<and>
      (\<forall>t\<in>set ts. 1 \<le> st_len t \<and> st_len t \<le> u32_max \<and> st_row t \<le> u32_max \<and> st_col t \<le> u32_max) \<longrightarrow>
    carried (0, 0) ts = ts)"
proof -
  have order: "(\<lambda>a b. tok_le (tok_pos a) b) = (\<lambda>a b. (st_row a, st_col a) \<le> (st_row b, st_col b))"
    by (auto simp: tok_le_def tok_pos_def fun_eq_iff)
  have "carried (0, 0) ts = ts" if "sorted_wrt (\<lambda>a b. (st_row a, st_col a) \<le> (st_row b, st_col b)) ts"
    "\<forall>t\<in>set ts. 1 \<le> st_len t \<and> st_len t \<le> u32_max \<and> st_row t \<le> u32_max \<and> st_col t \<le> u32_max"
    by (rule carried_all [OF that(1) [folded order]]) (use that(2) in \<open>auto simp: tok_fits_def tok_le_def\<close>)
  then show ?thesis
    using encode_loop_decodes [of 0 0 ts] subseq_carried [of "(0, 0)" ts] sorted_carried [of "(0, 0)" ts, unfolded order]
    unfolding encode_def wire_view_def [abs_def] by blast
qed

theorem encode_decodes_witness:
  "decode_data 0 0 (encode [\<lparr>st_row = 1, st_col = 4, st_len = 2, st_col_chars = 4, st_len_chars = 2, st_kind = TNumber\<rparr>,
      \<lparr>st_row = 1, st_col = 6, st_len = 1, st_col_chars = 6, st_len_chars = 1, st_kind = TString\<rparr>]) =
    Some [(1, 4, 2, TNumber), (1, 6, 1, TString)]"
  using encode_decodes [of "[\<lparr>st_row = 1, st_col = 4, st_len = 2, st_col_chars = 4, st_len_chars = 2, st_kind = TNumber\<rparr>,
      \<lparr>st_row = 1, st_col = 6, st_len = 1, st_col_chars = 6, st_len_chars = 1, st_kind = TString\<rparr>]"]
  by (simp add: u32_max_def)

end
