(* ===== verification/Outline.thy ===== *)
theory Outline
  imports Documents Semantic "HOL-Library.Product_Lexorder"
begin

text \<open>
  The outline (\<open>rs/src/outline.rs\<close>): the pairing of open and close rule events, the forward
  measurement of every position in offset order (a second instance of \<open>stateful_query\<close>) and
  the nesting of symbols by span containment, bounded in depth, with the tree assembled in
  slots from the last symbol to the first. Indexing panics are \<open>None\<close>; \<open>nest\<close> is shown to
  return, and to return the forest that the parent relation describes.
\<close>

section \<open>Rules and symbols\<close>

definition default_outline_rules :: "(rstr \<times> rstr) list" where
  "default_outline_rules = [(str ''map'', str ''Object''), (str ''list'', str ''Array'')]"

definition symbol_kind_array :: u32 where
  "symbol_kind_array = 18"

definition symbol_kind_object :: u32 where
  "symbol_kind_object = 19"

definition max_outline_depth :: nat where
  "max_outline_depth = 256"

datatype document_symbol =
  Symbol (ds_name: rstr) (ds_kind: u32) (ds_range: lsp_range) (ds_selection: lsp_range)
    (ds_children: "document_symbol list")

definition outline_rules :: "entry option \<Rightarrow> overrides" where
  "outline_rules entry = (case Option.bind entry en_outline_rules of
      None \<Rightarrow> map_of default_outline_rules
    | Some ov \<Rightarrow> map_of default_outline_rules ++ ov)"

definition symbol_kind :: "rstr \<Rightarrow> u32" where
  "symbol_kind label = (if label = str ''Array'' then symbol_kind_array else symbol_kind_object)"

section \<open>Pairing the rule events\<close>

text \<open>
  The open tokens by rule index, and the closed symbols in close order: label, open token,
  end token.
\<close>

type_synonym closed_symbol = "rstr \<times> token_point \<times> token_point"

definition outline_event ::
  "overrides \<Rightarrow> (nat \<rightharpoonup> token_point) \<times> closed_symbol list \<Rightarrow> rule_event \<Rightarrow>
   (nat \<rightharpoonup> token_point) \<times> closed_symbol list" where
  "outline_event rules st event = (case st of (opened, closed) \<Rightarrow>
     (case rules (ev_name event) of
        None \<Rightarrow> (opened, closed)
      | Some label \<Rightarrow>
          (case ev_state event of
             EvOpen \<Rightarrow> (case ev_o0 event of
                 Some o0 \<Rightarrow> (opened(ev_i event \<mapsto> o0), closed)
               | None \<Rightarrow> (opened, closed))
           | EvClose \<Rightarrow> (case opened (ev_i event) of
                 None \<Rightarrow> (opened, closed)
               | Some o0 \<Rightarrow>
                   (case (ev_c0 event, ev_forced event) of
                      (Some c0, _) \<Rightarrow> (opened(ev_i event := None), closed @ [(label, o0, c0)])
                    | (None, True) \<Rightarrow> (opened(ev_i event := None), closed @ [(label, o0, o0)])
                    | (None, False) \<Rightarrow> (opened(ev_i event := None), closed))))))"

definition closed_symbols :: "overrides \<Rightarrow> rule_event list \<Rightarrow> closed_symbol list" where
  "closed_symbols rules events = snd (foldl (outline_event rules) (\<lambda>_. None, []) events)"

section \<open>Columns\<close>

record outline_cursor =
  oc_byte :: nat
  oc_chars :: nat
  oc_units :: nat

definition outline_cursor_default :: outline_cursor where
  "outline_cursor_default = \<lparr>oc_byte = 0, oc_chars = 0, oc_units = 0\<rparr>"

record outline_columns =
  ol_doc :: doc
  ol_lines :: nat
  ol_at :: outline_cursor
  ol_from :: outline_cursor

definition outline_columns_new :: "doc \<Rightarrow> outline_columns" where
  "outline_columns_new d = \<lparr>ol_doc = d, ol_lines = length (line_starts d),
     ol_at = outline_cursor_default, ol_from = outline_cursor_default\<rparr>"

definition outline_units :: "doc \<Rightarrow> rchar \<Rightarrow> nat" where
  "outline_units d c = (case doc_encoding d of Utf16 \<Rightarrow> len_utf16 c | Utf8 \<Rightarrow> len_utf8 c)"

definition outline_walk_back :: "doc \<Rightarrow> nat \<Rightarrow> nat \<Rightarrow> nat option" where
  "outline_walk_back d si want =
     map_option (\<lambda>before. sum_list (map (outline_units d) (take want (rev before))))
       (slice_to (doc_text d) si)"

text \<open>The loop that moves the start of the window.\<close>

fun window_walk :: "doc \<Rightarrow> nat \<Rightarrow> outline_cursor \<Rightarrow> rstr \<Rightarrow> outline_cursor" where
  "window_walk d start cur [] = cur"
| "window_walk d start cur (c # rest) =
     (if oc_chars cur < start
      then window_walk d start \<lparr>oc_byte = oc_byte cur + len_utf8 c, oc_chars = oc_chars cur + 1,
             oc_units = oc_units cur + outline_units d c\<rparr> rest
      else cur)"

definition outline_column :: "outline_columns \<Rightarrow> nat \<times> nat \<Rightarrow> nat option \<times> outline_columns" where
  "outline_column cols q = (case q of (si0, ci) \<Rightarrow>
     let d = ol_doc cols;
         si = floor_boundary (doc_text d) (min si0 (byte_len (doc_text d)));
         want = ci - 1 in
     if si < oc_byte (ol_at cols) then (outline_walk_back d si want, cols)
     else case slice (doc_text d) (oc_byte (ol_at cols)) si of
       None \<Rightarrow> (None, cols)
     | Some passed \<Rightarrow>
         let at = (foldl (\<lambda>k c. k\<lparr>oc_chars := oc_chars k + 1, oc_units := oc_units k + outline_units d c\<rparr>)
                     (ol_at cols) passed)\<lparr>oc_byte := si\<rparr>;
             cols = cols\<lparr>ol_at := at\<rparr>; start = oc_chars at - want in
         if start < oc_chars (ol_from cols) then (outline_walk_back d si want, cols)
         else case slice_from (doc_text d) (oc_byte (ol_from cols)) of
           None \<Rightarrow> (None, cols)
         | Some rest \<Rightarrow>
             let fr = window_walk d start (ol_from cols) rest in
             (checked_sub (oc_units at) (oc_units fr), cols\<lparr>ol_from := fr\<rparr>))"

definition outline_position :: "outline_columns \<Rightarrow> token_point \<Rightarrow> position option \<times> outline_columns" where
  "outline_position cols token =
     (case checked_sub (ol_lines cols) 1 of
        None \<Rightarrow> (None, cols)
      | Some last_line \<Rightarrow>
          let ln = min (tp_ri token - 1) last_line;
              (ch, cols) = outline_column cols (tp_si token, tp_ci token)
          in (map_option (\<lambda>c. Position (wire ln) (wire c)) ch, cols))"

definition encoded_len :: "rstr \<Rightarrow> position_encoding \<Rightarrow> nat" where
  "encoded_len s enc = (case enc of Utf16 \<Rightarrow> sum_list (map len_utf16 s) | Utf8 \<Rightarrow> byte_len s)"

section \<open>Nesting\<close>

record spanned =
  sp_symbol :: document_symbol
  sp_start :: nat
  sp_end :: nat

definition span_within :: "spanned \<Rightarrow> spanned \<Rightarrow> bool" where
  "span_within s t \<longleftrightarrow> sp_start t \<le> sp_start s \<and> sp_end s \<le> sp_end t"

text \<open>A stable sort: by start, and by descending end within a start.\<close>

definition sort_spans :: "spanned list \<Rightarrow> spanned list" where
  "sort_spans = sort_key (\<lambda>s. (int (sp_start s), - int (sp_end s)))"

text \<open>The stack of the walk, its top first: indices of symbols.\<close>

fun pop_until :: "spanned list \<Rightarrow> spanned \<Rightarrow> nat list \<Rightarrow> nat list option" where
  "pop_until symbols s [] = Some []"
| "pop_until symbols s (tp # stack) =
     (case index symbols tp of
        None \<Rightarrow> None
      | Some t \<Rightarrow> if span_within s t then Some (tp # stack) else pop_until symbols s stack)"

record nest_state =
  ns_kept :: "bool list"
  ns_roots :: "nat list"
  ns_kids :: "nat list list"
  ns_stack :: "nat list"

definition nest_step :: "spanned list \<Rightarrow> nest_state \<Rightarrow> nat \<times> spanned \<Rightarrow> nest_state option" where
  "nest_step symbols st is = (case is of (i, s) \<Rightarrow> do {
     stack \<leftarrow> pop_until symbols s (ns_stack st);
     if length stack \<ge> max_outline_depth then Some (st\<lparr>ns_stack := stack\<rparr>)
     else do {
       st \<leftarrow> (case stack of
           parent # _ \<Rightarrow> do {
             ks \<leftarrow> index (ns_kids st) parent;
             kids \<leftarrow> set_at (ns_kids st) parent (ks @ [i]);
             Some (st\<lparr>ns_kids := kids\<rparr>)
           }
         | [] \<Rightarrow> Some (st\<lparr>ns_roots := ns_roots st @ [i]\<rparr>));
       kept \<leftarrow> set_at (ns_kept st) i True;
       Some (st\<lparr>ns_kept := kept, ns_stack := i # stack\<rparr>)
     }
   })"

fun nest_walk :: "spanned list \<Rightarrow> nest_state \<Rightarrow> (nat \<times> spanned) list \<Rightarrow> nest_state option" where
  "nest_walk symbols st [] = Some st"
| "nest_walk symbols st (x # xs) = do { st \<leftarrow> nest_step symbols st x; nest_walk symbols st xs }"

text \<open>\<open>filter_map(|&k| slots[k].take())\<close>.\<close>

fun take_slots :: "nat list \<Rightarrow> document_symbol option list \<Rightarrow>
    (document_symbol list \<times> document_symbol option list) option" where
  "take_slots [] slots = Some ([], slots)"
| "take_slots (k # ks) slots = do {
     slot \<leftarrow> index slots k;
     (taken, slots') \<leftarrow> take_slots ks (slots[k := None]);
     Some ((case slot of None \<Rightarrow> taken | Some s \<Rightarrow> s # taken), slots')
   }"

definition with_children :: "document_symbol \<Rightarrow> document_symbol list \<Rightarrow> document_symbol" where
  "with_children s cs = Symbol (ds_name s) (ds_kind s) (ds_range s) (ds_selection s) cs"

definition assemble_step :: "nat list list \<Rightarrow> nat \<Rightarrow> document_symbol option list \<Rightarrow>
    document_symbol option list option" where
  "assemble_step kids i slots = do {
     ks \<leftarrow> index kids i;
     if ks = [] then Some slots
     else do {
       (children, slots) \<leftarrow> take_slots ks slots;
       slot \<leftarrow> index slots i;
       Some (case slot of None \<Rightarrow> slots | Some s \<Rightarrow> slots[i := Some (with_children s children)])
     }
   }"

fun assemble :: "nat list list \<Rightarrow> nat list \<Rightarrow> document_symbol option list \<Rightarrow>
    document_symbol option list option" where
  "assemble kids [] slots = Some slots"
| "assemble kids (i # is) slots = do { slots \<leftarrow> assemble_step kids i slots; assemble kids is slots }"

definition nest :: "spanned list \<Rightarrow> document_symbol list option" where
  "nest symbols0 = (let symbols = sort_spans symbols0; n = length symbols in do {
     st \<leftarrow> nest_walk symbols \<lparr>ns_kept = replicate n False, ns_roots = [],
              ns_kids = replicate n [], ns_stack = []\<rparr> (List.enumerate 0 symbols);
     slots \<leftarrow> assemble (ns_kids st) (rev [0..<n])
         (map2 (\<lambda>s kept. if kept then Some (sp_symbol s) else None) symbols (ns_kept st));
     (roots, slots) \<leftarrow> take_slots (ns_roots st) slots;
     Some roots
   })"

section \<open>The outline\<close>

text \<open>The tokens to measure, each with its slot, in offset order.\<close>

definition outline_sites :: "closed_symbol list \<Rightarrow> (nat \<times> token_point) list" where
  "outline_sites closed = sort_key (\<lambda>(slot, t). tp_si t)
     (concat (map (\<lambda>(n, (label, o0, e)). [(2 * n, o0), (2 * n + 1, e)]) (List.enumerate 0 closed)))"

fun measure_sites :: "outline_columns \<Rightarrow> position list \<Rightarrow> (nat \<times> token_point) list \<Rightarrow> position list option" where
  "measure_sites cols positions [] = Some positions"
| "measure_sites cols positions ((slot, token) # sites) =
     (case outline_position cols token of
        (None, cols) \<Rightarrow> None
      | (Some p, cols) \<Rightarrow> Option.bind (set_at positions slot p) (\<lambda>positions. measure_sites cols positions sites))"

definition spanned_of :: "doc \<Rightarrow> position list \<Rightarrow> nat \<times> closed_symbol \<Rightarrow> spanned option" where
  "spanned_of d positions x = (case x of (n, label, o0, e) \<Rightarrow> do {
     start \<leftarrow> index positions (2 * n);
     end_start \<leftarrow> index positions (2 * n + 1);
     let len = max (encoded_len (tp_src e) (doc_encoding d)) 1;
     Some \<lparr>sp_symbol = Symbol label (symbol_kind label)
             (Range start (Position (pos_line end_start) (u32_sat_add (pos_character end_start) (wire len))))
             (range_empty start) [],
           sp_start = tp_si o0, sp_end = tp_si e\<rparr>
   })"

definition outline :: "rule_event list \<Rightarrow> entry option \<Rightarrow> doc \<Rightarrow> document_symbol list option" where
  "outline events entry d = (let closed = closed_symbols (outline_rules entry) events in do {
     positions \<leftarrow> measure_sites (outline_columns_new d)
         (replicate (2 * length closed) (Position 0 0)) (outline_sites closed);
     symbols \<leftarrow> all_some (spanned_of d positions) (List.enumerate 0 closed);
     nest symbols
   })"

section \<open>The cursors\<close>

definition ocursor_after :: "doc \<Rightarrow> rstr \<Rightarrow> outline_cursor" where
  "ocursor_after d a = \<lparr>oc_byte = byte_len a, oc_chars = length a,
     oc_units = sum_list (map (outline_units d) a)\<rparr>"

lemma ocursor_after_simps [simp]:
  "oc_byte (ocursor_after d a) = byte_len a" "oc_chars (ocursor_after d a) = length a"
  "oc_units (ocursor_after d a) = sum_list (map (outline_units d) a)"
  by (simp_all add: ocursor_after_def)

lemma ocursor_after_Nil: "ocursor_after d [] = outline_cursor_default"
  by (simp add: ocursor_after_def outline_cursor_default_def)

definition ocolumns_good :: "doc \<Rightarrow> outline_columns \<Rightarrow> bool" where
  "ocolumns_good d cols \<longleftrightarrow> ol_doc cols = d \<and> ol_lines cols = length (line_starts d) \<and>
     (\<exists>a f. prefix a (doc_text d) \<and> prefix f a \<and> ol_at cols = ocursor_after d a \<and> ol_from cols = ocursor_after d f)"

definition ocolumns_answer :: "doc \<Rightarrow> nat \<times> nat \<Rightarrow> nat option" where
  "ocolumns_answer d q = outline_walk_back d (boundary_at_or_before (doc_text d) (fst q)) (snd q - 1)"

lemma ocolumns_goodI:
  "ol_doc cols = d \<Longrightarrow> ol_lines cols = length (line_starts d) \<Longrightarrow> ol_at cols = ocursor_after d a \<Longrightarrow>
    ol_from cols = ocursor_after d f \<Longrightarrow> prefix a (doc_text d) \<Longrightarrow> prefix f a \<Longrightarrow> ocolumns_good d cols"
  unfolding ocolumns_good_def by blast

lemma oadvance_fold:
  "(foldl (\<lambda>k c. k\<lparr>oc_chars := Suc (oc_chars k), oc_units := oc_units k + outline_units d c\<rparr>) cur x)
     \<lparr>oc_byte := b\<rparr> =
   \<lparr>oc_byte = b, oc_chars = oc_chars cur + length x, oc_units = oc_units cur + sum_list (map (outline_units d) x)\<rparr>"
  by (induction x arbitrary: cur) simp_all

lemma window_walk_after:
  "length f \<le> n \<Longrightarrow> n \<le> length (f @ r) \<Longrightarrow>
    window_walk d n (ocursor_after d f) r = ocursor_after d (take n (f @ r))"
proof (induction r arbitrary: f)
  case Nil
  then show ?case by simp
next
  case (Cons c r)
  show ?case
  proof (cases "length f < n")
    case True
    then have "window_walk d n (ocursor_after d f) (c # r) = window_walk d n (ocursor_after d (f @ [c])) r"
      by (simp add: ocursor_after_def)
    with Cons.IH [of "f @ [c]"] Cons.prems True show ?thesis by simp
  next
    case False
    with Cons.prems show ?thesis by simp
  qed
qed

lemma outline_walk_back_prefix:
  assumes "doc_text d = a @ b"
  shows "outline_walk_back d (byte_len a) n = Some (sum_list (map (outline_units d) (drop (length a - n) a)))"
proof -
  have "take n (rev a) = rev (drop (length a - n) a)" by (simp add: take_rev)
  then show ?thesis using assms by (simp add: outline_walk_back_def rev_map [symmetric] sum_list_rev)
qed

lemma outline_column_good:
  assumes "ocolumns_good d cols"
  shows "fst (outline_column cols q) = ocolumns_answer d q \<and> ocolumns_good d (snd (outline_column cols q))"
proof -
  obtain si ci where q: "q = (si, ci)" by force
  let ?s = "doc_text d"
  obtain a f where af: "prefix a ?s" "prefix f a" "ol_doc cols = d" "ol_lines cols = length (line_starts d)"
    "ol_at cols = ocursor_after d a" "ol_from cols = ocursor_after d f"
    using assms by (auto simp: ocolumns_good_def)
  obtain b r where b: "?s = b @ r" "boundary_at_or_before ?s si = byte_len b"
    by (rule boundary_split)
  have fb0: "floor_boundary ?s (min si (byte_len ?s)) = byte_len b"
    using b(2) by (simp add: boundary_at_or_before_def)
  have ans: "ocolumns_answer d (si, ci) = outline_walk_back d (byte_len b) (ci - Suc 0)"
    by (simp add: ocolumns_answer_def b(2))
  show ?thesis
  proof (cases "byte_len b < byte_len a")
    case True
    then show ?thesis using assms af fb0 by (simp add: outline_column_def q Let_def ans)
  next
    case False
    have ab: "prefix a b" by (rule prefix_byte_le [of a ?s b]) (use af b False in auto)
    then obtain x where x: "b = a @ x" by (auto elim: prefixE)
    have sl: "slice ?s (byte_len a) (byte_len b) = Some x"
      unfolding slice_Some using b(1) x by (intro exI [of _ a] exI [of _ r]) simp
    have at: "(foldl (\<lambda>k c. k\<lparr>oc_chars := Suc (oc_chars k), oc_units := oc_units k + outline_units d c\<rparr>)
        (ocursor_after d a) x)\<lparr>oc_byte := byte_len b\<rparr> = ocursor_after d b"
      by (simp add: oadvance_fold ocursor_after_def x)
    have fb: "prefix f b" using af(2) ab by (rule prefix_order.trans)
    let ?n = "length b - (ci - 1)"
    show ?thesis
    proof (cases "?n < length f")
      case True
      moreover have "ocolumns_good d (cols\<lparr>ol_at := ocursor_after d b\<rparr>)"
        by (rule ocolumns_goodI [of _ _ b f]) (use af b fb in simp_all)
      ultimately show ?thesis using af fb0 False at sl
        by (simp add: outline_column_def q Let_def ans)
    next
      case nf: False
      obtain fr where fr: "?s = f @ fr" using fb b(1) by (auto elim!: prefixE)
      have same: "f @ fr = b @ r" using b(1) fr by metis
      have "window_walk d ?n (ocursor_after d f) fr = ocursor_after d (take ?n (f @ fr))"
        by (rule window_walk_after) (use nf in \<open>auto simp: same\<close>)
      moreover have "take ?n (f @ fr) = take ?n b" by (simp add: same)
      ultimately have walk: "window_walk d ?n (ocursor_after d f) fr = ocursor_after d (take ?n b)" by simp
      have "sum_list (map (outline_units d) b) =
          sum_list (map (outline_units d) (take ?n b)) + sum_list (map (outline_units d) (drop ?n b))"
        by (metis append_take_drop_id map_append sum_list_append)
      then have u: "checked_sub (sum_list (map (outline_units d) b)) (sum_list (map (outline_units d) (take ?n b)))
          = Some (sum_list (map (outline_units d) (drop ?n b)))"
        by (simp add: checked_sub_def)
      have sf: "slice_from ?s (byte_len f) = Some fr" by (simp add: fr)
      have "ocolumns_good d (cols\<lparr>ol_at := ocursor_after d b, ol_from := ocursor_after d (take ?n b)\<rparr>)"
        by (rule ocolumns_goodI [of _ _ b "take ?n b"]) (use af b in \<open>simp_all add: take_is_prefix\<close>)
      then show ?thesis
        using af fb0 False at sl nf walk u sf outline_walk_back_prefix [OF b(1), of "ci - 1"]
        by (simp add: outline_column_def q Let_def ans)
    qed
  qed
qed

lemma ocolumns_good_new: "ocolumns_good d (outline_columns_new d)"
  by (rule ocolumns_goodI [of _ _ "[]" "[]"]) (simp_all add: outline_columns_new_def ocursor_after_Nil)

interpretation outline_measure: stateful_query outline_column "ocolumns_good d" "ocolumns_answer d" for d
  by unfold_locales (use outline_column_good in blast)+

lemma ocolumns_answer_Some: "\<exists>n. ocolumns_answer d q = Some n"
proof -
  obtain b r where b: "doc_text d = b @ r" "boundary_at_or_before (doc_text d) (fst q) = byte_len b"
    by (rule boundary_split)
  show ?thesis using outline_walk_back_prefix [OF b(1)] by (simp add: ocolumns_answer_def b(2))
qed

section \<open>Symbol trees\<close>

fun ds_depth :: "document_symbol \<Rightarrow> nat" where
  "ds_depth (Symbol n k r s cs) = Suc (foldr (\<lambda>c m. max (ds_depth c) m) cs 0)"

text \<open>The symbols of a tree, each without its children.\<close>

fun ds_nodes :: "document_symbol \<Rightarrow> document_symbol list" where
  "ds_nodes (Symbol n k r s cs) = Symbol n k r s [] # concat (map ds_nodes cs)"

lemma foldr_max_le: "(foldr (\<lambda>c m. max (f c) m) cs 0 \<le> (b :: nat)) \<longleftrightarrow> (\<forall>c\<in>set cs. f c \<le> b)"
  by (induction cs) auto

lemma ds_depth_le: "ds_depth t \<le> Suc b \<longleftrightarrow> (\<forall>c\<in>set (ds_children t). ds_depth c \<le> b)"
  by (cases t) (simp add: foldr_max_le)

lemma ds_nodes_with_children: "ds_nodes (with_children s cs) = with_children s [] # concat (map ds_nodes cs)"
  by (simp add: with_children_def)

lemma with_children_bare: "ds_children s = [] \<Longrightarrow> with_children s [] = s"
  by (cases s) (simp add: with_children_def)

lemma ds_nodes_bare: "ds_children s = [] \<Longrightarrow> ds_nodes s = [s]"
  by (cases s) simp

text \<open>The tree the parent relation describes.\<close>

function tree_of :: "spanned list \<Rightarrow> nat list list \<Rightarrow> nat \<Rightarrow> document_symbol" where
  "tree_of symbols kids i =
     (if i < length kids \<and> kids ! i \<noteq> []
      then with_children (sp_symbol (symbols ! i))
             (map (tree_of symbols kids) (filter (\<lambda>k. i < k \<and> k < length kids) (kids ! i)))
      else sp_symbol (symbols ! i))"
  by pat_completeness auto
termination by (relation "measure (\<lambda>(symbols, kids, i). length kids - i)") auto

declare tree_of.simps [simp del]

section \<open>The walk\<close>

fun depths :: "(nat \<Rightarrow> nat) \<Rightarrow> nat list \<Rightarrow> bool" where
  "depths dep [] = True"
| "depths dep (x # xs) = (dep x = Suc (length xs) \<and> depths dep xs)"

lemma depths_suffix: "depths dep (xs @ ys) \<Longrightarrow> depths dep ys"
  by (induction xs) auto

lemma depths_cong: "depths dep xs \<Longrightarrow> (\<And>x. x \<in> set xs \<Longrightarrow> dep' x = dep x) \<Longrightarrow> depths dep' xs"
  by (induction xs) auto

definition kept_set :: "nat \<Rightarrow> bool list \<Rightarrow> nat set" where
  "kept_set n kept = {k. k < n \<and> kept ! k}"

lemma finite_kept_set [simp]: "finite (kept_set n kept)"
  by (simp add: kept_set_def)

text \<open>
  What the walk keeps of its state after \<open>i\<close> symbols; \<open>dep\<close> is the depth of each kept symbol.
\<close>

definition kids_ok :: "spanned list \<Rightarrow> (nat \<Rightarrow> nat) \<Rightarrow> nest_state \<Rightarrow> bool" where
  "kids_ok symbols dep st \<longleftrightarrow> (\<forall>p<length symbols. \<forall>k\<in>set (ns_kids st ! p).
     p < k \<and> k < length symbols \<and> span_within (symbols ! k) (symbols ! p) \<and> ns_kept st ! p \<and>
     ns_kept st ! k \<and> dep k = Suc (dep p))"

definition places_ok :: "spanned list \<Rightarrow> nest_state \<Rightarrow> bool" where
  "places_ok symbols st \<longleftrightarrow> length (ns_kept st) = length symbols \<and> length (ns_kids st) = length symbols \<and>
     mset (ns_roots st @ concat (ns_kids st)) = mset_set (kept_set (length symbols) (ns_kept st))"

definition stack_ok :: "spanned list \<Rightarrow> (nat \<Rightarrow> nat) \<Rightarrow> nat \<Rightarrow> nest_state \<Rightarrow> bool" where
  "stack_ok symbols dep i st \<longleftrightarrow> sorted_wrt (\<lambda>a b. b < a) (ns_stack st) \<and>
     (\<forall>x\<in>set (ns_stack st). x < i \<and> x < length symbols \<and> ns_kept st ! x) \<and>
     length (ns_stack st) \<le> max_outline_depth \<and> depths dep (ns_stack st)"

definition walk_inv :: "spanned list \<Rightarrow> (nat \<Rightarrow> nat) \<Rightarrow> nat \<Rightarrow> nest_state \<Rightarrow> bool" where
  "walk_inv symbols dep i st \<longleftrightarrow>
     places_ok symbols st \<and> kids_ok symbols dep st \<and> stack_ok symbols dep i st \<and>
     (\<forall>k<length symbols. ns_kept st ! k \<longrightarrow> k < i \<and> dep k \<le> max_outline_depth) \<and>
     (\<forall>r\<in>set (ns_roots st). dep r = 1) \<and>
     (length symbols \<le> max_outline_depth \<longrightarrow> (\<forall>k<i. ns_kept st ! k))"

lemma pop_until_Some:
  "\<forall>x\<in>set stack. x < length symbols \<Longrightarrow>
    \<exists>pre post. stack = pre @ post \<and> pop_until symbols s stack = Some post \<and>
      (\<forall>p ps. post = p # ps \<longrightarrow> span_within s (symbols ! p))"
proof (induction stack)
  case Nil
  then show ?case by simp
next
  case (Cons x stack)
  then obtain pre post where ih: "stack = pre @ post" "pop_until symbols s stack = Some post"
    "\<forall>p ps. post = p # ps \<longrightarrow> span_within s (symbols ! p)" by auto
  show ?case
  proof (cases "span_within s (symbols ! x)")
    case True
    with Cons.prems show ?thesis by (intro exI [of _ "[]"] exI [of _ "x # stack"]) simp
  next
    case False
    with Cons.prems ih show ?thesis by (intro exI [of _ "x # pre"] exI [of _ post]) simp
  qed
qed

lemma length_below:
  assumes "sorted_wrt (\<lambda>a b. b < a) xs" "\<forall>x\<in>set xs. x < (i :: nat)"
  shows "length xs \<le> i"
proof -
  have "distinct xs" using assms(1) by (induction xs) auto
  then have "length xs = card (set xs)" by (simp add: distinct_card)
  also have "\<dots> \<le> card {..<i}" by (rule card_mono) (use assms(2) in auto)
  finally show ?thesis by simp
qed

lemma mset_concat_update:
  assumes "p < length xss"
  shows "mset (concat (xss[p := xss ! p @ [x]])) = add_mset x (mset (concat xss))"
proof -
  have split: "xss = take p xss @ xss ! p # drop (Suc p) xss" by (rule id_take_nth_drop [OF assms])
  have "xss[p := xss ! p @ [x]] = take p xss @ (xss ! p @ [x]) # drop (Suc p) xss"
    by (rule upd_conv_take_nth_drop [OF assms])
  then show ?thesis by (subst (3) split) simp
qed

lemma kept_set_update:
  "i < n \<Longrightarrow> length kept = n \<Longrightarrow> kept_set n (kept[i := True]) = insert i (kept_set n kept)"
  by (auto simp: kept_set_def nth_list_update)

lemma stack_irrelevant [simp]:
  "places_ok symbols (st\<lparr>ns_stack := xs\<rparr>) = places_ok symbols st"
  "kids_ok symbols dep (st\<lparr>ns_stack := xs\<rparr>) = kids_ok symbols dep st"
  by (simp_all add: places_ok_def kids_ok_def)

lemma places_set:
  assumes "places_ok symbols st"
  shows "set (ns_roots st @ concat (ns_kids st)) = kept_set (length symbols) (ns_kept st)"
proof -
  from assms have "mset (ns_roots st @ concat (ns_kids st)) = mset_set (kept_set (length symbols) (ns_kept st))"
    by (simp only: places_ok_def)
  from arg_cong [OF this, of set_mset] show ?thesis
    by (simp only: set_mset_mset finite_set_mset_mset_set finite_kept_set)
qed

lemma places_kid:
  assumes "places_ok symbols st" "i < length symbols" "\<not> ns_kept st ! i"
    and "p < length symbols"
  shows "places_ok symbols (st\<lparr>ns_kids := (ns_kids st)[p := ns_kids st ! p @ [i]],
    ns_kept := (ns_kept st)[i := True], ns_stack := xs\<rparr>)"
proof -
  have "i \<notin> kept_set (length symbols) (ns_kept st)" using assms(3) by (simp add: kept_set_def)
  then show ?thesis
    using assms by (simp add: places_ok_def mset_concat_update kept_set_update)
qed

lemma places_root:
  assumes "places_ok symbols st" "i < length symbols" "\<not> ns_kept st ! i"
  shows "places_ok symbols (st\<lparr>ns_roots := ns_roots st @ [i],
    ns_kept := (ns_kept st)[i := True], ns_stack := xs\<rparr>)"
proof -
  have "i \<notin> kept_set (length symbols) (ns_kept st)" using assms(3) by (simp add: kept_set_def)
  then show ?thesis
    using assms by (simp add: places_ok_def kept_set_update)
qed

lemma stack_push:
  assumes "sorted_wrt (\<lambda>a b. b < a) post" "\<forall>x\<in>set post. x < i \<and> x < length symbols \<and> ns_kept st ! x"
    and "length post < max_outline_depth" "depths dep post" "i < length symbols"
    and "length (ns_kept st) = length symbols" "d = Suc (length post)"
  shows "stack_ok symbols (dep(i := d)) (Suc i)
    (st\<lparr>ns_roots := rs, ns_kids := ks, ns_kept := (ns_kept st)[i := True], ns_stack := i # post\<rparr>)"
proof -
  have "depths (dep(i := d)) post"
    by (rule depths_cong [OF assms(4)]) (use assms(2) in auto)
  with assms show ?thesis by (auto simp: stack_ok_def nth_list_update)
qed

lemma kids_okD:
  assumes "kids_ok symbols dep st" "p < length symbols" "k \<in> set (ns_kids st ! p)"
  shows "p < k" "k < length symbols" "span_within (symbols ! k) (symbols ! p)"
    "ns_kept st ! p" "ns_kept st ! k" "dep k = Suc (dep p)"
  using assms unfolding kids_ok_def by blast+

lemma kept_mono: "kept ! k \<Longrightarrow> kept[i := True] ! k"
  by (cases "k = i"; cases "i < length kept") (auto simp: list_update_beyond)

lemma kids_ok_root:
  assumes "kids_ok symbols dep st" "\<not> ns_kept st ! i"
  shows "kids_ok symbols (dep(i := d)) (st\<lparr>ns_roots := rs, ns_kept := (ns_kept st)[i := True], ns_stack := xs\<rparr>)"
  unfolding kids_ok_def
proof (intro allI impI ballI)
  fix p k
  assume p: "p < length symbols"
    and "k \<in> set (ns_kids (st\<lparr>ns_roots := rs, ns_kept := (ns_kept st)[i := True], ns_stack := xs\<rparr>) ! p)"
  then have "k \<in> set (ns_kids st ! p)" by simp
  note facts = kids_okD [OF assms(1) p this]
  moreover from facts(4,5) assms(2) have "p \<noteq> i" "k \<noteq> i" by auto
  ultimately show "p < k \<and> k < length symbols \<and> span_within (symbols ! k) (symbols ! p) \<and>
      ns_kept (st\<lparr>ns_roots := rs, ns_kept := (ns_kept st)[i := True], ns_stack := xs\<rparr>) ! p \<and>
      ns_kept (st\<lparr>ns_roots := rs, ns_kept := (ns_kept st)[i := True], ns_stack := xs\<rparr>) ! k \<and>
      (dep(i := d)) k = Suc ((dep(i := d)) p)"
    by (simp add: kept_mono)
qed

lemma kids_ok_kid:
  assumes "kids_ok symbols dep st" "\<not> ns_kept st ! i"
    and len: "length (ns_kept st) = length symbols" "length (ns_kids st) = length symbols" "i < length symbols"
    and q: "q < i" "q < length symbols" "ns_kept st ! q" "span_within (symbols ! i) (symbols ! q)"
  shows "kids_ok symbols (dep(i := Suc (dep q)))
    (st\<lparr>ns_kids := (ns_kids st)[q := ns_kids st ! q @ [i]], ns_kept := (ns_kept st)[i := True], ns_stack := xs\<rparr>)"
    (is "kids_ok symbols ?dep ?st")
  unfolding kids_ok_def
proof (intro allI impI ballI)
  fix p k
  assume p: "p < length symbols" and "k \<in> set (ns_kids ?st ! p)"
  then consider "k \<in> set (ns_kids st ! p)" | "p = q" "k = i"
    using len by (cases "p = q") auto
  then show "p < k \<and> k < length symbols \<and> span_within (symbols ! k) (symbols ! p) \<and>
      ns_kept ?st ! p \<and> ns_kept ?st ! k \<and> ?dep k = Suc (?dep p)"
  proof cases
    case 1
    note facts = kids_okD [OF assms(1) p 1]
    moreover from facts(4,5) assms(2) have "p \<noteq> i" "k \<noteq> i" by auto
    ultimately show ?thesis by (simp add: kept_mono)
  next
    case 2
    with q len show ?thesis by (simp add: kept_mono)
  qed
qed

lemma nest_step_inv:
  assumes inv: "walk_inv symbols dep i st" and i: "i < length symbols"
  shows "\<exists>st' dep'. nest_step symbols st (i, symbols ! i) = Some st' \<and> walk_inv symbols dep' (Suc i) st'"
proof -
  note inv' = inv [unfolded walk_inv_def]
  have places: "places_ok symbols st" and kids: "kids_ok symbols dep st" and stack: "stack_ok symbols dep i st"
    and dep: "\<forall>k<length symbols. ns_kept st ! k \<longrightarrow> k < i \<and> dep k \<le> max_outline_depth"
    and roots: "\<forall>r\<in>set (ns_roots st). dep r = 1"
    and all: "length symbols \<le> max_outline_depth \<longrightarrow> (\<forall>k<i. ns_kept st ! k)"
    using inv' by blast+
  have len: "length (ns_kept st) = length symbols" "length (ns_kids st) = length symbols"
    using places by (simp_all add: places_ok_def)
  have new: "\<not> ns_kept st ! i" using dep i by blast
  have elems: "set (ns_roots st @ concat (ns_kids st)) = kept_set (length symbols) (ns_kept st)"
    by (rule places_set [OF places])
  have "i \<notin> set (ns_roots st @ concat (ns_kids st))"
    unfolding elems using new by (simp add: kept_set_def)
  then have old: "i \<notin> set (ns_roots st)" "p < length symbols \<Longrightarrow> i \<notin> set (ns_kids st ! p)" for p
    using nth_mem [of p "ns_kids st"] len(2) by auto
  obtain pre post where pop: "ns_stack st = pre @ post" "pop_until symbols (symbols ! i) (ns_stack st) = Some post"
    "\<forall>p ps. post = p # ps \<longrightarrow> span_within (symbols ! i) (symbols ! p)"
    using pop_until_Some [of "ns_stack st" symbols "symbols ! i"] stack by (auto simp: stack_ok_def)
  have post: "sorted_wrt (\<lambda>a b. b < a) post" "\<forall>x\<in>set post. x < i \<and> x < length symbols \<and> ns_kept st ! x"
    "depths dep post" "length post \<le> max_outline_depth"
    using stack pop(1) depths_suffix [of dep pre post] by (auto simp: stack_ok_def sorted_wrt_append)
  have small: "length post \<le> i" using length_below [OF post(1)] post(2) by blast
  show ?thesis
  proof (cases "length post \<ge> max_outline_depth")
    case True
    have "stack_ok symbols dep (Suc i) (st\<lparr>ns_stack := post\<rparr>)"
      using post by (auto simp: stack_ok_def)
    moreover have "\<not> length symbols \<le> max_outline_depth" using True small i by linarith
    ultimately have "walk_inv symbols dep (Suc i) (st\<lparr>ns_stack := post\<rparr>)"
      using places kids dep roots
      by (auto simp: walk_inv_def less_Suc_eq)
    then show ?thesis using pop(2) True by (auto simp: nest_step_def)
  next
    case shallow: False
    let ?kept = "(ns_kept st)[i := True]"
    show ?thesis
    proof (cases post)
      case Nil
      let ?st = "st\<lparr>ns_roots := ns_roots st @ [i], ns_kept := ?kept, ns_stack := [i]\<rparr>"
      let ?dep = "dep(i := 1)"
      have "places_ok symbols ?st" by (rule places_root [OF places i new])
      moreover have "stack_ok symbols ?dep (Suc i) ?st"
        using stack_push [OF post(1,2) _ post(3) i len(1), where d = 1 and rs = "ns_roots st @ [i]" and ks = "ns_kids st"] Nil
        by (simp add: max_outline_depth_def)
      moreover have "kids_ok symbols ?dep ?st"
        by (rule kids_ok_root [OF kids new])
      ultimately have "walk_inv symbols ?dep (Suc i) ?st"
        using dep roots all old len i
        by (auto simp: walk_inv_def nth_list_update max_outline_depth_def less_Suc_eq)
      then show ?thesis using pop(2) shallow Nil i len
        by (auto simp: nest_step_def set_at_def)
    next
      case (Cons p ps)
      let ?d = "Suc (dep p)"
      let ?kids = "(ns_kids st)[p := ns_kids st ! p @ [i]]"
      let ?st = "st\<lparr>ns_kids := ?kids, ns_kept := ?kept, ns_stack := i # post\<rparr>"
      let ?dep = "dep(i := ?d)"
      have p: "p < i" "p < length symbols" "ns_kept st ! p" "dep p = length post"
        using post(2,3) Cons by auto
      have within: "span_within (symbols ! i) (symbols ! p)" using pop(3) Cons by blast
      have "places_ok symbols ?st" by (rule places_kid [OF places i new p(2)])
      moreover have "stack_ok symbols ?dep (Suc i) ?st"
        using stack_push [OF post(1,2) _ post(3) i len(1), where d = ?d and rs = "ns_roots st" and ks = ?kids] p(4) shallow by simp
      moreover have "kids_ok symbols ?dep ?st"
        by (rule kids_ok_kid [OF kids new len i p(1-3) within])
      ultimately have "walk_inv symbols ?dep (Suc i) ?st"
        using dep roots all old len i p(4) shallow
        by (auto simp: walk_inv_def nth_list_update less_Suc_eq)
      then show ?thesis using pop(2) shallow Cons i len p
        by (auto simp: nest_step_def set_at_def)
    qed
  qed
qed

lemma enumerate_drop: "i < length xs \<Longrightarrow>
    List.enumerate i (drop i xs) = (i, xs ! i) # List.enumerate (Suc i) (drop (Suc i) xs)"
  by (simp add: Cons_nth_drop_Suc [symmetric])

lemma nest_walk_inv:
  "walk_inv symbols dep i st \<Longrightarrow> i \<le> length symbols \<Longrightarrow>
    \<exists>st' dep'. nest_walk symbols st (List.enumerate i (drop i symbols)) = Some st' \<and>
      walk_inv symbols dep' (length symbols) st'"
proof (induction "length symbols - i" arbitrary: i st dep)
  case 0
  then show ?case by auto
next
  case (Suc m)
  then have i: "i < length symbols" by simp
  obtain st1 dep1 where st1: "nest_step symbols st (i, symbols ! i) = Some st1"
    "walk_inv symbols dep1 (Suc i) st1"
    using nest_step_inv [OF Suc.prems(1) i] by blast
  have "m = length symbols - Suc i" using Suc.hyps(2) by simp
  from Suc.hyps(1) [OF this st1(2)] i show ?case
    by (simp add: enumerate_drop [OF i] st1(1))
qed

definition nest_start :: "nat \<Rightarrow> nest_state" where
  "nest_start n = \<lparr>ns_kept = replicate n False, ns_roots = [], ns_kids = replicate n [], ns_stack = []\<rparr>"

lemma walk_inv_start: "walk_inv symbols dep 0 (nest_start (length symbols))"
proof -
  have "kept_set n (replicate n False) = {}" for n by (auto simp: kept_set_def)
  moreover have "concat (replicate n []) = ([] :: nat list)" for n by (induction n) auto
  ultimately show ?thesis
    by (simp add: walk_inv_def places_ok_def kids_ok_def stack_ok_def nest_start_def)
qed

lemma nest_walk_total:
  obtains st dep where
    "nest_walk symbols (nest_start (length symbols)) (List.enumerate 0 symbols) = Some st"
    "walk_inv symbols dep (length symbols) st"
  using nest_walk_inv [OF walk_inv_start, of symbols] by auto

section \<open>The forest the spans describe\<close>

text \<open>
  The reference for \<open>nest\<close>, over the symbols in their order: the container of a symbol is the
  nearest earlier one whose span contains its own, its level the number of its containers, and
  the members of a symbol are those it is the container of, down to the depth bound.
\<close>

definition container :: "spanned list \<Rightarrow> nat \<Rightarrow> nat option" where
  "container ss i = find (\<lambda>j. span_within (ss ! i) (ss ! j)) (rev [0..<i])"

lemma container_Some:
  "container ss i = Some j \<longleftrightarrow> j < i \<and> span_within (ss ! i) (ss ! j) \<and>
     (\<forall>k. j < k \<longrightarrow> k < i \<longrightarrow> \<not> span_within (ss ! i) (ss ! k))"
proof
  assume "container ss i = Some j"
  then obtain n where n: "n < i" "span_within (ss ! i) (ss ! j)" "j = rev [0..<i] ! n"
    "\<forall>m<n. \<not> span_within (ss ! i) (ss ! (rev [0..<i] ! m))"
    unfolding container_def find_Some_iff by auto
  then have j: "j = i - Suc n" by (simp add: rev_nth)
  have "\<not> span_within (ss ! i) (ss ! k)" if "j < k" "k < i" for k
  proof -
    have "i - Suc k < n" "rev [0..<i] ! (i - Suc k) = k" using that n(1) j by (simp_all add: rev_nth)
    then show ?thesis using n(4) by metis
  qed
  with n(1,2) j show "j < i \<and> span_within (ss ! i) (ss ! j) \<and>
     (\<forall>k. j < k \<longrightarrow> k < i \<longrightarrow> \<not> span_within (ss ! i) (ss ! k))" by simp
next
  assume j: "j < i \<and> span_within (ss ! i) (ss ! j) \<and> (\<forall>k. j < k \<longrightarrow> k < i \<longrightarrow> \<not> span_within (ss ! i) (ss ! k))"
  then show "container ss i = Some j"
    unfolding container_def find_Some_iff
    by (intro exI [of _ "i - Suc j"]) (auto simp: rev_nth)
qed

lemma container_None: "container ss i = None \<longleftrightarrow> (\<forall>j<i. \<not> span_within (ss ! i) (ss ! j))"
  by (auto simp: container_def find_None_iff)

lemma container_less: "container ss i = Some j \<Longrightarrow> j < i"
  by (simp add: container_Some)

function level :: "spanned list \<Rightarrow> nat \<Rightarrow> nat" where
  "level ss i = (case container ss i of None \<Rightarrow> 0 | Some j \<Rightarrow> Suc (level ss j))"
  by pat_completeness auto
termination by (relation "measure snd") (auto simp: container_less)

declare level.simps [simp del]

definition members :: "spanned list \<Rightarrow> nat \<Rightarrow> nat list" where
  "members ss i = filter (\<lambda>k. container ss k = Some i \<and> level ss k < max_outline_depth) [Suc i..<length ss]"

function branch :: "spanned list \<Rightarrow> nat \<Rightarrow> document_symbol" where
  "branch ss i = with_children (sp_symbol (ss ! i)) (map (branch ss) (members ss i))"
  by pat_completeness auto
termination by (relation "measure (\<lambda>(ss, i). length ss - i)") (auto simp: members_def)

declare branch.simps [simp del]

definition forest :: "spanned list \<Rightarrow> document_symbol list" where
  "forest ss = map (branch ss) (filter (\<lambda>i. container ss i = None) [0..<length ss])"

text \<open>A symbol and its containers, from the nearest on.\<close>

function ancestry :: "spanned list \<Rightarrow> nat \<Rightarrow> nat list" where
  "ancestry ss i = i # (case container ss i of None \<Rightarrow> [] | Some j \<Rightarrow> ancestry ss j)"
  by pat_completeness auto
termination by (relation "measure snd") (auto simp: container_less)

declare ancestry.simps [simp del]

definition containers :: "spanned list \<Rightarrow> nat \<Rightarrow> nat list" where
  "containers ss i = (case container ss i of None \<Rightarrow> [] | Some j \<Rightarrow> ancestry ss j)"

lemma ancestry_containers: "ancestry ss i = i # containers ss i"
  by (simp add: ancestry.simps [of ss i] containers_def)

lemma containers_None: "container ss i = None \<Longrightarrow> containers ss i = []"
  and containers_Some: "container ss i = Some j \<Longrightarrow> containers ss i = j # containers ss j"
  by (simp_all add: containers_def [of ss i] ancestry_containers)

lemma length_containers: "length (containers ss i) = level ss i"
proof (induction i rule: less_induct)
  case (less i)
  then show ?case
    by (cases "container ss i")
      (simp_all add: containers_None containers_Some level.simps [of ss i] container_less)
qed

lemma ancestry_bound: "x \<in> set (ancestry ss i) \<Longrightarrow> x \<le> i"
proof (induction i rule: less_induct)
  case (less i)
  then show ?case
    by (cases "container ss i") (fastforce simp: ancestry.simps [of ss i] dest: container_less)+
qed

text \<open>Among symbols in order, a container of a later symbol contains what is between them.\<close>

definition in_span_order :: "spanned list \<Rightarrow> bool" where
  "in_span_order ss \<longleftrightarrow> sorted_wrt (\<lambda>a b. sp_start a < sp_start b \<or> sp_start a = sp_start b \<and> sp_end b \<le> sp_end a) ss"

lemma in_span_order_sort: "in_span_order (sort_spans ss)"
proof -
  have "sorted (map (\<lambda>s. (int (sp_start s), - int (sp_end s))) (sort_spans ss))"
    by (simp add: sort_spans_def)
  then show ?thesis
    by (auto simp: in_span_order_def sorted_map less_eq_prod_def elim!: sorted_wrt_mono_rel [rotated])
qed

lemma span_startD: "in_span_order ss \<Longrightarrow> i \<le> j \<Longrightarrow> j < length ss \<Longrightarrow> sp_start (ss ! i) \<le> sp_start (ss ! j)"
  using sorted_wrt_nth_less [of "\<lambda>a b. sp_start a < sp_start b \<or> sp_start a = sp_start b \<and> sp_end b \<le> sp_end a" ss i j]
  by (cases "i = j") (auto simp: in_span_order_def)

lemma between_within:
  assumes "in_span_order ss" "container ss i = Some j" "i < length ss" "j < x" "x < i"
  shows "span_within (ss ! x) (ss ! j)"
proof -
  have "\<not> span_within (ss ! i) (ss ! x)" "span_within (ss ! i) (ss ! j)"
    using assms(2,4,5) by (auto simp: container_Some)
  with span_startD [OF assms(1), of x i] span_startD [OF assms(1), of j x] assms(3-5) show ?thesis
    by (auto simp: span_within_def)
qed

lemma container_ancestry:
  assumes "in_span_order ss" "container ss i = Some j" "i < length ss" "j \<le> x" "x < i"
  shows "\<exists>later. ancestry ss x = later @ ancestry ss j \<and> (\<forall>y\<in>set later. j < y)"
  using assms(4,5)
proof (induction x rule: less_induct)
  case (less x)
  show ?case
  proof (cases "x = j")
    case True
    then show ?thesis by (intro exI [of _ "[]"]) simp
  next
    case False
    then have x: "j < x" using less.prems by simp
    have within: "span_within (ss ! x) (ss ! j)" by (rule between_within [OF assms(1-3) x less.prems(2)])
    then obtain y where y: "container ss x = Some y"
      using container_None [of ss x] x by (cases "container ss x") auto
    have "j \<le> y" using y within x by (meson container_Some not_le)
    moreover have "y < x" using y by (rule container_less)
    ultimately obtain later where "ancestry ss y = later @ ancestry ss j" "\<forall>y\<in>set later. j < y"
      using less.IH [of y] less.prems(2) by auto
    then show ?thesis using x by (intro exI [of _ "x # later"]) (simp add: ancestry.simps [of ss x] y)
  qed
qed

lemma containers_within: "x \<in> set (containers ss i) \<Longrightarrow> span_within (ss ! i) (ss ! x)"
proof (induction i rule: less_induct)
  case (less i)
  then obtain j where j: "container ss i = Some j"
    by (cases "container ss i") (simp_all add: containers_None)
  with less.prems consider "x = j" | "x \<in> set (containers ss j)"
    using containers_Some [OF j] by auto
  then have "x = j \<or> span_within (ss ! j) (ss ! x)"
    using less.IH [OF container_less [OF j]] by cases simp_all
  moreover have "span_within (ss ! i) (ss ! j)" using j by (simp only: container_Some)
  ultimately show ?case by (auto simp: span_within_def)
qed

section \<open>The walk follows it\<close>

text \<open>The stack of the walk is the bottom of the ancestry of the symbol before.\<close>

definition bottom :: "nat list \<Rightarrow> nat list" where
  "bottom xs = drop (length xs - max_outline_depth) xs"

definition before :: "spanned list \<Rightarrow> nat \<Rightarrow> nat list" where
  "before ss i = (if i = 0 then [] else ancestry ss (i - 1))"

lemma pop_until_drops:
  "\<forall>x\<in>set stack. x < length ss \<Longrightarrow>
    pop_until ss s stack = Some (dropWhile (\<lambda>x. \<not> span_within s (ss ! x)) stack)"
  by (induction stack) auto

lemma dropWhile_bottom:
  assumes "\<forall>x\<in>set a. P x" "\<forall>x\<in>set b. \<not> P x"
  shows "dropWhile P (bottom (a @ b)) = bottom b"
proof -
  have "dropWhile P (drop m (a @ b)) = drop (m - length a) b" for m
  proof -
    have "dropWhile P xs = xs" if "\<forall>x\<in>set xs. \<not> P x" for xs using that by (cases xs) auto
    moreover have "\<forall>x\<in>set (drop m a). P x" "\<forall>x\<in>set (drop (m - length a) b). \<not> P x"
      using assms by (auto dest: in_set_dropD)
    ultimately show ?thesis by simp
  qed
  from this [of "length (a @ b) - max_outline_depth"] show ?thesis
    unfolding bottom_def by (simp only: length_append diff_diff_left add.commute [of max_outline_depth] diff_cancel) simp
qed

lemma before_splits:
  assumes "in_span_order ss" "i < length ss"
  shows "\<exists>later. before ss i = later @ containers ss i \<and> (\<forall>x\<in>set later. \<not> span_within (ss ! i) (ss ! x))"
proof (cases "container ss i")
  case None
  have "x < i" if "x \<in> set (before ss i)" for x
    using that ancestry_bound [of x ss "i - 1"] by (auto simp: before_def split: if_splits)
  moreover have "\<forall>j<i. \<not> span_within (ss ! i) (ss ! j)" using None by (simp only: container_None)
  ultimately show ?thesis using None by (intro exI [of _ "before ss i"]) (simp add: containers_def)
next
  case (Some j)
  have j: "j \<le> i - 1" "i - 1 < i" using container_less [OF Some] by simp_all
  obtain later where later: "ancestry ss (i - 1) = later @ ancestry ss j" "\<forall>y\<in>set later. j < y"
    using container_ancestry [OF assms(1) Some assms(2) j] by blast
  have "y < i" if "y \<in> set later" for y
    using ancestry_bound [of y ss "i - 1"] that later(1) j(2) by auto
  with later(2) Some have "\<forall>x\<in>set later. \<not> span_within (ss ! i) (ss ! x)" by (simp add: container_Some)
  with later(1) Some j show ?thesis by (auto simp: before_def containers_def)
qed

lemma pop_before:
  assumes "in_span_order ss" "i < length ss"
  shows "pop_until ss (ss ! i) (bottom (before ss i)) = Some (bottom (containers ss i))"
proof -
  have "x < length ss" if "x \<in> set (bottom (before ss i))" for x
    using in_set_dropD [OF that [unfolded bottom_def]] ancestry_bound [of x ss "i - 1"] assms(2)
    by (auto simp: before_def split: if_splits)
  moreover obtain later where "before ss i = later @ containers ss i" "\<forall>x\<in>set later. \<not> span_within (ss ! i) (ss ! x)"
    using before_splits [OF assms] by blast
  ultimately show ?thesis
    using dropWhile_bottom [of later "\<lambda>x. \<not> span_within (ss ! i) (ss ! x)" "containers ss i"] containers_within
    by (simp add: pop_until_drops)
qed

definition walked :: "spanned list \<Rightarrow> nat \<Rightarrow> nest_state" where
  "walked ss i =
     \<lparr>ns_kept = map (\<lambda>k. k < i \<and> level ss k < max_outline_depth) [0..<length ss],
      ns_roots = filter (\<lambda>k. container ss k = None) [0..<i],
      ns_kids = map (\<lambda>p. filter (\<lambda>k. container ss k = Some p \<and> level ss k < max_outline_depth) [0..<i]) [0..<length ss],
      ns_stack = bottom (before ss i)\<rparr>"

lemma bottom_short: "length xs \<le> max_outline_depth \<Longrightarrow> bottom xs = xs"
  by (simp add: bottom_def)

lemma length_bottom: "length (bottom xs) = min (length xs) max_outline_depth"
  by (simp add: bottom_def)

lemma bottom_Cons: "max_outline_depth \<le> length xs \<Longrightarrow> bottom (x # xs) = bottom xs"
  by (simp add: bottom_def Suc_diff_le)

lemma kept_walked: "i < n \<Longrightarrow> map (\<lambda>k. k < Suc i \<and> P k) [0..<n] = (map (\<lambda>k. k < i \<and> P k) [0..<n])[i := P i]"
  by (rule nth_equalityI) (auto simp: nth_list_update less_Suc_eq)

lemma nest_step_walked:
  assumes "in_span_order ss" "i < length ss"
  shows "nest_step ss (walked ss i) (i, ss ! i) = Some (walked ss (Suc i))"
proof -
  let ?c = "containers ss i"
  have pop: "pop_until ss (ss ! i) (ns_stack (walked ss i)) = Some (bottom ?c)"
    using pop_before [OF assms] by (simp add: walked_def)
  have after: "before ss (Suc i) = i # ?c" by (simp add: before_def ancestry_containers)
  show ?thesis
  proof (cases "level ss i < max_outline_depth")
    case False
    then have deep: "max_outline_depth \<le> length ?c" "container ss i \<noteq> None"
      by (simp_all add: length_containers) (cases "container ss i"; simp add: level.simps [of ss i] max_outline_depth_def)
    have "walked ss (Suc i) = (walked ss i)\<lparr>ns_stack := bottom ?c\<rparr>"
      using False deep by (auto simp: walked_def after bottom_Cons less_Suc_eq)
    then show ?thesis
      using deep(1) by (simp add: nest_step_def pop length_bottom)
  next
    case True
    then have shallow: "bottom ?c = ?c" "length ?c < max_outline_depth" "bottom (before ss (Suc i)) = i # ?c"
      by (simp_all add: bottom_short length_containers after)
    have kept: "set_at (ns_kept (walked ss i)) i True = Some (ns_kept (walked ss (Suc i)))"
      using True assms(2) kept_walked [of i "length ss" "\<lambda>k. level ss k < max_outline_depth"]
      by (simp add: set_at_def walked_def)
    show ?thesis
    proof (cases "container ss i")
      case None
      then show ?thesis
        using shallow kept by (simp add: nest_step_def pop containers_None) (simp add: walked_def)
    next
      case (Some j)
      then have j: "j < length ss" "?c = j # containers ss j"
        using container_less [OF Some] assms(2) by (simp_all add: containers_Some)
      let ?kids = "ns_kids (walked ss i)"
      have "set_at ?kids j (?kids ! j @ [i]) = Some (ns_kids (walked ss (Suc i)))"
        using j(1) True Some by (auto simp: set_at_def walked_def intro!: nth_equalityI simp: nth_list_update)
      moreover have "index ?kids j = Some (?kids ! j)" using j(1) by (simp add: walked_def index_Some_iff)
      ultimately show ?thesis
        using shallow kept j(2) Some by (simp add: nest_step_def pop) (simp add: walked_def)
    qed
  qed
qed

lemma nest_walk_walked:
  "in_span_order ss \<Longrightarrow> i \<le> length ss \<Longrightarrow>
    nest_walk ss (walked ss i) (List.enumerate i (drop i ss)) = Some (walked ss (length ss))"
proof (induction "length ss - i" arbitrary: i)
  case (Suc m)
  then have i: "i < length ss" by simp
  have "m = length ss - Suc i" using Suc.hyps(2) by simp
  from Suc.hyps(1) [OF this Suc.prems(1)] i show ?case
    by (simp add: enumerate_drop [OF i] nest_step_walked [OF Suc.prems(1) i])
qed simp

lemma walked_start: "walked ss 0 = nest_start (length ss)"
  by (simp add: walked_def nest_start_def before_def bottom_def map_replicate_const)

section \<open>The family of the final state\<close>

lemma mset_set_distinct:
  assumes "mset xs = mset_set A" "finite A" shows "distinct xs"
  unfolding distinct_count_atmost_1
proof
  fix a
  have "set xs = A" using arg_cong [OF assms(1), of set_mset] assms(2) by simp
  then show "count (mset xs) a = (if a \<in> set xs then 1 else 0)"
    using assms by (simp add: count_mset_set)
qed

lemma places_distinct: "places_ok symbols st \<Longrightarrow> distinct (ns_roots st @ concat (ns_kids st))"
  by (rule mset_set_distinct [OF _ finite_kept_set]) (simp only: places_ok_def)

lemma places_len:
  "places_ok symbols st \<Longrightarrow> length (ns_kept st) = length symbols \<and> length (ns_kids st) = length symbols"
  by (simp add: places_ok_def)

lemma distinct_concat_nth:
  "distinct (concat xss) \<Longrightarrow> i < length xss \<Longrightarrow> distinct (xss ! i)"
  by (metis concat.simps(2) concat_append distinct_append id_take_nth_drop)

lemma nth_in_take: "i < j \<Longrightarrow> j \<le> length xs \<Longrightarrow> xs ! i \<in> set (take j xs)"
  unfolding in_set_conv_nth by (rule exI [of _ i]) simp

lemma distinct_concat_apart:
  assumes "distinct (concat xss)" "i < length xss" "j < length xss" "k \<in> set (xss ! i)" "k \<in> set (xss ! j)"
  shows "i = j"
proof (rule ccontr)
  assume "i \<noteq> j"
  then consider "i < j" | "j < i" by linarith
  then show False
  proof cases
    case 1
    have "k \<in> set (concat (take j xss))" using nth_in_take [of i j xss] 1 assms(3,4) by auto
    moreover have "concat xss = concat (take j xss) @ xss ! j @ concat (drop (Suc j) xss)"
      using assms(3) by (metis concat.simps(2) concat_append id_take_nth_drop)
    ultimately show False using assms(1,5) by auto
  next
    case 2
    have "k \<in> set (concat (take i xss))" using nth_in_take [of j i xss] 2 assms(2,5) by auto
    moreover have "concat xss = concat (take i xss) @ xss ! i @ concat (drop (Suc i) xss)"
      using assms(2) by (metis concat.simps(2) concat_append id_take_nth_drop)
    ultimately show False using assms(1,4) by auto
  qed
qed

abbreviation bare_symbols :: "spanned list \<Rightarrow> bool" where
  "bare_symbols symbols \<equiv> \<forall>s\<in>set symbols. ds_children (sp_symbol s) = []"

lemma tree_of_kids:
  assumes "kids_ok symbols dep st" "places_ok symbols st" "i < length symbols" "bare_symbols symbols"
  shows "tree_of symbols (ns_kids st) i =
    with_children (sp_symbol (symbols ! i)) (map (tree_of symbols (ns_kids st)) (ns_kids st ! i))"
proof -
  have "filter (\<lambda>k. i < k \<and> k < length (ns_kids st)) (ns_kids st ! i) = ns_kids st ! i"
    using kids_okD(1,2) [OF assms(1,3)] places_len [OF assms(2)] by (simp add: filter_id_conv)
  then show ?thesis
    using assms(3,4) places_len [OF assms(2)]
    by (subst tree_of.simps) (auto simp: with_children_bare)
qed

lemma tree_depth:
  assumes inv: "kids_ok symbols dep st" "places_ok symbols st" "bare_symbols symbols"
    and "\<forall>k<length symbols. ns_kept st ! k \<longrightarrow> dep k \<le> max_outline_depth"
  shows "i < length symbols \<Longrightarrow> ns_kept st ! i \<Longrightarrow>
    ds_depth (tree_of symbols (ns_kids st) i) + dep i \<le> Suc max_outline_depth"
proof (induction "length symbols - i" arbitrary: i rule: less_induct)
  case less
  let ?cs = "map (tree_of symbols (ns_kids st)) (ns_kids st ! i)"
  have le: "dep i \<le> max_outline_depth" using assms(4) less.prems by blast
  have "\<forall>c\<in>set ?cs. ds_depth c \<le> max_outline_depth - dep i"
  proof
    fix c assume "c \<in> set ?cs"
    then obtain k where k: "k \<in> set (ns_kids st ! i)" "c = tree_of symbols (ns_kids st) k" by auto
    note facts = kids_okD [OF inv(1) less.prems(1) k(1)]
    have "ds_depth c + dep k \<le> Suc max_outline_depth"
      unfolding k(2) by (rule less.hyps) (use facts less.prems in auto)
    with facts(6) le show "ds_depth c \<le> max_outline_depth - dep i" by simp
  qed
  then have "ds_depth (tree_of symbols (ns_kids st) i) \<le> Suc (max_outline_depth - dep i)"
    unfolding tree_of_kids [OF inv(1,2) less.prems(1) inv(3)] ds_depth_le
    by (simp add: with_children_def)
  with le show ?case by simp
qed

text \<open>Over the state the walk ends in, it is the branch of the reference.\<close>

lemma kids_walked: "i < length ss \<Longrightarrow> ns_kids (walked ss (length ss)) ! i = members ss i"
proof -
  assume i: "i < length ss"
  have split: "[0..<length ss] = [0..<Suc i] @ [Suc i..<length ss]"
    by (metis upt_add_eq_append [of 0 "Suc i" "length ss - Suc i"] Suc_leI [OF i] le0 le_add_diff_inverse)
  let ?P = "\<lambda>k. container ss k = Some i \<and> level ss k < max_outline_depth"
  have none: "filter ?P [0..<Suc i] = []" by (auto simp: filter_empty_conv dest: container_less)
  have "ns_kids (walked ss (length ss)) ! i = filter ?P [0..<length ss]" using i by (simp add: walked_def)
  also have "\<dots> = filter ?P [Suc i..<length ss]" by (simp only: split filter_append none append_Nil)
  finally show "ns_kids (walked ss (length ss)) ! i = members ss i" by (simp only: members_def)
qed

lemma tree_branch:
  assumes "kids_ok ss dep (walked ss (length ss))" "places_ok ss (walked ss (length ss))" "bare_symbols ss"
  shows "i < length ss \<Longrightarrow> tree_of ss (ns_kids (walked ss (length ss))) i = branch ss i"
proof (induction "length ss - i" arbitrary: i rule: less_induct)
  case less
  have "map (tree_of ss (ns_kids (walked ss (length ss)))) (members ss i) = map (branch ss) (members ss i)"
    by (rule map_cong) (use less.hyps less.prems in \<open>auto simp: members_def\<close>)
  then show ?case
    using tree_of_kids [OF assms(1,2) less.prems assms(3)]
    by (simp only: kids_walked [OF less.prems] branch.simps [of ss i])
qed

text \<open>The symbols down to the depth bound, in their order.\<close>

definition shallow_symbols :: "spanned list \<Rightarrow> document_symbol list" where
  "shallow_symbols ss = map (\<lambda>i. sp_symbol (ss ! i)) (filter (\<lambda>i. level ss i < max_outline_depth) [0..<length ss])"

lemma shallow_kept:
  "map (sp_symbol \<circ> fst) (filter snd (zip ss (ns_kept (walked ss (length ss))))) = shallow_symbols ss"
proof -
  have "zip (map ((!) ss) ks) (map f ks) = map (\<lambda>k. (ss ! k, f k)) ks" for ks and f :: "nat \<Rightarrow> bool"
    by (induction ks) simp_all
  from this [of "[0..<length ss]" "\<lambda>k. k < length ss \<and> level ss k < max_outline_depth"]
  have "zip ss (ns_kept (walked ss (length ss))) =
      map (\<lambda>k. (ss ! k, k < length ss \<and> level ss k < max_outline_depth)) [0..<length ss]"
    by (simp add: walked_def map_nth)
  then show ?thesis by (auto simp: shallow_symbols_def filter_map comp_def intro!: arg_cong [where f = "map _"] filter_cong)
qed

section \<open>Assembly\<close>

lemma take_slots_Some:
  "distinct ks \<Longrightarrow> \<forall>k\<in>set ks. k < length slots \<and> slots ! k = Some (f k) \<Longrightarrow>
    \<exists>slots'. take_slots ks slots = Some (map f ks, slots') \<and> length slots' = length slots \<and>
      (\<forall>k<length slots. slots' ! k = (if k \<in> set ks then None else slots ! k))"
proof (induction ks arbitrary: slots)
  case Nil
  then show ?case by simp
next
  case (Cons k ks)
  have "\<forall>j\<in>set ks. j < length (slots[k := None]) \<and> slots[k := None] ! j = Some (f j)"
    using Cons.prems by (metis distinct.simps(2) length_list_update list.set_intros(2) nth_list_update_neq)
  from Cons.IH [OF _ this] Cons.prems obtain slots' where s': "take_slots ks (slots[k := None]) = Some (map f ks, slots')"
    "length slots' = length slots"
    "\<forall>j<length slots. slots' ! j = (if j \<in> set ks then None else slots[k := None] ! j)" by auto
  have "slots' ! j = (if j \<in> set (k # ks) then None else slots ! j)" if "j < length slots" for j
    using s'(3) that by (cases "j = k") auto
  with s' Cons.prems show ?case by auto
qed

text \<open>The nodes in the slots: taking and filling moves them, and loses none.\<close>

definition slot_nodes :: "document_symbol option list \<Rightarrow> document_symbol multiset" where
  "slot_nodes slots = mset (concat (map (\<lambda>o0. case o0 of None \<Rightarrow> [] | Some s \<Rightarrow> ds_nodes s) slots))"

abbreviation opt_nodes :: "document_symbol option \<Rightarrow> document_symbol multiset" where
  "opt_nodes o0 \<equiv> (case o0 of None \<Rightarrow> {#} | Some s \<Rightarrow> mset (ds_nodes s))"

lemma slot_nodes_Cons: "slot_nodes (x # xs) = opt_nodes x + slot_nodes xs"
  by (simp add: slot_nodes_def split: option.splits)

lemma slot_nodes_update:
  "i < length xs \<Longrightarrow> slot_nodes (xs[i := y]) + opt_nodes (xs ! i) = slot_nodes xs + opt_nodes y"
proof (induction xs arbitrary: i)
  case Nil
  then show ?case by simp
next
  case (Cons x xs)
  then show ?case
    by (cases i) (auto simp: slot_nodes_Cons ac_simps)
qed

lemma take_slots_nodes:
  "take_slots ks slots = Some (cs, slots') \<Longrightarrow>
    mset (concat (map ds_nodes cs)) + slot_nodes slots' = slot_nodes slots"
proof (induction ks arbitrary: slots cs)
  case Nil
  then show ?case by simp
next
  case (Cons k ks)
  from Cons.prems obtain slot taken where k: "index slots k = Some slot"
    "take_slots ks (slots[k := None]) = Some (taken, slots')"
    "cs = (case slot of None \<Rightarrow> taken | Some s \<Rightarrow> s # taken)"
    by (auto split: Option.bind_splits)
  have "slot_nodes (slots[k := None]) + opt_nodes slot = slot_nodes slots"
    using slot_nodes_update [of k slots None] k(1) by (simp add: index_Some_iff)
  moreover have "mset (concat (map ds_nodes cs)) = opt_nodes slot + mset (concat (map ds_nodes taken))"
    using k(3) by (simp split: option.splits)
  ultimately show ?case using Cons.IH [OF k(2)] by (metis add.assoc add.commute)
qed

text \<open>The slots once the symbols from \<open>j\<close> on have their children.\<close>

definition slots_inv :: "spanned list \<Rightarrow> nest_state \<Rightarrow> nat \<Rightarrow> document_symbol option list \<Rightarrow> bool" where
  "slots_inv symbols st j slots \<longleftrightarrow> length slots = length symbols \<and>
     (\<forall>k<length symbols. slots ! k =
        (if \<not> ns_kept st ! k \<or> (\<exists>p<length symbols. j \<le> p \<and> k \<in> set (ns_kids st ! p)) then None
         else if j \<le> k then Some (tree_of symbols (ns_kids st) k) else Some (sp_symbol (symbols ! k))))"

lemma assemble_step_inv:
  assumes kids: "kids_ok symbols dep st" and places: "places_ok symbols st" and bare: "bare_symbols symbols"
    and slots: "slots_inv symbols st (Suc i) slots" and i: "i < length symbols"
  shows "\<exists>slots'. assemble_step (ns_kids st) i slots = Some slots' \<and> slots_inv symbols st i slots' \<and>
    slot_nodes slots' = slot_nodes slots"
proof -
  let ?ks = "ns_kids st ! i" and ?tree = "tree_of symbols (ns_kids st)"
  have len: "length (ns_kids st) = length symbols" "length (ns_kept st) = length symbols"
    using places_len [OF places] by simp_all
  have dist: "distinct (concat (ns_kids st))" using places_distinct [OF places] by simp
  have mine: "p = i" if "p < length symbols" "k \<in> set (ns_kids st ! p)" "k \<in> set ?ks" for p k
    using distinct_concat_apart [OF dist, of p i k] that i len by simp
  have parent: "p < i" if "p < length symbols" "i \<in> set (ns_kids st ! p)" for p
    by (rule kids_okD(1) [OF kids that])
  have slot: "slots ! k = (if \<not> ns_kept st ! k \<or> (\<exists>p<length symbols. Suc i \<le> p \<and> k \<in> set (ns_kids st ! p)) then None
         else if Suc i \<le> k then Some (?tree k) else Some (sp_symbol (symbols ! k)))" if "k < length symbols" for k
    using slots that unfolding slots_inv_def by blast
  have taken: "\<forall>k\<in>set ?ks. k < length slots \<and> slots ! k = Some (?tree k)"
  proof
    fix k assume k: "k \<in> set ?ks"
    note facts = kids_okD [OF kids i k]
    have "\<not> (\<exists>p<length symbols. Suc i \<le> p \<and> k \<in> set (ns_kids st ! p))" using mine k Suc_n_not_le_n by blast
    with slot [OF facts(2)] facts have "slots ! k = Some (?tree k)" by simp
    with facts(2) slots show "k < length slots \<and> slots ! k = Some (?tree k)" by (simp add: slots_inv_def)
  qed
  have di: "distinct ?ks" by (rule distinct_concat_nth [OF dist]) (simp add: i len)
  obtain slots1 where s1: "take_slots ?ks slots = Some (map ?tree ?ks, slots1)" "length slots1 = length slots"
    "\<forall>k<length slots. slots1 ! k = (if k \<in> set ?ks then None else slots ! k)"
    using take_slots_Some [OF di taken] by blast
  have notself: "i \<notin> set ?ks" using kids_okD(1) [OF kids i] by blast
  have at_i: "slots ! i = (if ns_kept st ! i then Some (sp_symbol (symbols ! i)) else None)"
    using slot [OF i] parent by fastforce
  have kept_i: "ns_kept st ! i" if "?ks \<noteq> []"
    using kids_okD(4) [OF kids i, of "hd ?ks"] that by simp
  let ?new = "if ns_kept st ! i then slots1[i := Some (?tree i)] else slots1"
  have final: "slots_inv symbols st i ?new"
    unfolding slots_inv_def
  proof (intro conjI allI impI)
    show "length ?new = length symbols" using s1(2) slots by (simp add: slots_inv_def)
    fix k assume k: "k < length symbols"
    then have k': "k < length slots" using slots by (simp add: slots_inv_def)
    show "?new ! k = (if \<not> ns_kept st ! k \<or> (\<exists>p<length symbols. i \<le> p \<and> k \<in> set (ns_kids st ! p)) then None
         else if i \<le> k then Some (?tree k) else Some (sp_symbol (symbols ! k)))"
    proof (cases "k = i")
      case True
      have "\<not> (\<exists>p<length symbols. i \<le> p \<and> i \<in> set (ns_kids st ! p))" using parent by fastforce
      with True s1(2,3) k' notself at_i show ?thesis by auto
    next
      case False
      have "(\<exists>p<length symbols. i \<le> p \<and> k \<in> set (ns_kids st ! p)) \<longleftrightarrow>
          k \<in> set ?ks \<or> (\<exists>p<length symbols. Suc i \<le> p \<and> k \<in> set (ns_kids st ! p))"
        using i by (metis Suc_leD Suc_leI le_neq_implies_less order_refl)
      with False s1(3) k' slot [OF k] show ?thesis by auto
    qed
  qed
  show ?thesis
  proof (cases "?ks = []")
    case True
    have "slots1 = slots" using s1(1) True by simp
    moreover have "?tree i = sp_symbol (symbols ! i)"
      using tree_of_kids [OF kids places i bare] True bare i by (simp add: with_children_bare)
    ultimately have "?new = slots" using at_i by (metis list_update_id)
    moreover have "assemble_step (ns_kids st) i slots = Some slots"
      using True i len by (simp add: assemble_step_def)
    ultimately show ?thesis using final by auto
  next
    case False
    let ?b = "sp_symbol (symbols ! i)"
    have b: "ds_children ?b = []" using bare i by simp
    have s1i: "slots1 ! i = Some ?b"
      using s1(3) slots i notself at_i kept_i [OF False] by (simp add: slots_inv_def)
    have "slot_nodes ?new + {#?b#} = slot_nodes slots1 + mset (ds_nodes (?tree i))"
      using slot_nodes_update [of i slots1 "Some (?tree i)"] s1i i slots s1(2) kept_i [OF False] b
      by (simp add: slots_inv_def ds_nodes_bare)
    moreover have "mset (ds_nodes (?tree i)) = {#?b#} + mset (concat (map ds_nodes (map ?tree ?ks)))"
      unfolding tree_of_kids [OF kids places i bare] ds_nodes_with_children with_children_bare [OF b] by simp
    ultimately have nodes: "slot_nodes ?new = slot_nodes slots"
      using take_slots_nodes [OF s1(1)] by (simp add: ac_simps)
    from s1i have "assemble_step (ns_kids st) i slots = Some ?new"
      using False i len s1(1,2) slots kept_i [OF False] tree_of_kids [OF kids places i bare]
      by (simp add: assemble_step_def slots_inv_def)
    with final nodes show ?thesis by blast
  qed
qed

lemma assemble_inv:
  assumes "kids_ok symbols dep st" "places_ok symbols st" "bare_symbols symbols"
  shows "i \<le> length symbols \<Longrightarrow> slots_inv symbols st i slots \<Longrightarrow>
    \<exists>slots'. assemble (ns_kids st) (rev [0..<i]) slots = Some slots' \<and> slots_inv symbols st 0 slots' \<and>
      slot_nodes slots' = slot_nodes slots"
proof (induction i arbitrary: slots)
  case 0
  then show ?case by simp
next
  case (Suc i)
  then obtain s1 where "assemble_step (ns_kids st) i slots = Some s1" "slots_inv symbols st i s1"
    "slot_nodes s1 = slot_nodes slots"
    using assemble_step_inv [OF assms Suc.prems(2)] by auto
  with Suc.IH [OF _ this(2)] Suc.prems(1) show ?case by auto
qed

lemma slots_start:
  assumes "kids_ok symbols dep st" "places_ok symbols st"
  shows "slots_inv symbols st (length symbols)
    (map2 (\<lambda>s kept. if kept then Some (sp_symbol s) else None) symbols (ns_kept st))"
  using places_len [OF assms(2)] by (auto simp: slots_inv_def)

lemma slot_nodes_start:
  assumes "length kept = length symbols" "bare_symbols symbols"
  shows "slot_nodes (map2 (\<lambda>s k. if k then Some (sp_symbol s) else None) symbols kept) =
    mset (map (sp_symbol \<circ> fst) (filter snd (zip symbols kept)))"
  using assms
proof (induction kept symbols rule: list_induct2)
  case Nil
  show ?case by (simp add: slot_nodes_def)
next
  case (Cons k kept s symbols)
  then show ?case by (auto simp: slot_nodes_Cons ds_nodes_bare)
qed

lemma slot_nodes_None: "\<forall>x\<in>set slots. x = None \<Longrightarrow> slot_nodes slots = {#}"
  by (induction slots) (auto simp: slot_nodes_Cons, simp add: slot_nodes_def)

lemma set_sort_spans [simp]: "set (sort_spans xs) = set xs" "length (sort_spans xs) = length xs"
  by (simp_all add: sort_spans_def)

lemma filter_zip_all: "length kept = length xs \<Longrightarrow> \<forall>k<length xs. kept ! k \<Longrightarrow> map fst (filter snd (zip xs kept)) = xs"
proof (induction kept xs rule: list_induct2)
  case (Cons k kept x xs)
  from Cons.prems have "k" "\<forall>j<length xs. kept ! j" by (force, force)
  with Cons.IH show ?case by simp
qed simp

text \<open>What \<open>nest\<close> returns.\<close>

lemma nest_result:
  assumes bare: "bare_symbols ss"
  obtains out where "nest ss = Some out"
    "\<forall>t\<in>set out. ds_depth t \<le> max_outline_depth"
    "out = forest (sort_spans ss)" "mset (concat (map ds_nodes out)) = mset (shallow_symbols (sort_spans ss))"
    "mset (concat (map ds_nodes out)) \<subseteq># mset (map sp_symbol ss)"
    "length ss \<le> max_outline_depth \<Longrightarrow> mset (concat (map ds_nodes out)) = mset (map sp_symbol ss)"
proof -
  let ?sy = "sort_spans ss"
  have bare': "bare_symbols ?sy" using bare by simp
  obtain st dep where walk: "nest_walk ?sy (nest_start (length ?sy)) (List.enumerate 0 ?sy) = Some st"
    and inv: "walk_inv ?sy dep (length ?sy) st"
    by (rule nest_walk_total)
  have kids: "kids_ok ?sy dep st" and places: "places_ok ?sy st"
    and dep: "\<forall>k<length ?sy. ns_kept st ! k \<longrightarrow> dep k \<le> max_outline_depth"
    and roots: "\<forall>r\<in>set (ns_roots st). dep r = 1"
    and all: "length ?sy \<le> max_outline_depth \<longrightarrow> (\<forall>k<length ?sy. ns_kept st ! k)"
    using inv unfolding walk_inv_def by blast+
  have st: "st = walked ?sy (length ?sy)"
    using walk nest_walk_walked [OF in_span_order_sort, of 0 ss] by (simp add: walked_start)
  let ?start = "map2 (\<lambda>s kept. if kept then Some (sp_symbol s) else None) ?sy (ns_kept st)"
  let ?tree = "tree_of ?sy (ns_kids st)"
  obtain slots where asm: "assemble (ns_kids st) (rev [0..<length ?sy]) ?start = Some slots"
    and sl: "slots_inv ?sy st 0 slots" and nodes: "slot_nodes slots = slot_nodes ?start"
    using assemble_inv [OF kids places bare' order_refl slots_start [OF kids places]] by blast
  have dist: "distinct (ns_roots st)" "set (ns_roots st) \<inter> set (concat (ns_kids st)) = {}"
    using places_distinct [OF places] by auto
  have elems: "set (ns_roots st) \<union> set (concat (ns_kids st)) = kept_set (length ?sy) (ns_kept st)"
    using places_set [OF places] by simp
  have in_kids: "k \<in> set (concat (ns_kids st)) \<longleftrightarrow> (\<exists>p<length ?sy. k \<in> set (ns_kids st ! p))" for k
    using places_len [OF places] unfolding set_concat by (auto simp: set_conv_nth [of "ns_kids st"])
  have slot: "slots ! k = (if \<not> ns_kept st ! k \<or> k \<in> set (concat (ns_kids st)) then None else Some (?tree k))"
    if "k < length ?sy" for k
    using sl that unfolding slots_inv_def in_kids by simp
  have len: "length slots = length ?sy" using sl by (simp only: slots_inv_def)
  have rk: "r < length ?sy \<and> ns_kept st ! r \<and> r \<notin> set (concat (ns_kids st))" if "r \<in> set (ns_roots st)" for r
    using that elems dist(2) by (auto simp: kept_set_def)
  have taken: "\<forall>r\<in>set (ns_roots st). r < length slots \<and> slots ! r = Some (?tree r)"
    using rk slot len by simp
  obtain slots' where fin: "take_slots (ns_roots st) slots = Some (map ?tree (ns_roots st), slots')"
    "length slots' = length slots"
    "\<forall>k<length slots. slots' ! k = (if k \<in> set (ns_roots st) then None else slots ! k)"
    using take_slots_Some [OF dist(1) taken] by blast
  have "slots' ! k = None" if "k < length slots" for k
  proof (cases "ns_kept st ! k \<and> k \<notin> set (concat (ns_kids st))")
    case True
    then have "k \<in> set (ns_roots st)" using elems that len by (auto simp: kept_set_def)
    with fin(3) that show ?thesis by simp
  next
    case False
    with fin(3) that slot [of k] len show ?thesis by auto
  qed
  then have "slot_nodes slots' = {#}"
    by (intro slot_nodes_None) (metis fin(2) in_set_conv_nth)
  then have out_nodes: "mset (concat (map ds_nodes (map ?tree (ns_roots st)))) =
      mset (map (sp_symbol \<circ> fst) (filter snd (zip ?sy (ns_kept st))))"
    using take_slots_nodes [OF fin(1)] nodes slot_nodes_start [OF _ bare', of "ns_kept st"] places_len [OF places]
    by simp
  have res: "nest ss = Some (map ?tree (ns_roots st))"
    using walk asm fin(1) by (simp add: nest_def Let_def nest_start_def)
  moreover have "\<forall>t\<in>set (map ?tree (ns_roots st)). ds_depth t \<le> max_outline_depth"
    using tree_depth [OF kids places bare' dep] rk roots by fastforce
  moreover have "map ?tree (ns_roots st) = forest ?sy"
    using tree_branch [of ?sy dep] kids places bare' unfolding st by (auto simp: forest_def walked_def)
  moreover have "mset (concat (map ds_nodes (map ?tree (ns_roots st)))) = mset (shallow_symbols ?sy)"
    using out_nodes unfolding st shallow_kept .
  moreover have "mset (map (sp_symbol \<circ> fst) (filter snd (zip ?sy (ns_kept st)))) \<subseteq># mset (map sp_symbol ss)"
  proof -
    have "mset (filter snd (zip ?sy (ns_kept st))) \<subseteq># mset (zip ?sy (ns_kept st))" by simp
    then have "mset (map (sp_symbol \<circ> fst) (filter snd (zip ?sy (ns_kept st)))) \<subseteq>#
        mset (map (sp_symbol \<circ> fst) (zip ?sy (ns_kept st)))"
      by (metis image_mset_subseteq_mono mset_map)
    also have "mset (map (sp_symbol \<circ> fst) (zip ?sy (ns_kept st))) = mset (map sp_symbol ss)"
      using places_len [OF places] by (simp add: sort_spans_def flip: map_map)
    finally show ?thesis .
  qed
  moreover have "mset (map (sp_symbol \<circ> fst) (filter snd (zip ?sy (ns_kept st)))) = mset (map sp_symbol ss)"
    if "length ss \<le> max_outline_depth"
    using filter_zip_all [of "ns_kept st" ?sy] all that places_len [OF places]
    by (simp add: sort_spans_def flip: map_map)
  ultimately show thesis using that [of "map ?tree (ns_roots st)"] out_nodes by simp
qed

section \<open>From the events to the forest\<close>

text \<open>A token's position, and the symbol of a closed rule, each without the cursors.\<close>

definition token_position :: "doc \<Rightarrow> token_point \<Rightarrow> position" where
  "token_position d t = Position (wire (min (tp_ri t - 1) (length (line_starts d) - 1)))
     (wire (unwrap_or (ocolumns_answer d (tp_si t, tp_ci t)) 0))"

definition symbol_of :: "doc \<Rightarrow> closed_symbol \<Rightarrow> document_symbol" where
  "symbol_of d x = (case x of (label, o0, e) \<Rightarrow>
     let start = token_position d o0; stop = token_position d e in
     Symbol label (symbol_kind label)
       (Range start (Position (pos_line stop)
          (u32_sat_add (pos_character stop) (wire (max (measure_text (doc_encoding d) (tp_src e)) 1)))))
       (range_empty start) [])"

lemma outline_position_good:
  assumes "ocolumns_good d cols" "line_starts d \<noteq> []"
  obtains cols' where "outline_position cols t = (Some (token_position d t), cols')" "ocolumns_good d cols'"
proof -
  obtain n where n: "ocolumns_answer d (tp_si t, tp_ci t) = Some n" using ocolumns_answer_Some by blast
  have lines: "ol_lines cols = length (line_starts d)" using assms(1) by (simp add: ocolumns_good_def)
  obtain ch cols' where q: "outline_column cols (tp_si t, tp_ci t) = (ch, cols')" by force
  with outline_column_good [OF assms(1), of "(tp_si t, tp_ci t)"] n
  have "ch = Some n" "ocolumns_good d cols'" by simp_all
  with q lines assms(2) that [of cols'] n show thesis
    by (simp add: outline_position_def checked_sub_def token_position_def unwrap_or_def Suc_le_eq)
qed

lemma measure_sites_Some:
  assumes "ocolumns_good d cols" "line_starts d \<noteq> []" "distinct (map fst sites)"
    "\<forall>x\<in>set sites. fst x < length positions"
  shows "\<exists>ps. measure_sites cols positions sites = Some ps \<and> length ps = length positions \<and>
    (\<forall>(slot, t)\<in>set sites. ps ! slot = token_position d t) \<and>
    (\<forall>k<length positions. k \<notin> set (map fst sites) \<longrightarrow> ps ! k = positions ! k)"
  using assms(1,3,4)
proof (induction sites arbitrary: cols positions)
  case Nil
  then show ?case by simp
next
  case (Cons x sites)
  obtain slot t where x: "x = (slot, t)" by force
  obtain cols' where q: "outline_position cols t = (Some (token_position d t), cols')" "ocolumns_good d cols'"
    by (rule outline_position_good [OF Cons.prems(1) assms(2)])
  let ?p = "positions[slot := token_position d t]"
  have slot: "slot < length positions" "slot \<notin> set (map fst sites)" using Cons.prems x by auto
  obtain ps where ps: "measure_sites cols' ?p sites = Some ps" "length ps = length positions"
    "\<forall>(slot, t)\<in>set sites. ps ! slot = token_position d t"
    "\<forall>k<length positions. k \<notin> set (map fst sites) \<longrightarrow> ps ! k = ?p ! k"
    using Cons.IH [OF q(2), of ?p] Cons.prems by auto
  have "ps ! slot = token_position d t" using ps(4) slot by simp
  with ps q slot x show ?case by (simp add: set_at_def)
qed

lemma outline_sites_set:
  "(slot, t) \<in> set (outline_sites closed) \<longleftrightarrow>
    (\<exists>n label o0 e. n < length closed \<and> closed ! n = (label, o0, e) \<and>
      ((slot = 2 * n \<and> t = o0) \<or> (slot = 2 * n + 1 \<and> t = e)))"
  by (force simp: outline_sites_def in_set_enumerate_eq)

lemma outline_slots:
  "distinct (map fst (concat (map (\<lambda>(n, (label, o0, e)). [(2 * n, o0), (2 * n + 1, e)]) (List.enumerate k (closed :: closed_symbol list))))) \<and>
   (\<forall>x\<in>set (concat (map (\<lambda>(n, (label, o0, e)). [(2 * n, o0), (2 * n + 1, e)]) (List.enumerate k closed))). 2 * k \<le> fst x)"
proof (induction closed arbitrary: k)
  case Nil
  then show ?case by simp
next
  case (Cons c closed)
  obtain label o0 e where c: "c = (label, o0, e)" by (metis surj_pair)
  let ?rest = "concat (map (\<lambda>(n, (label, o0, e)). [(2 * n, o0), (2 * n + 1, e)]) (List.enumerate (Suc k) closed))"
  have ih: "distinct (map fst ?rest)" "\<And>x. x \<in> set ?rest \<Longrightarrow> 2 * Suc k \<le> fst x"
    using Cons [of "Suc k"] by blast+
  have split: "concat (map (\<lambda>(n, (label, o0, e)). [(2 * n, o0), (2 * n + 1, e)]) (List.enumerate k (c # closed))) =
      (2 * k, o0) # (2 * k + 1, e) # ?rest"
    by (simp add: c)
  have out: "2 * k \<notin> fst ` set ?rest" "2 * k + 1 \<notin> fst ` set ?rest"
    using ih(2) by fastforce+
  have le: "\<forall>x\<in>set ?rest. 2 * k \<le> fst x" using ih(2) by fastforce
  have gen: "distinct (map fst (x # y # zs)) \<and> (\<forall>z\<in>set (x # y # zs). m \<le> fst z)"
    if "fst x \<noteq> fst y" "fst x \<notin> fst ` set zs" "fst y \<notin> fst ` set zs" "distinct (map fst zs)"
      "m \<le> fst x" "m \<le> fst y" "\<forall>z\<in>set zs. m \<le> fst z"
    for x y :: "nat \<times> token_point" and zs m
    using that by auto
  show ?case unfolding split by (rule gen) (use ih(1) out le in simp_all)
qed

lemma outline_sites_distinct: "distinct (map fst (outline_sites closed))"
  using outline_slots [of 0 closed] unfolding outline_sites_def by (simp add: distinct_map)

lemma outline_symbols:
  assumes "line_starts d \<noteq> []"
  obtains positions symbols where
    "measure_sites (outline_columns_new d) (replicate (2 * length closed) (Position 0 0)) (outline_sites closed) = Some positions"
    "all_some (spanned_of d positions) (List.enumerate 0 closed) = Some symbols"
    "map sp_symbol symbols = map (symbol_of d) closed"
proof -
  have "\<forall>x\<in>set (outline_sites closed). fst x < 2 * length closed"
    by (auto simp: outline_sites_set)
  then obtain ps where ps: "measure_sites (outline_columns_new d) (replicate (2 * length closed) (Position 0 0)) (outline_sites closed) = Some ps"
    "length ps = 2 * length closed" "\<forall>(slot, t)\<in>set (outline_sites closed). ps ! slot = token_position d t"
    using measure_sites_Some [OF ocolumns_good_new assms outline_sites_distinct, of closed "replicate (2 * length closed) (Position 0 0)"]
    by auto
  let ?g = "\<lambda>(n, label, o0, e). \<lparr>sp_symbol = symbol_of d (label, o0, e), sp_start = tp_si o0, sp_end = tp_si e\<rparr>"
  have "\<forall>x\<in>set (List.enumerate 0 closed). spanned_of d ps x = Some (?g x)"
  proof
    fix x assume "x \<in> set (List.enumerate 0 closed)"
    then obtain n label o0 e where x: "x = (n, label, o0, e)" "n < length closed" "closed ! n = (label, o0, e)"
      unfolding in_set_enumerate_eq by (metis add.right_neutral minus_nat.diff_0 prod.collapse)
    have "(2 * n, o0) \<in> set (outline_sites closed)" "(2 * n + 1, e) \<in> set (outline_sites closed)"
      unfolding outline_sites_set using x by auto
    then have "ps ! (2 * n) = token_position d o0" "ps ! (2 * n + 1) = token_position d e"
      using ps(3) by auto
    moreover have "encoded_len s enc = measure_text enc s" for s enc
      by (simp add: encoded_len_def measure_text_def utf16_len_def split: position_encoding.splits)
    ultimately show "spanned_of d ps x = Some (?g x)"
      using x ps(2) by (simp add: spanned_of_def symbol_of_def Let_def)
  qed
  from all_some_map [OF this] have "all_some (spanned_of d ps) (List.enumerate 0 closed) = Some (map ?g (List.enumerate 0 closed))" .
  moreover have "map sp_symbol (map ?g (List.enumerate 0 closed)) = map (symbol_of d) closed"
    by (rule nth_equalityI) (auto simp: nth_enumerate_eq split: prod.splits)
  ultimately show thesis using that ps(1) by blast
qed

lemma outline_result:
  assumes "index_ok d"
  shows "\<exists>out. outline events entry d = Some out \<and> (\<forall>t\<in>set out. ds_depth t \<le> 256) \<and>
    mset (concat (map ds_nodes out)) \<subseteq># mset (map (symbol_of d) (closed_symbols (outline_rules entry) events)) \<and>
    (length (closed_symbols (outline_rules entry) events) \<le> 256 \<longrightarrow>
      mset (concat (map ds_nodes out)) = mset (map (symbol_of d) (closed_symbols (outline_rules entry) events)))"
proof -
  let ?closed = "closed_symbols (outline_rules entry) events"
  have "line_starts d \<noteq> []" using assms by (simp add: line_starts_ok line_starts_of_def)
  then obtain positions symbols where ps: "measure_sites (outline_columns_new d)
      (replicate (2 * length ?closed) (Position 0 0)) (outline_sites ?closed) = Some positions"
    "all_some (spanned_of d positions) (List.enumerate 0 ?closed) = Some symbols"
    "map sp_symbol symbols = map (symbol_of d) ?closed"
    by (rule outline_symbols)
  have "\<forall>s\<in>set (map sp_symbol symbols). ds_children s = []"
    unfolding ps(3) by (auto simp: symbol_of_def Let_def)
  then have bare: "bare_symbols symbols" by simp
  have len: "length symbols = length ?closed" using arg_cong [OF ps(3), of length] by simp
  obtain out where out: "nest symbols = Some out" "\<forall>t\<in>set out. ds_depth t \<le> max_outline_depth"
    "mset (concat (map ds_nodes out)) \<subseteq># mset (map sp_symbol symbols)"
    "length symbols \<le> max_outline_depth \<Longrightarrow> mset (concat (map ds_nodes out)) = mset (map sp_symbol symbols)"
    using nest_result [OF bare] by metis
  from ps(1,2) out(1) have "outline events entry d = Some out"
    by (simp add: outline_def Let_def)
  with out ps(3) len show ?thesis by (simp add: max_outline_depth_def)
qed

lemma outline_total:
  "index_ok d \<Longrightarrow> \<exists>out. outline events entry d = Some out \<and> (\<forall>t\<in>set out. ds_depth t \<le> max_outline_depth)"
  unfolding max_outline_depth_def using outline_result by blast

section \<open>Properties\<close>

text \<open>
  C18: the outline of any parse exists, is shallow and is honest. Whatever rule events a parse
  announced, the outline is computed without a panic, no symbol is deeper than 256 levels,
  and its symbols are among the closed rules, each with the range measured from its open and
  end tokens; while at most 256 rules closed, every one of them is there.
\<close>

theorem outline_bounded:
  assumes "index_ok d"
  shows "\<exists>out. outline events entry d = Some out \<and> (\<forall>t\<in>set out. ds_depth t \<le> 256) \<and>
    mset (concat (map ds_nodes out)) \<subseteq># mset (map (symbol_of d) (closed_symbols (outline_rules entry) events)) \<and>
    (length (closed_symbols (outline_rules entry) events) \<le> 256 \<longrightarrow>
      mset (concat (map ds_nodes out)) = mset (map (symbol_of d) (closed_symbols (outline_rules entry) events)))"
  by (rule outline_result [OF assms])

definition sample_event :: "nat \<Rightarrow> string \<Rightarrow> nat \<Rightarrow> rule_event list" where
  "sample_event i rule si = (let t = \<lparr>tp_name = [], tp_si = si, tp_ri = 1, tp_ci = si + 1, tp_len = 1, tp_src = [123]\<rparr>
     in [\<lparr>ev_i = i, ev_name = str rule, ev_state = EvOpen, ev_forced = False, ev_r = [], ev_o0 = Some t, ev_c0 = None\<rparr>])"

definition sample_close :: "nat \<Rightarrow> string \<Rightarrow> nat \<Rightarrow> rule_event list" where
  "sample_close i rule si = (let t = \<lparr>tp_name = [], tp_si = si, tp_ri = 1, tp_ci = si + 1, tp_len = 1, tp_src = [125]\<rparr>
     in [\<lparr>ev_i = i, ev_name = str rule, ev_state = EvClose, ev_forced = False, ev_r = [], ev_o0 = None, ev_c0 = Some t\<rparr>])"

theorem outline_bounded_witness:
  "\<exists>t. outline (sample_event 1 ''map'' 0 @ sample_event 2 ''map'' 1 @ sample_close 2 ''map'' 2 @ sample_close 1 ''map'' 3)
      None (doc_new [] [] 1 [123, 123, 125, 125]) = Some [t] \<and> length (ds_nodes t) = 2 \<and> ds_depth t = 2 \<and>
    mset (ds_nodes t) = mset (map (symbol_of (doc_new [] [] 1 [123, 123, 125, 125]))
      (closed_symbols (outline_rules None)
        (sample_event 1 ''map'' 0 @ sample_event 2 ''map'' 1 @ sample_close 2 ''map'' 2 @ sample_close 1 ''map'' 3)))"
proof -
  let ?es = "sample_event 1 ''map'' 0 @ sample_event 2 ''map'' 1 @ sample_close 2 ''map'' 2 @ sample_close 1 ''map'' 3"
  let ?d = "doc_new [] [] 1 [123, 123, 125, 125]"
  have few: "length (closed_symbols (outline_rules None) ?es) \<le> 256" by code_simp
  have "map_option (map (\<lambda>t. (length (ds_nodes t), ds_depth t))) (outline ?es None ?d) = Some [(2, 2)]" by code_simp
  then obtain t where t: "outline ?es None ?d = Some [t]" "length (ds_nodes t) = 2" "ds_depth t = 2" by auto
  with outline_bounded [OF index_ok_new, of ?es None "[]" "[]" 1 "[123, 123, 125, 125]"] few show ?thesis by auto
qed





text \<open>
  The outline's columns are those of walking back. Whatever positions are asked, in
  whatever order, the forward cursors answer the wire length of the last \<open>ci - 1\<close>
  characters before the token, and no query panics.
\<close>

theorem outline_columns_walk_back:
  "fst (run_steps outline_column (outline_columns_new d) qs) =
     map (\<lambda>(si, ci). outline_walk_back d (boundary_at_or_before (doc_text d) si) (ci - 1)) qs \<and>
   None \<notin> set (fst (run_steps outline_column (outline_columns_new d) qs))"
proof -
  have "fst (run_steps outline_column (outline_columns_new d) qs) = map (ocolumns_answer d) qs"
    by (rule outline_measure.run_answers [OF ocolumns_good_new])
  moreover have "None \<notin> set (map (ocolumns_answer d) qs)"
    using ocolumns_answer_Some [of d] by (auto simp: image_iff) (metis option.distinct(1))
  ultimately show ?thesis by (simp add: ocolumns_answer_def case_prod_unfold)
qed

end
