(* ===== verification/Analyze.thy ===== *)
theory Analyze
  imports Outline Json
begin

text \<open>
  The parse pipeline and its views: \<open>rs/src/analyze.rs\<close> (one parse to diagnostics, tokens
  and outline), \<open>highlight.rs\<close> (byte spans), \<open>hover.rs\<close> and \<open>completion.rs\<close>. The engine is a
  parameter: a parse answers a recovery result and the collected events, an error serializes
  to JSON (or does not), continuations are a list of token names or a caught panic, and the
  fixed tokens are lookups. Everything else is the code's.
\<close>

section \<open>The engine's answers\<close>

record ('v, 'e) parse_recovery =
  pr_value :: "'v option"
  pr_errors :: "'e list"
  pr_fatal :: "'e option"

record engine_diagnostic =
  ed_code :: rstr
  ed_message :: rstr
  ed_hint :: rstr
  ed_row :: nat
  ed_col :: nat
  ed_pos :: nat
  ed_len :: nat

text \<open>
  The derived \<open>Deserialize\<close>: an object by field name, an array by position; a missing field
  is its default, an unknown key is ignored and an over-long array is refused.
\<close>

definition field_or :: "(json \<Rightarrow> 'a option) \<Rightarrow> 'a \<Rightarrow> json option \<Rightarrow> 'a option" where
  "field_or f dflt v = (case v of None \<Rightarrow> Some dflt | Some x \<Rightarrow> f x)"

definition engine_diagnostic_of :: "(nat \<Rightarrow> rstr \<Rightarrow> json option) \<Rightarrow> engine_diagnostic option" where
  "engine_diagnostic_of fld = do {
     code \<leftarrow> field_or read_string [] (fld 0 (str ''code''));
     message \<leftarrow> field_or read_string [] (fld 1 (str ''message''));
     hint \<leftarrow> field_or read_string [] (fld 2 (str ''hint''));
     row \<leftarrow> field_or read_usize 0 (fld 3 (str ''row''));
     col \<leftarrow> field_or read_usize 0 (fld 4 (str ''col''));
     pos \<leftarrow> field_or read_usize 0 (fld 5 (str ''pos''));
     len \<leftarrow> field_or read_usize 0 (fld 6 (str ''len''));
     Some \<lparr>ed_code = code, ed_message = message, ed_hint = hint, ed_row = row, ed_col = col,
       ed_pos = pos, ed_len = len\<rparr>
   }"

definition engine_diagnostic_from :: "json \<Rightarrow> engine_diagnostic option" where
  "engine_diagnostic_from v = (case v of
      JObj m \<Rightarrow> engine_diagnostic_of (\<lambda>i k. obj_get m k)
    | JArr xs \<Rightarrow> if length xs \<le> 7 then engine_diagnostic_of (\<lambda>i k. index xs i) else None
    | _ \<Rightarrow> None)"

section \<open>analyze.rs\<close>

record semantic_tokens_result =
  stk_data :: "u32 list"
  stk_tokens :: "semantic_token list"

record ('v, 'e) analysis =
  an_value :: "'v option"
  an_errors :: "'e list"
  an_failed :: bool
  an_diagnostics :: "diagnostic list"
  an_semantic_tokens :: "semantic_tokens_result option"
  an_outline :: "document_symbol list"
  an_reconciled :: "token_point list"

definition errors_of :: "('v, 'e) parse_recovery \<Rightarrow> 'v option \<times> 'e list" where
  "errors_of recovery =
     (pr_value recovery,
      case pr_fatal recovery of
        None \<Rightarrow> pr_errors recovery
      | Some fatal \<Rightarrow>
          if pr_errors recovery \<noteq> [] \<and> last (pr_errors recovery) = fatal then pr_errors recovery
          else pr_errors recovery @ [fatal])"

definition diagnostic_source :: "entry option \<Rightarrow> rstr" where
  "diagnostic_source entry = (case entry of
      Some e \<Rightarrow> str ''tabnas:'' @ language_id e
    | None \<Rightarrow> str ''tabnas'')"

text \<open>The outer option is the panic of the range; the inner one a skipped error.\<close>

definition diagnostic_of ::
  "('e \<Rightarrow> json option) \<Rightarrow> entry option \<Rightarrow> doc \<Rightarrow> 'e \<Rightarrow> diagnostic option option" where
  "diagnostic_of to_json entry d error =
     (case Option.bind (to_json error) engine_diagnostic_from of
        None \<Rightarrow> Some None
      | Some x \<Rightarrow> do {
          rng \<leftarrow> range_from d (ed_row x) (ed_col x) (ed_pos x) (ed_len x);
          Some (Some
            \<lparr>diag_range = rng, diag_severity = severity_error,
             diag_code = (if ed_code x = [] then None else Some (ed_code x)),
             diag_source = diagnostic_source entry,
             diag_message = (if ed_hint x = [] then ed_message x
                             else ed_message x @ [10, 10] @ ed_hint x),
             diag_href = (if ed_code x \<noteq> [] \<and> ed_code x \<noteq> str ''unknown''
                          then Some (error_registry @ ed_code x) else None)\<rparr>)
        })"

definition diagnostics :: "('e \<Rightarrow> json option) \<Rightarrow> 'e list \<Rightarrow> entry option \<Rightarrow> doc \<Rightarrow> diagnostic list option" where
  "diagnostics to_json errors entry d =
     map_option (\<lambda>xs. map the (filter (\<lambda>x. x \<noteq> None) xs)) (all_some (diagnostic_of to_json entry d) errors)"

definition byte_token :: "rstr \<Rightarrow> segment \<Rightarrow> semantic_token option" where
  "byte_token s seg = (let start = floor_boundary s (min (sg_start seg) (byte_len s)) in do {
     before \<leftarrow> slice_to s start;
     Some \<lparr>st_row = sg_row seg,
           st_col = sum_list (map len_utf8 (take (sg_col_chars seg) (rev before))),
           st_len = max (sg_end seg - start) 1,
           st_col_chars = sg_col_chars seg, st_len_chars = sg_len_chars seg, st_kind = sg_kind seg\<rparr>
   })"

definition byte_tokens :: "segment list \<Rightarrow> rstr \<Rightarrow> semantic_token list option" where
  "byte_tokens segs s = all_some (byte_token s) segs"

definition semantic_tokens_of_reconciled ::
  "token_point list \<Rightarrow> entry \<Rightarrow> doc \<Rightarrow> semantic_tokens_result option" where
  "semantic_tokens_of_reconciled reconciled entry d = do {
     segs \<leftarrow> segments reconciled (en_semantic_tokens entry) (doc_text d);
     let tokens = map segment_token segs;
     data \<leftarrow> (case doc_encoding d of
         Utf16 \<Rightarrow> Some (encode tokens)
       | Utf8 \<Rightarrow> map_option encode (byte_tokens segs (doc_text d)));
     Some \<lparr>stk_data = data, stk_tokens = tokens\<rparr>
   }"

definition semantic_tokens_of :: "token_point list \<Rightarrow> entry \<Rightarrow> doc \<Rightarrow> semantic_tokens_result option" where
  "semantic_tokens_of lexed entry d = semantic_tokens_of_reconciled (reconcile_in lexed (doc_text d)) entry d"

text \<open>\<open>parse\<close> is \<open>Instances::parse\<close> on the instance at hand: the recovery and the collected events.\<close>

definition analyze ::
  "('e \<Rightarrow> json option) \<Rightarrow> (rstr \<Rightarrow> ('v, 'e) parse_recovery \<times> collected) \<Rightarrow> entry \<Rightarrow> doc \<Rightarrow>
   ('v, 'e) analysis option" where
  "analyze to_json parse entry d =
     (let (recovery, collected) = parse (doc_text d);
          failed = (pr_fatal recovery \<noteq> None);
          (value, errors) = errors_of recovery
      in do {
        diags \<leftarrow> diagnostics to_json errors (Some entry) d;
        let reconciled = reconcile_in (col_lex collected) (doc_text d);
        tokens \<leftarrow> (if is_clean entry
           then map_option Some (semantic_tokens_of_reconciled reconciled entry d) else Some None);
        symbols \<leftarrow> outline (col_rules collected) (Some entry) d;
        Some \<lparr>an_value = value, an_errors = errors, an_failed = failed, an_diagnostics = diags,
          an_semantic_tokens = tokens, an_outline = symbols, an_reconciled = reconciled\<rparr>
      })"

section \<open>highlight.rs\<close>

record span =
  span_start :: nat
  span_end :: nat
  span_kind :: token_type

record 'e highlight_result =
  hl_spans :: "span list"
  hl_tokens :: "semantic_token list"
  hl_reconciled :: "token_point list"
  hl_errors :: "'e list"
  hl_partial :: bool

definition build_highlight ::
  "token_point list \<Rightarrow> ('v, 'e) parse_recovery \<Rightarrow> overrides option \<Rightarrow> rstr \<Rightarrow> 'e highlight_result option" where
  "build_highlight events recovery ov s =
     (let reached_end = (s = [] \<or> list_ex (\<lambda>e. usat_add (tp_si e) (tp_len e) \<ge> byte_len s) events);
          partial = (pr_fatal recovery \<noteq> None \<or> \<not> reached_end);
          reconciled = reconcile_in events s
      in do {
        segs \<leftarrow> segments reconciled ov s;
        Some \<lparr>hl_spans = map (\<lambda>g. \<lparr>span_start = sg_start g, span_end = sg_end g, span_kind = sg_kind g\<rparr>) segs,
          hl_tokens = map segment_token segs, hl_reconciled = reconciled,
          hl_errors = pr_errors recovery, hl_partial = partial\<rparr>
      })"

text \<open>
  \<open>run\<close>: clear the recorder, parse, drain it. A parse appends the events of its real tokens
  to the recorder's list.
\<close>

definition run_highlight ::
  "(rstr \<Rightarrow> ('v, 'e) parse_recovery \<times> 'tok list) \<Rightarrow> ('tok \<Rightarrow> bool) \<Rightarrow> ('tok \<Rightarrow> token_point) \<Rightarrow>
   overrides option \<Rightarrow> token_point list \<Rightarrow> rstr \<Rightarrow> 'e highlight_result option \<times> token_point list" where
  "run_highlight parse no_token point ov recorded s =
     (let events = trace_clear recorded;
          (recovery, lexed) = parse s;
          events = foldl (\<lambda>es t. trace_record no_token point t es) events lexed;
          (taken, events) = trace_take events
      in (build_highlight taken recovery ov s, events))"

record highlighter =
  hr_overrides :: "overrides option"
  hr_trace :: "token_point list"

definition highlighter_new :: "overrides option \<Rightarrow> highlighter" where
  "highlighter_new ov = \<lparr>hr_overrides = ov, hr_trace = []\<rparr>"

definition highlighter_highlight ::
  "(rstr \<Rightarrow> ('v, 'e) parse_recovery \<times> 'tok list) \<Rightarrow> ('tok \<Rightarrow> bool) \<Rightarrow> ('tok \<Rightarrow> token_point) \<Rightarrow>
   highlighter \<Rightarrow> rstr \<Rightarrow> 'e highlight_result option \<times> highlighter" where
  "highlighter_highlight parse no_token point h s =
     (let (r, events) = run_highlight parse no_token point (hr_overrides h) (hr_trace h) s
      in (r, h\<lparr>hr_trace := events\<rparr>))"

definition set_overrides :: "highlighter \<Rightarrow> overrides option \<Rightarrow> highlighter" where
  "set_overrides h ov = h\<lparr>hr_overrides := ov\<rparr>"

definition highlight_once ::
  "(rstr \<Rightarrow> ('v, 'e) parse_recovery \<times> 'tok list) \<Rightarrow> ('tok \<Rightarrow> bool) \<Rightarrow> ('tok \<Rightarrow> token_point) \<Rightarrow>
   rstr \<Rightarrow> overrides option \<Rightarrow> 'e highlight_result option" where
  "highlight_once parse no_token point s ov = fst (run_highlight parse no_token point ov [] s)"

section \<open>hover.rs\<close>

record markup_content =
  mc_kind :: rstr
  mc_value :: rstr

definition mc_markdown :: "rstr \<Rightarrow> markup_content" where
  "mc_markdown v = \<lparr>mc_kind = str ''markdown'', mc_value = v\<rparr>"

definition mc_plaintext :: "rstr \<Rightarrow> markup_content" where
  "mc_plaintext v = \<lparr>mc_kind = str ''plaintext'', mc_value = v\<rparr>"

record hover_result =
  hv_contents :: markup_content
  hv_range :: "lsp_range option"

definition token_at :: "token_point list \<Rightarrow> doc \<Rightarrow> position \<Rightarrow> token_point option option" where
  "token_at reconciled d p = do {
     offset \<leftarrow> offset_at d p;
     Some (find (\<lambda>t. tp_si t \<le> offset \<and> offset < usat_add (tp_si t) (tp_len t)) reconciled)
   }"

definition token_range :: "token_point \<Rightarrow> doc \<Rightarrow> lsp_range option" where
  "token_range t d = (let fin = min (usat_add (tp_si t) (tp_len t)) (byte_len (doc_text d)) in do {
     a \<leftarrow> position_at d (tp_si t);
     b \<leftarrow> position_at d fin;
     Some (Range a b)
   })"

definition describe :: "token_point \<Rightarrow> entry \<Rightarrow> rstr option" where
  "describe t e = None"

text \<open>The outer option is a panic.\<close>

definition hover :: "('v, 'e) analysis \<Rightarrow> entry \<Rightarrow> doc \<Rightarrow> position \<Rightarrow> hover_result option option" where
  "hover a entry d p = do {
     found \<leftarrow> token_at (an_reconciled a) d p;
     (case found of
        None \<Rightarrow> Some None
      | Some t \<Rightarrow>
          (case describe t entry of
             None \<Rightarrow> Some None
           | Some description \<Rightarrow> do {
               rng \<leftarrow> token_range t d;
               Some (Some \<lparr>hv_contents = mc_markdown description, hv_range = Some rng\<rparr>)
             }))
   }"

section \<open>completion.rs\<close>

definition sentinel_tokens :: "rstr list" where
  "sentinel_tokens = [str ''#ZZ'', str ''#AA'', str ''#BD'']"

definition trigger_characters :: "rstr list" where
  "trigger_characters = [str '':'', str '','', str ''{'', str ''['', [34]]"

definition completion_kind_keyword :: u32 where
  "completion_kind_keyword = 14"

definition completion_kind_operator :: u32 where
  "completion_kind_operator = 24"

record completion_item =
  ci_label :: rstr
  ci_kind :: u32
  ci_detail :: "rstr option"
  ci_insert_text :: "rstr option"

definition is_sentinel :: "rstr \<Rightarrow> bool" where
  "is_sentinel name = List.member sentinel_tokens name"

text \<open>The instance's lookups: by fixed source, by token name, and the source of an identity.\<close>

record 'tin tokens_of_grammar =
  tg_fixed :: "rstr \<Rightarrow> 'tin option"
  tg_token :: "rstr \<Rightarrow> 'tin option"
  tg_source :: "'tin \<Rightarrow> rstr option"

definition fixed_source :: "'tin tokens_of_grammar \<Rightarrow> rstr \<Rightarrow> rstr option" where
  "fixed_source g name =
     Option.bind (case tg_fixed g name of Some t \<Rightarrow> Some t | None \<Rightarrow> tg_token g name) (tg_source g)"

definition completion_item_of :: "'tin tokens_of_grammar \<Rightarrow> rstr \<Rightarrow> completion_item" where
  "completion_item_of g name =
     (let keyword = \<lparr>ci_label = name, ci_kind = completion_kind_keyword, ci_detail = Some name,
            ci_insert_text = None\<rparr>
      in case fixed_source g name of
           None \<Rightarrow> keyword
         | Some source \<Rightarrow>
             if source = [] then keyword
             else \<lparr>ci_label = source, ci_kind = completion_kind_operator, ci_detail = Some name,
                    ci_insert_text = Some source\<rparr>)"

definition completion_items :: "'tin tokens_of_grammar \<Rightarrow> rstr list \<Rightarrow> completion_item list" where
  "completion_items g names = map (completion_item_of g) (filter (\<lambda>n. \<not> is_sentinel n) names)"

text \<open>
  \<open>continuations prefix\<close> is the engine's answer, \<open>None\<close> a caught panic. The outer option is
  a panic of the slice.
\<close>

definition completion ::
  "(rstr \<Rightarrow> rstr list option) \<Rightarrow> 'tin tokens_of_grammar \<Rightarrow> doc \<Rightarrow> position \<Rightarrow> completion_item list option" where
  "completion continuations g d p = do {
     offset \<leftarrow> offset_at d p;
     pre \<leftarrow> slice_to (doc_text d) offset;
     Some (case continuations pre of
         None \<Rightarrow> []
       | Some names \<Rightarrow> completion_items g names)
   }"

section \<open>Lemmas\<close>

text \<open>The errors that serialize to a structured diagnostic; the others are skipped.\<close>

definition serializes :: "('e \<Rightarrow> json option) \<Rightarrow> 'e \<Rightarrow> bool" where
  "serializes to_json e \<longleftrightarrow> Option.bind (to_json e) engine_diagnostic_from \<noteq> None"

lemma diagnostic_of_skipped: "\<not> serializes to_json e \<Longrightarrow> diagnostic_of to_json entry d e = Some None"
  by (simp add: serializes_def diagnostic_of_def)

lemma diagnostic_of_made:
  assumes "index_ok d" "serializes to_json e"
  obtains g where "diagnostic_of to_json entry d e = Some (Some g)" "diag_severity g = severity_error"
    "diag_source g = diagnostic_source entry" "diag_code g \<noteq> Some []"
proof -
  obtain x where x: "Option.bind (to_json e) engine_diagnostic_from = Some x"
    using assms(2) by (auto simp: serializes_def)
  obtain r where "range_from d (ed_row x) (ed_col x) (ed_pos x) (ed_len x) = Some r"
    using range_from_total [OF assms(1)] by blast
  with x that show thesis by (simp add: diagnostic_of_def)
qed

lemma diagnostics_step:
  "diagnostics to_json (e # errors) entry d =
     (case diagnostic_of to_json entry d e of
        None \<Rightarrow> None
      | Some None \<Rightarrow> diagnostics to_json errors entry d
      | Some (Some g) \<Rightarrow> map_option (\<lambda>ds. g # ds) (diagnostics to_json errors entry d))"
  by (cases "diagnostic_of to_json entry d e"; cases "all_some (diagnostic_of to_json entry d) errors")
     (auto simp: diagnostics_def split: option.splits)

lemma diagnostics_made:
  assumes "index_ok d"
  shows "\<exists>ds. diagnostics to_json errors entry d = Some ds \<and>
    length ds = length (filter (serializes to_json) errors) \<and>
    (\<forall>g\<in>set ds. diag_severity g = severity_error \<and> diag_source g = diagnostic_source entry)"
proof (induction errors)
  case Nil
  then show ?case by (simp add: diagnostics_def)
next
  case (Cons e errors)
  then obtain ds where ds: "diagnostics to_json errors entry d = Some ds"
    "length ds = length (filter (serializes to_json) errors)"
    "\<forall>g\<in>set ds. diag_severity g = severity_error \<and> diag_source g = diagnostic_source entry"
    by blast
  show ?case
  proof (cases "serializes to_json e")
    case True
    then obtain g where "diagnostic_of to_json entry d e = Some (Some g)" "diag_severity g = severity_error"
      "diag_source g = diagnostic_source entry"
      by (rule diagnostic_of_made [OF assms, of to_json e entry])
    with True ds show ?thesis by (simp add: diagnostics_step)
  next
    case False
    with ds diagnostic_of_skipped [OF False, of entry d] show ?thesis by (simp add: diagnostics_step)
  qed
qed

lemma byte_token_total: "\<exists>t. byte_token s g = Some t"
proof -
  obtain a b where ab: "s = a @ b" "clamp_boundary s (sg_start g) = byte_len a"
    by (rule clamp_boundary_split)
  then have "slice_to s (floor_boundary s (min (sg_start g) (byte_len s))) = Some a"
    unfolding clamp_boundary_def by simp
  then show ?thesis by (simp add: byte_token_def Let_def)
qed

lemma emit_parts_true:
  "emitter_ok (\<lambda>_. True) em \<Longrightarrow>
    emitter_ok (\<lambda>_. True) (emit_parts size_all row col cc kind i offset parts em)"
  by (induction parts arbitrary: i offset em) (simp_all add: Let_def emit_ok)

lemma segments_total: "\<exists>out. segments ts ov s = Some out"
proof -
  have "emitter_ok (\<lambda>_. True) (emit_token s em t kind cc)" if "emitter_ok (\<lambda>_. True) em" for em t kind cc
    using that by (cases cc) (simp add: emit_token_def Let_def emit_ok emit_parts_true)
  with segments_ok [of ts "\<lambda>_. True" s ov] show ?thesis by blast
qed

lemma semantic_tokens_of_reconciled_total: "\<exists>r. semantic_tokens_of_reconciled ts entry d = Some r"
proof -
  obtain segs where segs: "segments ts (en_semantic_tokens entry) (doc_text d) = Some segs"
    using segments_total by blast
  obtain bs where "byte_tokens segs (doc_text d) = Some bs"
    unfolding byte_tokens_def using all_some_total [of segs "byte_token (doc_text d)"] byte_token_total by blast
  with segs show ?thesis
    by (cases "doc_encoding d") (simp_all add: semantic_tokens_of_reconciled_def Let_def)
qed

lemma errors_of_cases:
  assumes "errors_of r = (v, es)"
  shows "v = pr_value r" "prefix (pr_errors r) es" "length es \<le> Suc (length (pr_errors r))"
    "pr_fatal r = Some f \<Longrightarrow> es \<noteq> [] \<and> last es = f" "pr_fatal r = None \<Longrightarrow> es = pr_errors r"
  using assms by (auto simp: errors_of_def split: option.splits if_splits)

lemma run_highlight_alt:
  "run_highlight parse no_token point ov recorded s =
    (build_highlight (map point (filter (\<lambda>t. \<not> no_token t) (snd (parse s)))) (fst (parse s)) ov s, [])"
proof -
  have "foldl (\<lambda>es t. trace_record no_token point t es) acc toks =
      acc @ map point (filter (\<lambda>t. \<not> no_token t) toks)" for acc toks
    by (induction toks arbitrary: acc) (auto simp: trace_record_def)
  then show ?thesis
    by (simp add: run_highlight_def Let_def trace_clear_def trace_take_def case_prod_unfold)
qed

lemma item_facts:
  "ci_detail (completion_item_of g n) = Some n"
  "ci_insert_text (completion_item_of g n) = (if ci_kind (completion_item_of g n) = completion_kind_operator
     then Some (ci_label (completion_item_of g n)) else None)"
  "n \<noteq> [] \<Longrightarrow> ci_label (completion_item_of g n) \<noteq> []"
  by (auto simp: completion_item_of_def completion_kind_operator_def completion_kind_keyword_def Let_def
      split: option.splits)

section \<open>Properties\<close>

text \<open>
  C31: one parse always yields an analysis. Whatever the engine answered, \<open>analyze\<close> does not
  panic: it has failed exactly when the engine raised a terminal error, that error is then
  the last of its errors, the engine's own errors come first and unchanged, every error that
  serializes is one diagnostic of the entry's source, tokens are served exactly for clean
  entries, and the outline is within its depth.
\<close>

theorem analyze_total:
  assumes "index_ok d" "parse (doc_text d) = (recovery, collected)"
  shows "\<exists>a. analyze to_json parse entry d = Some a \<and> an_failed a = (pr_fatal recovery \<noteq> None) \<and>
    (\<forall>f. pr_fatal recovery = Some f \<longrightarrow> an_errors a \<noteq> [] \<and> last (an_errors a) = f) \<and>
    prefix (pr_errors recovery) (an_errors a) \<and> length (an_errors a) \<le> Suc (length (pr_errors recovery)) \<and>
    length (an_diagnostics a) = length (filter (serializes to_json) (an_errors a)) \<and>
    (\<forall>g\<in>set (an_diagnostics a). diag_severity g = 1 \<and> diag_source g = str ''tabnas:'' @ language_id entry) \<and>
    (an_semantic_tokens a \<noteq> None \<longleftrightarrow> is_clean entry) \<and>
    (\<forall>t\<in>set (an_outline a). ds_depth t \<le> max_outline_depth) \<and>
    an_reconciled a = reconcile_in (col_lex collected) (doc_text d)"
proof -
  obtain v es where es: "errors_of recovery = (v, es)" by force
  obtain ds where ds: "diagnostics to_json es (Some entry) d = Some ds"
    "length ds = length (filter (serializes to_json) es)"
    "\<forall>g\<in>set ds. diag_severity g = severity_error \<and> diag_source g = diagnostic_source (Some entry)"
    using diagnostics_made [OF assms(1)] by blast
  let ?rec = "reconcile_in (col_lex collected) (doc_text d)"
  obtain tk where tk: "semantic_tokens_of_reconciled ?rec entry d = Some tk"
    using semantic_tokens_of_reconciled_total by blast
  obtain out where out: "outline (col_rules collected) (Some entry) d = Some out"
    "\<forall>t\<in>set out. ds_depth t \<le> max_outline_depth"
    using outline_total [OF assms(1)] by blast
  show ?thesis
    using assms(2) es ds tk out errors_of_cases [OF es]
    by (simp add: analyze_def Let_def severity_error_def diagnostic_source_def)
qed

theorem analyze_total_witness:
  "\<exists>a. analyze (\<lambda>e. None) (\<lambda>s. (\<lparr>pr_value = None, pr_errors = [1, 2], pr_fatal = Some (3::nat)\<rparr>, collected_default))
     (entry_new [97]) (doc_new [] [] 1 [120]) = Some (a :: (nat, nat) analysis) \<and> an_failed a \<and> last (an_errors a) = 3"
  using analyze_total [OF index_ok_new, of "\<lambda>s. (\<lparr>pr_value = None, pr_errors = [1, 2], pr_fatal = Some (3::nat)\<rparr>, collected_default)"
    "[]" "[]" 1 "[120]" "\<lparr>pr_value = None, pr_errors = [1, 2], pr_fatal = Some (3::nat)\<rparr>" collected_default "\<lambda>e. None" "entry_new [97]"]
  by fastforce

text \<open>
  C32: a highlighter forgets. Whatever it recorded before, a reused highlighter gives the
  result of a fresh parser, reads only this parse's events, and leaves an empty recorder;
  there is one span per token, and the lexer's end decides \<open>partial\<close>.
\<close>

theorem highlighter_forgets:
  "\<exists>r. highlighter_highlight parse no_token point h s = (Some r, h\<lparr>hr_trace := []\<rparr>) \<and>
     highlight_once parse no_token point s (hr_overrides h) = Some r \<and>
     length (hl_spans r) = length (hl_tokens r) \<and>
     hl_partial r = (case pr_fatal (fst (parse s)) of
         Some _ \<Rightarrow> True
       | None \<Rightarrow> s \<noteq> [] \<and> \<not> list_ex (\<lambda>t. \<not> no_token t \<and>
           byte_len s \<le> usat_add (tp_si (point t)) (tp_len (point t))) (snd (parse s)))"
proof -
  let ?events = "map point (filter (\<lambda>t. \<not> no_token t) (snd (parse s)))"
  obtain segs where "segments (reconcile_in ?events s) (hr_overrides h) s = Some segs"
    using segments_total by blast
  then show ?thesis
    by (auto simp: highlighter_highlight_def highlight_once_def run_highlight_alt build_highlight_def Let_def
        list_ex_iff split: option.splits)
qed

text \<open>
  Highlighted spans can overlap. A trace whose newer token starts inside an older one
  that starts before it keeps both, and the two spans share a byte.
\<close>

theorem highlight_spans_overlap:
  "\<exists>events s r a b. build_highlight events
       \<lparr>pr_value = None :: unit option, pr_errors = [] :: unit list, pr_fatal = None\<rparr> None s = Some r \<and>
     hl_spans r = [a, b] \<and> span_start a < span_start b \<and> span_start b < span_end a"
proof -
  let ?e1 = "\<lparr>tp_name = str ''#ST'', tp_si = 0, tp_ri = 1, tp_ci = 1, tp_len = 5, tp_src = [97, 98, 99, 100, 101]\<rparr>"
  let ?e2 = "\<lparr>tp_name = str ''#NR'', tp_si = 3, tp_ri = 1, tp_ci = 4, tp_len = 1, tp_src = [100]\<rparr>"
  let ?r = "\<lparr>pr_value = None :: unit option, pr_errors = [] :: unit list, pr_fatal = None\<rparr>"
  have "map_option hl_spans (build_highlight [?e1, ?e2] ?r None [97, 98, 99, 100, 101]) =
      Some [\<lparr>span_start = 0, span_end = 5, span_kind = TString\<rparr>, \<lparr>span_start = 3, span_end = 4, span_kind = TNumber\<rparr>]"
    by code_simp
  then obtain r where "build_highlight [?e1, ?e2] ?r None [97, 98, 99, 100, 101] = Some r"
    "hl_spans r = [\<lparr>span_start = 0, span_end = 5, span_kind = TString\<rparr>, \<lparr>span_start = 3, span_end = 4, span_kind = TNumber\<rparr>]"
    by auto
  moreover have "span_start \<lparr>span_start = 0, span_end = 5, span_kind = TString\<rparr> <
      span_start \<lparr>span_start = 3, span_end = 4, span_kind = TNumber\<rparr> \<and>
      span_start \<lparr>span_start = 3, span_end = 4, span_kind = TNumber\<rparr> <
      span_end \<lparr>span_start = 0, span_end = 5, span_kind = TString\<rparr>"
    by simp
  ultimately show ?thesis by blast
qed

text \<open>
  The token under the cursor. For every position the lookup answers, with a token of the
  trace whose bytes hold the position's offset, and with none only if none does; a
  zero-length token is never under the cursor; and hover has nothing to say.
\<close>

theorem token_at_covers:
  assumes "index_ok d"
  shows "\<exists>k found. offset_at d p = Some k \<and> token_at ts d p = Some found \<and>
    (case found of
       Some t \<Rightarrow> t \<in> set ts \<and> tp_si t \<le> k \<and> k < tp_si t + tp_len t \<and> 0 < tp_len t
     | None \<Rightarrow> \<forall>t\<in>set ts. \<not> (tp_si t \<le> k \<and> k < usat_add (tp_si t) (tp_len t))) \<and>
    hover (a\<lparr>an_reconciled := ts\<rparr>) entry d p = Some None"
proof -
  obtain k where k: "offset_at d p = Some k" using offset_at_total [OF assms] by blast
  let ?P = "\<lambda>t. tp_si t \<le> k \<and> k < usat_add (tp_si t) (tp_len t)"
  have some: "t \<in> set ts \<and> ?P t" if "find ?P ts = Some t" for t
    using that by (auto simp: find_Some_iff in_set_conv_nth)
  have none: "\<forall>t\<in>set ts. \<not> ?P t" if "find ?P ts = None"
    using that by (auto simp: find_None_iff)
  have le: "k < tp_si t + tp_len t \<and> 0 < tp_len t" if "?P t" for t
    using that usat_add_le [of "tp_si t" "tp_len t"] by simp
  have found: "token_at ts d p = Some (find ?P ts)" using k by (simp add: token_at_def)
  have "hover (a\<lparr>an_reconciled := ts\<rparr>) entry d p = Some None"
    by (cases "find ?P ts") (simp_all add: hover_def found describe_def)
  moreover have "case find ?P ts of
       Some t \<Rightarrow> t \<in> set ts \<and> tp_si t \<le> k \<and> k < tp_si t + tp_len t \<and> 0 < tp_len t
     | None \<Rightarrow> \<forall>t\<in>set ts. \<not> (tp_si t \<le> k \<and> k < usat_add (tp_si t) (tp_len t))"
  proof (cases "find ?P ts")
    case None
    with none show ?thesis by simp
  next
    case (Some t)
    with some [OF Some] le [of t] show ?thesis by simp
  qed
  ultimately show ?thesis using k found by blast
qed

theorem token_at_covers_witness:
  "\<exists>found. token_at [\<lparr>tp_name = [], tp_si = 1, tp_ri = 1, tp_ci = 2, tp_len = 1, tp_src = [98]\<rparr>]
     (doc_new [] [] 1 [97, 98]) (Position 0 1) = Some found"
  using token_at_covers [OF index_ok_new] by metis

text \<open>
  Completion asks about the text before the cursor and offers what can be typed. The
  engine is asked about exactly the document's prefix up to the position's offset; no item
  is a sentinel, the items keep the engine's order, each names its token, and an item inserts
  its label exactly when it is a fixed token.
\<close>

theorem completion_prefix:
  assumes "index_ok d"
  shows "\<exists>pre post items. doc_text d = pre @ post \<and> offset_at d p = Some (byte_len pre) \<and>
    completion continuations g d p = Some items \<and>
    map ci_detail items =
      map Some (filter (\<lambda>n. n \<notin> {str ''#ZZ'', str ''#AA'', str ''#BD''}) (unwrap_or (continuations pre) [])) \<and>
    (\<forall>i\<in>set items. ci_insert_text i = (if ci_kind i = 24 then Some (ci_label i) else None))"
proof -
  obtain k where k: "offset_at d p = Some k" using offset_at_total [OF assms] by blast
  obtain pre post where pre: "doc_text d = pre @ post" "byte_len pre = k"
    using offset_at_boundary [OF assms k] by (auto simp: is_char_boundary_iff)
  have slice: "slice_to (doc_text d) k = Some pre" unfolding slice_to_Some using pre by blast
  have sent: "is_sentinel n \<longleftrightarrow> n \<in> {str ''#ZZ'', str ''#AA'', str ''#BD''}" for n
    by (auto simp: is_sentinel_def sentinel_tokens_def)
  let ?items = "completion_items g (unwrap_or (continuations pre) [])"
  have "completion continuations g d p = Some ?items"
    by (cases "continuations pre") (simp_all add: completion_def k slice completion_items_def unwrap_or_def)
  moreover have "map ci_detail ?items =
      map Some (filter (\<lambda>n. n \<notin> {str ''#ZZ'', str ''#AA'', str ''#BD''}) (unwrap_or (continuations pre) []))"
    by (simp add: completion_items_def sent o_def item_facts)
  moreover have "\<forall>i\<in>set ?items. ci_insert_text i = (if ci_kind i = 24 then Some (ci_label i) else None)"
    by (auto simp: completion_items_def item_facts(2) completion_kind_operator_def)
  moreover have "offset_at d p = Some (byte_len pre)" using k pre(2) by simp
  ultimately show ?thesis using pre(1) by blast
qed

theorem completion_prefix_witness:
  "map_option (map ci_detail) (completion (\<lambda>s. Some [str ''#ZZ'', str ''#OB'']) \<lparr>tg_fixed = (\<lambda>_. None), tg_token = (\<lambda>_. Some ()), tg_source = (\<lambda>_. Some [123])\<rparr>
     (doc_new [] [] 1 [97, 98]) (Position 0 1)) = Some [Some (str ''#OB'')]"
proof -
  obtain items pre where "completion (\<lambda>s. Some [str ''#ZZ'', str ''#OB'']) \<lparr>tg_fixed = (\<lambda>_. None), tg_token = (\<lambda>_. Some ()), tg_source = (\<lambda>_. Some [123])\<rparr>
     (doc_new [] [] 1 [97, 98]) (Position 0 1) = Some items"
    "map ci_detail items =
      map Some (filter (\<lambda>n. n \<notin> {str ''#ZZ'', str ''#AA'', str ''#BD''}) (unwrap_or (Some [str ''#ZZ'', str ''#OB'']) []))"
    using completion_prefix [OF index_ok_new, of "[]" "[]" 1 "[97, 98]" "Position 0 1" "\<lambda>s. Some [str ''#ZZ'', str ''#OB'']"
      "\<lparr>tg_fixed = (\<lambda>_. None), tg_token = (\<lambda>_. Some ()), tg_source = (\<lambda>_. Some [123])\<rparr>"] by blast
  then show ?thesis by (simp add: unwrap_or_def)
qed

end
