(* ===== verification/Paths.thy ===== *)
theory Paths
  imports RustText
begin

text \<open>
  \<open>std::path\<close> on POSIX, as far as the crate uses it. A path is its text (paths that are no
  UTF-8 only reach the crate through the filesystem and are read lossily); comparisons go
  over its components, as \<open>Path\<close>'s do: a leading root or \<open>.\<close>, then \<open>..\<close> and names, with
  empty pieces and inner \<open>.\<close> dropped. A \<open>PathBuf\<close> built component by component is the list
  of its components.
\<close>

section \<open>Components\<close>

datatype component = RootDir | CurDir | ParentDir | Normal rstr

definition has_root :: "rstr \<Rightarrow> bool" where
  "has_root p \<longleftrightarrow> (case p of c # _ \<Rightarrow> c = 47 | [] \<Rightarrow> False)"

definition dot :: rstr where
  "dot = [46]"

definition dotdot :: rstr where
  "dotdot = [46, 46]"

definition component_of :: "rstr \<Rightarrow> component" where
  "component_of s = (if s = dotdot then ParentDir else Normal s)"

definition path_parts :: "rstr \<Rightarrow> rstr list" where
  "path_parts p = filter (\<lambda>s. s \<noteq> []) (split_char 47 p)"

definition components :: "rstr \<Rightarrow> component list" where
  "components p =
     (let parts = path_parts p;
          inner = (\<lambda>ps. map component_of (filter (\<lambda>s. s \<noteq> dot) ps))
      in if has_root p then RootDir # inner parts
         else case parts of
           [] \<Rightarrow> []
         | q # qs \<Rightarrow> (if q = dot then CurDir # inner qs else inner parts))"

text \<open>\<open>file_name\<close> and \<open>extension\<close>: what follows the last dot, unless the name starts there.\<close>

definition file_name :: "rstr \<Rightarrow> rstr option" where
  "file_name p = (case rev (components p) of Normal s # _ \<Rightarrow> Some s | _ \<Rightarrow> None)"

definition path_extension :: "rstr \<Rightarrow> rstr option" where
  "path_extension p = Option.bind (file_name p) (\<lambda>s.
     case split_once 46 (rev s) of
       Some (ext, stem) \<Rightarrow> if stem = [] then None else Some (rev ext)
     | None \<Rightarrow> None)"

definition path_join :: "rstr \<Rightarrow> rstr \<Rightarrow> rstr" where
  "path_join b p =
     (if has_root p then p
      else if b = [] \<or> last b = 47 then b @ p
      else b @ 47 # p)"

text \<open>\<open>a.starts_with(b)\<close>: whole components.\<close>

definition path_starts_with :: "rstr \<Rightarrow> rstr \<Rightarrow> bool" where
  "path_starts_with p b \<longleftrightarrow> take (length (components b)) (components p) = components b"

section \<open>Building a path\<close>

fun component_text :: "component \<Rightarrow> rstr" where
  "component_text RootDir = [47]"
| "component_text CurDir = dot"
| "component_text ParentDir = dotdot"
| "component_text (Normal s) = s"

text \<open>\<open>PathBuf::push\<close> of a component's text, and the text of a \<open>PathBuf\<close> pushed so.\<close>

definition path_text :: "component list \<Rightarrow> rstr" where
  "path_text cs = foldl (\<lambda>out c. path_join out (component_text c)) [] cs"

text \<open>\<open>PathBuf::pop\<close>: the rest when there is a parent; the root and the empty path stay.\<close>

definition path_pop :: "component list \<Rightarrow> (component list) option" where
  "path_pop cs = (if cs = [] \<or> last cs = RootDir then None else Some (butlast cs))"

text \<open>A path resolved: rooted or not, then names only.\<close>

definition plain_name :: "rstr \<Rightarrow> bool" where
  "plain_name s \<longleftrightarrow> s \<noteq> [] \<and> s \<noteq> dot \<and> s \<noteq> dotdot \<and> 47 \<notin> set s"

definition resolved :: "component list \<Rightarrow> bool" where
  "resolved cs \<longleftrightarrow> (\<exists>ns. list_all plain_name ns \<and> (cs = map Normal ns \<or> cs = RootDir # map Normal ns))"

fun slashed :: "rstr list \<Rightarrow> rstr" where
  "slashed [] = []"
| "slashed [n] = n"
| "slashed (n # ns) = n @ 47 # slashed ns"

lemma slashed_Cons: "ns \<noteq> [] \<Longrightarrow> slashed (n # ns) = n @ 47 # slashed ns"
  by (cases ns) simp_all

lemma slashed_snoc: "ns \<noteq> [] \<Longrightarrow> slashed (ns @ [n]) = slashed ns @ 47 # n"
  by (induction ns rule: slashed.induct) (simp_all add: slashed_Cons)

lemma split_slashed:
  "ns \<noteq> [] \<Longrightarrow> \<forall>n\<in>set ns. 47 \<notin> set n \<Longrightarrow> split_char 47 (slashed ns) = ns"
  by (induction ns rule: slashed.induct)
    (simp_all add: split_char_none split_char_append)

lemma slashed_last: "list_all plain_name ns \<Longrightarrow> ns \<noteq> [] \<Longrightarrow> slashed ns \<noteq> [] \<and> last (slashed ns) \<noteq> 47"
  by (induction ns rule: slashed.induct) (auto simp: plain_name_def dest: last_in_set)

lemma slashed_no_root: "list_all plain_name ns \<Longrightarrow> \<not> has_root (slashed ns)"
  by (induction ns rule: slashed.induct)
    (auto simp: plain_name_def has_root_def Cons_eq_append_conv append_eq_Cons_conv split: list.splits)

lemma plain_no_root: "plain_name n \<Longrightarrow> \<not> has_root n"
  by (auto simp: plain_name_def has_root_def split: list.splits)

lemma path_text_snoc: "path_text (cs @ [c]) = path_join (path_text cs) (component_text c)"
  by (simp add: path_text_def)

lemma path_text_names:
  "list_all plain_name ns \<Longrightarrow> path_text (map Normal ns) = slashed ns"
proof (induction ns rule: rev_induct)
  case (snoc n ns)
  then have n: "\<not> has_root n" "list_all plain_name ns" by (auto simp: plain_no_root)
  with snoc show ?case
    using slashed_last [of ns]
    by (cases "ns = []") (auto simp: path_text_snoc path_join_def slashed_snoc path_text_def)
qed (simp add: path_text_def)

lemma path_text_rooted:
  "list_all plain_name ns \<Longrightarrow> path_text (RootDir # map Normal ns) = 47 # slashed ns"
proof (induction ns rule: rev_induct)
  case (snoc n ns)
  then have n: "\<not> has_root n" "list_all plain_name ns" by (auto simp: plain_no_root)
  have app: "RootDir # map Normal (ns @ [n]) = (RootDir # map Normal ns) @ [Normal n]" by simp
  from snoc n show ?case
    using slashed_last [of ns]
    unfolding app path_text_snoc by (cases "ns = []") (auto simp: path_join_def slashed_snoc)
qed (simp add: path_text_def path_join_def has_root_def)

lemma components_names:
  assumes "list_all plain_name ns"
  shows "components (slashed ns) = map Normal ns"
    and "components (47 # slashed ns) = RootDir # map Normal ns"
proof -
  have sep: "\<forall>n\<in>set ns. 47 \<notin> set n" and ne: "filter (\<lambda>s. s \<noteq> []) ns = ns"
    and plain: "filter (\<lambda>s. s \<noteq> dot) ns = ns" and cof: "map component_of ns = map Normal ns"
    using assms by (auto simp: list_all_iff plain_name_def component_of_def filter_id_conv)
  have parts: "path_parts (slashed ns) = ns"
    using split_slashed [OF _ sep] ne by (cases "ns = []") (simp_all add: path_parts_def)
  have parts': "path_parts (47 # slashed ns) = ns"
    using split_slashed [OF _ sep] ne by (cases "ns = []") (simp_all add: path_parts_def)
  have "ns = q # qs \<Longrightarrow> q \<noteq> dot" for q qs
    using assms by (simp add: plain_name_def)
  with parts plain cof show "components (slashed ns) = map Normal ns"
    using slashed_no_root [OF assms] by (auto simp: components_def split: list.splits)
  show "components (47 # slashed ns) = RootDir # map Normal ns"
    using parts' plain cof by (simp add: components_def has_root_def)
qed

text \<open>A resolved component list survives the trip through its text.\<close>

lemma components_path_text: "resolved cs \<Longrightarrow> components (path_text cs) = cs"
  by (auto simp: resolved_def path_text_names path_text_rooted components_names)

lemma component_names:
  "Normal s \<in> set (components p) \<Longrightarrow> plain_name s"
proof -
  have "s \<in> set (path_parts p) \<Longrightarrow> s \<noteq> dot \<Longrightarrow> s \<noteq> dotdot \<Longrightarrow> plain_name s" for s
    using split_char_no_sep by (auto simp: path_parts_def plain_name_def)
  moreover have "q # qs = path_parts p \<Longrightarrow> s \<in> set qs \<Longrightarrow> s \<in> set (path_parts p)" for q qs s
    by (metis list.set_intros(2))
  ultimately show "Normal s \<in> set (components p) \<Longrightarrow> plain_name s"
    by (auto simp: components_def component_of_def Let_def split: if_splits list.splits)
qed

lemma components_root: "RootDir \<in> set (components p) \<Longrightarrow> \<exists>cs. components p = RootDir # cs \<and> RootDir \<notin> set cs \<and> CurDir \<notin> set cs"
  by (auto simp: components_def component_of_def Let_def split: if_splits list.splits)

end
