(* ===== verification/Registry.thy ===== *)
theory Registry
  imports Types Documents Paths
begin

text \<open>
  The registry and the router (\<open>rs/src/registry.rs\<close>): the generated file's checks, the tiers
  (workspace over user over bundled), the routing of a document to its entry, and the URI and
  path helpers. Two things of the standard library are parameters: \<open>lc\<close> is
  \<open>str::to_lowercase\<close> and \<open>parse\<close> is the JSON text codec. Paths are their text. The global
  tier is a \<open>keyed_store\<close>, and so is the store of open documents.
\<close>

section \<open>The registry file\<close>

record registry =
  rg_generated :: "rstr option"
  rg_count :: nat
  rg_entries :: "entry list"

definition read_entry :: "json \<Rightarrow> entry option" where
  "read_entry v = (case v of JObj m \<Rightarrow> entry_of_fields m | _ \<Rightarrow> None)"

definition read_entries :: "json \<Rightarrow> entry list option" where
  "read_entries v = (case v of JArr vs \<Rightarrow> read_all read_entry vs | _ \<Rightarrow> None)"

definition registry_of_value :: "json \<Rightarrow> registry option" where
  "registry_of_value v = (case v of
      JObj m \<Rightarrow> do {
        generated \<leftarrow> opt_field read_string m (str ''generated'');
        count \<leftarrow> Option.bind (obj_get m (str ''count'')) read_usize;
        entries \<leftarrow> Option.bind (obj_get m (str ''entries'')) read_entries;
        Some \<lparr>rg_generated = generated, rg_count = count, rg_entries = entries\<rparr>
      }
    | _ \<Rightarrow> None)"

text \<open>
  \<open>parse src\<close> is what \<open>serde_json\<close> reads of the text, or its message; \<open>shape v\<close> its message
  for a value that is not a registry.
\<close>

definition registry_from_json :: "(rstr \<Rightarrow> rstr + json) \<Rightarrow> (json \<Rightarrow> rstr) \<Rightarrow> rstr \<Rightarrow> rstr + registry" where
  "registry_from_json parse shape src =
     (case (case parse src of
              Inl m \<Rightarrow> Inl m
            | Inr v \<Rightarrow> (case registry_of_value v of None \<Rightarrow> Inl (shape v) | Some r \<Rightarrow> Inr r)) of
        Inl m \<Rightarrow> Inl (str ''registry.json: '' @ m)
      | Inr r \<Rightarrow>
          if rg_count r \<noteq> length (rg_entries r)
          then Inl (str ''registry.json count '' @ show_nat (rg_count r) @ str '' disagrees with its '' @
                 show_nat (length (rg_entries r)) @ str '' entries'')
          else if rg_entries r = [] then Inl (str ''registry.json has no entries'')
          else Inr r)"

definition registry_entry :: "registry \<Rightarrow> rstr \<Rightarrow> entry option" where
  "registry_entry r i = find (\<lambda>e. language_id e = i) (rg_entries r)"

definition registry_clean :: "registry \<Rightarrow> rstr \<Rightarrow> bool" where
  "registry_clean r i = (case registry_entry r i of Some e \<Rightarrow> is_clean e | None \<Rightarrow> False)"

definition registry_overrides :: "registry \<Rightarrow> rstr \<Rightarrow> overrides option" where
  "registry_overrides r i = Option.bind (registry_entry r i) en_semantic_tokens"

definition registry_language_ids :: "registry \<Rightarrow> rstr list" where
  "registry_language_ids r = map language_id (rg_entries r)"

text \<open>\<open>collect\<close> into a hash map: a later entry replaces an earlier one.\<close>

definition by_language_id :: "registry \<Rightarrow> rstr \<rightharpoonup> entry" where
  "by_language_id r = map_of (rev (map (\<lambda>e. (language_id e, e)) (rg_entries r)))"

definition to_entries :: "registry \<Rightarrow> entry list" where
  "to_entries r = rg_entries r"

section \<open>URIs and paths\<close>

text \<open>\<open>uri.rfind('.')\<close> and the text after it.\<close>

definition ext_of :: "(rstr \<Rightarrow> rstr) \<Rightarrow> rstr \<Rightarrow> rstr option" where
  "ext_of lc uri =
     (if 46 \<notin> set uri then None
      else let ext = rev (takeWhile (\<lambda>c. c \<noteq> 46) (rev uri)) in
        if ext = [] \<or> list_ex (\<lambda>c. c = 47 \<or> c = 92) ext then None else Some ([46] @ lc ext))"

definition hex_value :: "u8 \<Rightarrow> nat" where
  "hex_value b = (if b \<le> 57 then b - 48 else if b \<le> 70 then b - 55 else b - 87)"

fun decode_escapes :: "u8 list \<Rightarrow> u8 list option" where
  "decode_escapes [] = Some []"
| "decode_escapes (b # bs) =
     (if b = 37 then
        (case bs of
           h1 # h2 # rest \<Rightarrow>
             if is_ascii_hexdigit h1 \<and> is_ascii_hexdigit h2
             then map_option (\<lambda>out. (16 * hex_value h1 + hex_value h2) # out) (decode_escapes rest)
             else None
         | _ \<Rightarrow> None)
      else map_option (\<lambda>out. b # out) (decode_escapes bs))"

definition decode_uri_component :: "rstr \<Rightarrow> rstr option" where
  "decode_uri_component src = Option.bind (decode_escapes (encode_utf8 src)) decode_utf8"

definition strip_drive_slash :: "rstr \<Rightarrow> rstr" where
  "strip_drive_slash p =
     (case (byte_at p 1, byte_at p 2) of
        (Some a, Some b) \<Rightarrow> if is_ascii_alphabetic a \<and> b = 58 then tl p else p
      | _ \<Rightarrow> p)"

definition fs_path_of :: "rstr \<Rightarrow> rstr option" where
  "fs_path_of uri = do {
     rest \<leftarrow> strip_prefix uri (str ''file://'');
     let path = dropWhile (\<lambda>c. c \<noteq> 47) rest;
     if path = [] \<or> list_ex (\<lambda>c. c \<in> {10, 13, 0x2028, 0x2029}) path then None
     else map_option strip_drive_slash (decode_uri_component path)
   }"

definition windowsy :: "rstr \<Rightarrow> bool" where
  "windowsy p \<longleftrightarrow>
     (case (byte_at p 0, byte_at p 1) of
        (Some a, Some b) \<Rightarrow> is_ascii_alphabetic a \<and> b = 58 | _ \<Rightarrow> False) \<or>
     starts_with p [92, 92]"

definition trimmed_dir :: "rstr \<Rightarrow> rstr" where
  "trimmed_dir dir = trim_end_matches (\<lambda>c. c = 47)
     (if windowsy dir then map (\<lambda>c. if c = 92 then 47 else c) dir else dir)"

definition contains :: "rstr \<Rightarrow> rstr \<Rightarrow> bool" where
  "contains dir fs_path = (let d = trimmed_dir dir in
     fs_path = d \<or>
     (case strip_prefix fs_path d of Some rest \<Rightarrow> starts_with rest [47] | None \<Rightarrow> False))"

section \<open>Resolutions\<close>

datatype via = WorkspaceLanguageId | WorkspaceExtension | LanguageId | Extension | MediaType

fun via_as_str :: "via \<Rightarrow> rstr" where
  "via_as_str WorkspaceLanguageId = str ''workspace:languageId''"
| "via_as_str WorkspaceExtension = str ''workspace:extension''"
| "via_as_str LanguageId = str ''languageId''"
| "via_as_str Extension = str ''extension''"
| "via_as_str MediaType = str ''mediaType''"

record resolution =
  rs_entry :: "entry option"
  rs_via :: "via option"
  rs_ambiguous :: "rstr list"

definition resolution_none :: resolution where
  "resolution_none = \<lparr>rs_entry = None, rs_via = None, rs_ambiguous = []\<rparr>"

definition found :: "entry \<Rightarrow> via \<Rightarrow> resolution" where
  "found e v = \<lparr>rs_entry = Some e, rs_via = Some v, rs_ambiguous = []\<rparr>"

section \<open>The router\<close>

record router =
  rt_global :: "entry list"
  rt_by_id :: "rstr \<rightharpoonup> nat"
  rt_workspace :: "entry list"

text \<open>\<open>None\<close> is the panic of \<open>self.global[index] = entry\<close>.\<close>

definition put_global :: "router \<Rightarrow> entry \<Rightarrow> router option" where
  "put_global r e = (case rt_by_id r (language_id e) of
      Some i \<Rightarrow> map_option (\<lambda>g. r\<lparr>rt_global := g\<rparr>) (set_at (rt_global r) i e)
    | None \<Rightarrow> Some (r\<lparr>rt_by_id := (rt_by_id r)(language_id e \<mapsto> length (rt_global r)),
                      rt_global := rt_global r @ [e]\<rparr>))"

definition router_new :: "entry list \<Rightarrow> entry list \<Rightarrow> entry list \<Rightarrow> router option" where
  "router_new bundled workspace user =
     put_all put_global \<lparr>rt_global = [], rt_by_id = (\<lambda>_. None), rt_workspace = workspace\<rparr> (bundled @ user)"

definition router_get :: "router \<Rightarrow> rstr \<Rightarrow> entry option" where
  "router_get r i = Option.bind (rt_by_id r i) (index (rt_global r))"

definition scope_of :: "entry \<Rightarrow> rstr option" where
  "scope_of e = (case en_scope e of
      ScopeDir \<Rightarrow> declared (en_dir e) | ScopeSession \<Rightarrow> None | ScopeFolder f \<Rightarrow> Some f)"

definition js_length :: "rstr \<Rightarrow> nat" where
  "js_length p = utf16_len p"

definition claims :: "(rstr \<Rightarrow> rstr) \<Rightarrow> rstr list \<Rightarrow> rstr \<Rightarrow> bool" where
  "claims lc extensions ext = list_ex (\<lambda>x. lc x = ext) extensions"

definition media_essence :: "rstr \<Rightarrow> rstr" where
  "media_essence m = to_ascii_lowercase (trim (hd (split_char 59 m)))"

text \<open>
  The loop of \<open>tie_break\<close>. Entries are compared by address, here by their place in the
  list; an entry is visited once per claim it makes.
\<close>

definition tie_hit :: "nat \<times> entry \<Rightarrow> (nat \<times> entry) option \<times> entry list \<Rightarrow> (nat \<times> entry) option \<times> entry list" where
  "tie_hit x st = (case st of (best, ambiguous) \<Rightarrow>
     (case best of
        Some w \<Rightarrow> if fst w \<noteq> fst x then (best, ambiguous @ [snd x]) else (Some x, ambiguous)
      | None \<Rightarrow> (Some x, ambiguous)))"

definition tie_loop :: "(entry \<Rightarrow> nat) \<Rightarrow> (nat \<times> entry) list \<Rightarrow>
    (nat \<times> entry) option \<times> entry list \<Rightarrow> (nat \<times> entry) option \<times> entry list" where
  "tie_loop hits xs st = foldl (\<lambda>st x. (tie_hit x ^^ hits (snd x)) st) st xs"

definition tie_break :: "entry list \<Rightarrow> (entry \<Rightarrow> nat) \<Rightarrow> via \<Rightarrow> resolution" where
  "tie_break entries hits v =
     (case tie_loop hits (filter (\<lambda>x. is_routable (snd x)) (List.enumerate 0 entries)) (None, []) of
        (None, ambiguous) \<Rightarrow> resolution_none
      | (Some best, ambiguous) \<Rightarrow>
          if ambiguous = [] then found (snd best) v
          else (found (snd best) v)\<lparr>rs_ambiguous := map language_id (snd best # ambiguous)\<rparr>)"

definition count_if :: "('a \<Rightarrow> bool) \<Rightarrow> 'a list \<Rightarrow> nat" where
  "count_if P xs = length (filter P xs)"

text \<open>The workspace entries that apply to a document, deepest folder first.\<close>

definition candidates :: "router \<Rightarrow> rstr option \<Rightarrow> entry list" where
  "candidates r fs_path =
     (let usable = filter is_routable (rt_workspace r);
          scoped = (case fs_path of
              None \<Rightarrow> []
            | Some p \<Rightarrow> map (\<lambda>e. (e, js_length (unwrap_or (scope_of e) [])))
                (filter (\<lambda>e. case scope_of e of None \<Rightarrow> False | Some s \<Rightarrow> contains s p) usable));
          ordered = sort_key (\<lambda>x. - int (snd x)) scoped
      in map fst ordered @ filter (\<lambda>e. scope_of e = None) usable)"

definition resolve :: "(rstr \<Rightarrow> rstr) \<Rightarrow> router \<Rightarrow> rstr \<Rightarrow> rstr \<Rightarrow> resolution" where
  "resolve lc r lang uri =
     (let ext = ext_of lc uri; cands = candidates r (fs_path_of uri) in
      case find (\<lambda>e. language_id e = lang) cands of
        Some e \<Rightarrow> found e WorkspaceLanguageId
      | None \<Rightarrow>
        (case Option.bind ext (\<lambda>x. find (\<lambda>e. claims lc (en_extensions e) x) cands) of
           Some e \<Rightarrow> found e WorkspaceExtension
         | None \<Rightarrow>
           (case router_get r lang of
              Some direct \<Rightarrow>
                if is_routable direct then found direct LanguageId
                else (case ext of
                    None \<Rightarrow> resolution_none
                  | Some x \<Rightarrow> tie_break (rt_global r) (\<lambda>e. count_if (\<lambda>y. lc y = x) (en_extensions e)) Extension)
            | None \<Rightarrow>
                (case ext of
                    None \<Rightarrow> resolution_none
                  | Some x \<Rightarrow> tie_break (rt_global r) (\<lambda>e. count_if (\<lambda>y. lc y = x) (en_extensions e)) Extension))))"

definition resolve_media_type :: "router \<Rightarrow> rstr \<Rightarrow> resolution" where
  "resolve_media_type r m = (let wanted = media_essence m in
     if wanted = [] then resolution_none
     else tie_break (rt_global r) (\<lambda>e. count_if (\<lambda>d. media_essence d = wanted) (en_media_types e)) MediaType)"

definition resolve_with_media_type :: "(rstr \<Rightarrow> rstr) \<Rightarrow> router \<Rightarrow> rstr \<Rightarrow> rstr \<Rightarrow> rstr option \<Rightarrow> resolution" where
  "resolve_with_media_type lc r lang uri m =
     (let res = resolve lc r lang uri in
      case m of
        Some mt \<Rightarrow> if rs_entry res = None then resolve_media_type r mt else res
      | None \<Rightarrow> res)"

definition router_all :: "router \<Rightarrow> entry list" where
  "router_all r = rt_global r @ rt_workspace r"

definition set_workspace :: "router \<Rightarrow> entry list \<Rightarrow> router" where
  "set_workspace r w = r\<lparr>rt_workspace := w\<rparr>"

text \<open>\<open>watched\<close> is \<open>loaders::watched_file\<close>; paths are equal when their components are.\<close>

definition reloaded_by :: "(entry \<Rightarrow> rstr option) \<Rightarrow> router \<Rightarrow> rstr list \<Rightarrow> entry list" where
  "reloaded_by watched r changed =
     filter (\<lambda>e. case watched e of Some f \<Rightarrow> list_ex (\<lambda>c. components c = components f) changed | None \<Rightarrow> False) (router_all r)"

section \<open>The global tier is a keyed store\<close>

definition router_ok :: "router \<Rightarrow> bool" where
  "router_ok r \<longleftrightarrow> (\<forall>i n. rt_by_id r i = Some n \<longleftrightarrow> n < length (rt_global r) \<and> language_id (rt_global r ! n) = i)"

lemma router_ok_bound:
  "router_ok r \<Longrightarrow> rt_by_id r i = Some n \<Longrightarrow> n < length (rt_global r) \<and> language_id (rt_global r ! n) = i"
  by (simp add: router_ok_def)

lemma router_ok_at:
  "router_ok r \<Longrightarrow> n < length (rt_global r) \<Longrightarrow> rt_by_id r (language_id (rt_global r ! n)) = Some n"
  by (simp add: router_ok_def)

lemma router_ok_distinct:
  assumes "router_ok r" shows "distinct (map language_id (rt_global r))"
  unfolding distinct_conv_nth using router_ok_at [OF assms] by (metis length_map nth_map option.inject)

lemma put_global_total:
  assumes "router_ok r"
  shows "\<exists>r'. put_global r e = Some r' \<and> router_ok r' \<and> rt_workspace r' = rt_workspace r"
proof (cases "rt_by_id r (language_id e)")
  case None
  have "router_ok (r\<lparr>rt_by_id := (rt_by_id r)(language_id e \<mapsto> length (rt_global r)),
      rt_global := rt_global r @ [e]\<rparr>)"
    unfolding router_ok_def
  proof (intro allI)
    fix i n
    show "rt_by_id (r\<lparr>rt_by_id := (rt_by_id r)(language_id e \<mapsto> length (rt_global r)), rt_global := rt_global r @ [e]\<rparr>) i = Some n \<longleftrightarrow>
        n < length (rt_global (r\<lparr>rt_by_id := (rt_by_id r)(language_id e \<mapsto> length (rt_global r)), rt_global := rt_global r @ [e]\<rparr>)) \<and>
        language_id (rt_global (r\<lparr>rt_by_id := (rt_by_id r)(language_id e \<mapsto> length (rt_global r)), rt_global := rt_global r @ [e]\<rparr>) ! n) = i"
      using router_ok_bound [OF assms, of i n] router_ok_at [OF assms, of n] None
      by (auto simp: nth_append less_Suc_eq)
  qed
  with None show ?thesis by (simp add: put_global_def)
next
  case (Some k)
  note k = router_ok_bound [OF assms Some]
  have "router_ok (r\<lparr>rt_global := (rt_global r)[k := e]\<rparr>)"
    unfolding router_ok_def
  proof (intro allI)
    fix i n
    show "rt_by_id (r\<lparr>rt_global := (rt_global r)[k := e]\<rparr>) i = Some n \<longleftrightarrow>
        n < length (rt_global (r\<lparr>rt_global := (rt_global r)[k := e]\<rparr>)) \<and>
        language_id (rt_global (r\<lparr>rt_global := (rt_global r)[k := e]\<rparr>) ! n) = i"
      using router_ok_bound [OF assms, of i n] router_ok_at [OF assms, of n] k Some
      by (cases "n = k") auto
  qed
  with Some k show ?thesis by (simp add: put_global_def set_at_def)
qed

lemma router_get_put:
  assumes "router_ok r" "put_global r e = Some r'"
  shows "router_get r' i = (if i = language_id e then Some e else router_get r i)"
proof (cases "rt_by_id r (language_id e)")
  case None
  with assms(2) have r': "r' = r\<lparr>rt_by_id := (rt_by_id r)(language_id e \<mapsto> length (rt_global r)),
      rt_global := rt_global r @ [e]\<rparr>" by (simp add: put_global_def)
  show ?thesis
  proof (cases "rt_by_id r i")
    case (Some n)
    with router_ok_bound [OF assms(1) Some] None show ?thesis
      by (auto simp: r' router_get_def nth_append)
  qed (simp add: r' router_get_def)
next
  case (Some k)
  note k = router_ok_bound [OF assms(1) Some]
  with assms(2) Some have r': "r' = r\<lparr>rt_global := (rt_global r)[k := e]\<rparr>"
    by (simp add: put_global_def set_at_def)
  show ?thesis
  proof (cases "rt_by_id r i")
    case None
    with Some show ?thesis by (auto simp: r' router_get_def)
  next
    case (Some n)
    with router_ok_bound [OF assms(1) Some] k show ?thesis
      by (cases "n = k") (auto simp: r' router_get_def \<open>rt_by_id r (language_id e) = Some k\<close>)
  qed
qed

interpretation global_tier: keyed_store put_global router_get language_id router_ok
  using put_global_total router_get_put by unfold_locales blast+

interpretation open_docs: keyed_store "\<lambda>st d. Some (store_insert st d)" store_get doc_uri "\<lambda>_. True"
  by unfold_locales (auto simp: store_insert_def store_get_def)

section \<open>The order of the global tier\<close>

text \<open>The first occurrence of every element, in order.\<close>

definition first_occurrences :: "'a list \<Rightarrow> 'a list" where
  "first_occurrences xs = rev (remdups (rev xs))"

lemma first_occurrences_snoc:
  "first_occurrences (xs @ [x]) =
    (if x \<in> set xs then first_occurrences xs else first_occurrences xs @ [x])"
  by (simp add: first_occurrences_def)

lemma put_global_ids:
  assumes "router_ok r" "put_global r e = Some r'"
  shows "map language_id (rt_global r') =
    (if language_id e \<in> set (map language_id (rt_global r)) then map language_id (rt_global r)
     else map language_id (rt_global r) @ [language_id e])"
proof (cases "rt_by_id r (language_id e)")
  case None
  have "language_id e \<notin> set (map language_id (rt_global r))"
    using router_ok_at [OF assms(1)] None by (auto simp: in_set_conv_nth)
  with None assms(2) show ?thesis by (auto simp: put_global_def)
next
  case (Some k)
  note k = router_ok_bound [OF assms(1) Some]
  have "map language_id ((rt_global r)[k := e]) = map language_id (rt_global r)"
    using k by (metis list_update_id map_update)
  moreover have "language_id e \<in> set (map language_id (rt_global r))"
    using k by (metis image_eqI nth_mem set_map)
  moreover have "rt_global r' = (rt_global r)[k := e]"
    using assms(2) k by (auto simp: put_global_def set_at_def Some)
  ultimately show ?thesis by (simp only: if_True)
qed

lemma put_all_snoc: "put_all put s (vs @ [v]) = Option.bind (put_all put s vs) (\<lambda>s'. put s' v)"
  by (induction vs arbitrary: s) (auto split: Option.bind_splits)

definition empty_router :: "entry list \<Rightarrow> router" where
  "empty_router w = \<lparr>rt_global = [], rt_by_id = (\<lambda>_. None), rt_workspace = w\<rparr>"

lemma put_all_global:
  "\<exists>r. put_all put_global (empty_router w) es = Some r \<and> router_ok r \<and> rt_workspace r = w \<and>
    map language_id (rt_global r) = first_occurrences (map language_id es)"
proof (induction es rule: rev_induct)
  case Nil
  then show ?case by (simp add: empty_router_def router_ok_def first_occurrences_def)
next
  case (snoc e es)
  then obtain r where r: "put_all put_global (empty_router w) es = Some r" "router_ok r" "rt_workspace r = w"
    "map language_id (rt_global r) = first_occurrences (map language_id es)" by blast
  obtain r' where r': "put_global r e = Some r'" "router_ok r'" "rt_workspace r' = w"
    using put_global_total [OF r(2), of e] r(3) by auto
  have "set (map language_id (rt_global r)) = set (map language_id es)"
    unfolding r(4) by (simp add: first_occurrences_def)
  then have "map language_id (rt_global r') = first_occurrences (map language_id (es @ [e]))"
    unfolding put_global_ids [OF r(2) r'(1)] map_append list.map first_occurrences_snoc
    by (simp only: r(4))
  moreover have "put_all put_global (empty_router w) (es @ [e]) = Some r'"
    unfolding put_all_snoc r(1) by (simp add: r'(1))
  ultimately show ?case using r'(2,3) by blast
qed

section \<open>Candidates\<close>

definition applies :: "entry \<Rightarrow> rstr option \<Rightarrow> bool" where
  "applies e fs_path \<longleftrightarrow> (case scope_of e of
      None \<Rightarrow> True | Some s \<Rightarrow> (case fs_path of None \<Rightarrow> False | Some p \<Rightarrow> contains s p))"

text \<open>Deeper folders first; a session-wide entry after every folder.\<close>

definition depth_rank :: "entry \<Rightarrow> nat" where
  "depth_rank e = (case scope_of e of None \<Rightarrow> 0 | Some s \<Rightarrow> Suc (js_length s))"

lemma set_candidates:
  "set (candidates r p) = {e \<in> set (rt_workspace r). is_routable e \<and> applies e p}"
proof -
  have img: "fst ` set (sort_key (\<lambda>x. - int (snd x)) (map (\<lambda>e. (e, g e)) xs)) = set xs"
    for xs :: "entry list" and g :: "entry \<Rightarrow> nat"
    by (simp add: image_image)
  show ?thesis
    by (cases p) (auto simp: candidates_def Let_def applies_def img image_image split: option.splits)
qed

lemma sorted_wrt_const: "\<forall>e\<in>set xs. f e = (0 :: nat) \<Longrightarrow> sorted_wrt (\<lambda>a b. f b \<le> f a) xs"
  by (induction xs) auto

lemma sorted_candidates: "sorted_wrt (\<lambda>a b. depth_rank b \<le> depth_rank a) (candidates r p)"
proof -
  let ?usable = "filter is_routable (rt_workspace r)"
  let ?scoped = "case p of None \<Rightarrow> [] | Some q \<Rightarrow> map (\<lambda>e. (e, js_length (unwrap_or (scope_of e) [])))
      (filter (\<lambda>e. case scope_of e of None \<Rightarrow> False | Some s \<Rightarrow> contains s q) ?usable)"
  let ?ord = "sort_key (\<lambda>x. - int (snd x)) ?scoped"
  have mem: "x \<in> set ?ord \<Longrightarrow> depth_rank (fst x) = Suc (snd x)" for x
    by (auto simp: depth_rank_def unwrap_or_def split: option.splits)
  have "sorted (map (\<lambda>x. - int (snd x)) ?ord)" by simp
  then have "sorted_wrt (\<lambda>a b. snd b \<le> snd a) ?ord" by (simp add: sorted_map)
  then have "sorted_wrt (\<lambda>a b. depth_rank (fst b) \<le> depth_rank (fst a)) ?ord"
    by (rule sorted_wrt_mono_rel [rotated]) (simp add: mem)
  moreover have "\<forall>e\<in>set (filter (\<lambda>e. scope_of e = None) ?usable). depth_rank e = 0"
    by (simp add: depth_rank_def)
  moreover from this have "sorted_wrt (\<lambda>a b. depth_rank b \<le> depth_rank a) (filter (\<lambda>e. scope_of e = None) ?usable)"
    by (rule sorted_wrt_const)
  ultimately show ?thesis
    by (auto simp: candidates_def Let_def sorted_wrt_append sorted_wrt_map)
qed

lemma find_first_max:
  assumes "sorted_wrt (\<lambda>a b. f b \<le> (f a :: nat)) xs" "find P xs = Some w" "e \<in> set xs" "P e"
  shows "f e \<le> f w"
  using assms
  by (induction xs) (auto split: if_splits)

lemma find_member: "find P xs = Some w \<Longrightarrow> w \<in> set xs \<and> P w"
  by (auto simp: find_Some_iff in_set_conv_nth)

lemma find_nothing: "find P xs = None \<longleftrightarrow> (\<forall>x\<in>set xs. \<not> P x)"
  by (auto simp: find_None_iff)

section \<open>Ties\<close>

lemma tie_hit_other:
  "fst w \<noteq> fst x \<Longrightarrow> (tie_hit x ^^ n) (Some w, amb) = (Some w, amb @ replicate n (snd x))"
  by (induction n) (auto simp: tie_hit_def replicate_append_same)

lemma tie_hit_none: "(tie_hit x ^^ n) (None, []) = (if n = 0 then None else Some x, [])"
  by (induction n) (auto simp: tie_hit_def)

lemma tie_loop_after:
  "\<forall>x\<in>set xs. fst x \<noteq> fst w \<Longrightarrow>
    tie_loop hits xs (Some w, amb) = (Some w, amb @ concat (map (\<lambda>x. replicate (hits (snd x)) (snd x)) xs))"
proof (induction xs arbitrary: amb)
  case Nil
  then show ?case by (simp add: tie_loop_def)
next
  case (Cons x xs)
  then have "fst w \<noteq> fst x" by auto
  then have "tie_loop hits (x # xs) (Some w, amb) = tie_loop hits xs (Some w, amb @ replicate (hits (snd x)) (snd x))"
    by (simp add: tie_loop_def tie_hit_other)
  with Cons show ?case by simp
qed

lemma tie_loop_result:
  "distinct (map fst xs) \<Longrightarrow>
    tie_loop hits xs (None, []) =
      (case filter (\<lambda>x. 0 < hits (snd x)) xs of
         [] \<Rightarrow> (None, [])
       | x # rest \<Rightarrow> (Some x, concat (map (\<lambda>y. replicate (hits (snd y)) (snd y)) rest)))"
proof (induction xs)
  case Nil
  then show ?case by (simp add: tie_loop_def)
next
  case (Cons x xs)
  show ?case
  proof (cases "hits (snd x) = 0")
    case True
    then have "tie_loop hits (x # xs) (None, []) = tie_loop hits xs (None, [])"
      by (simp add: tie_loop_def)
    with Cons True show ?thesis by simp
  next
    case False
    then have "tie_loop hits (x # xs) (None, []) = tie_loop hits xs (Some x, [])"
      by (simp add: tie_loop_def tie_hit_none)
    also have "\<dots> = (Some x, concat (map (\<lambda>x. replicate (hits (snd x)) (snd x)) xs))"
      using tie_loop_after [of xs x hits "[]"] Cons.prems by (force simp: image_iff)
    also have "concat (map (\<lambda>x. replicate (hits (snd x)) (snd x)) xs) =
        concat (map (\<lambda>x. replicate (hits (snd x)) (snd x)) (filter (\<lambda>x. 0 < hits (snd x)) xs))"
      by (induction xs) auto
    finally show ?thesis using False by simp
  qed
qed

text \<open>The entries with a claim, in order.\<close>

definition claimants :: "(entry \<Rightarrow> nat) \<Rightarrow> entry list \<Rightarrow> entry list" where
  "claimants hits es = filter (\<lambda>e. is_routable e \<and> 0 < hits e) es"

lemma claimants_enumerate:
  "map snd (filter (\<lambda>x. is_routable (snd x) \<and> 0 < hits (snd x)) (List.enumerate k es)) = claimants hits es"
  by (induction es arbitrary: k) (auto simp: claimants_def)

lemma tie_break_claimants:
  "tie_break es hits v =
    (case claimants hits es of
       [] \<Rightarrow> resolution_none
     | [e] \<Rightarrow> found e v
     | e # rest \<Rightarrow> (found e v)\<lparr>rs_ambiguous :=
         language_id e # concat (map (\<lambda>y. replicate (hits y) (language_id y)) rest)\<rparr>)"
proof -
  let ?xs = "filter (\<lambda>x. is_routable (snd x)) (List.enumerate 0 es)"
  let ?cs = "filter (\<lambda>x. 0 < hits (snd x)) ?xs"
  have cs: "map snd ?cs = claimants hits es"
    using claimants_enumerate [of hits 0 es] by (simp add: conj_commute)
  have dist: "distinct (map fst ?xs)"
    by (rule distinct_map_filter) simp
  show ?thesis
  proof (cases ?cs)
    case Nil
    with cs tie_loop_result [OF dist, of hits] show ?thesis by (simp add: tie_break_def)
  next
    case (Cons x rest)
    let ?amb = "concat (map (\<lambda>y. replicate (hits (snd y)) (snd y)) rest)"
    have loop: "tie_loop hits ?xs (None, []) = (Some x, ?amb)"
      using tie_loop_result [OF dist, of hits] Cons by simp
    have all: "claimants hits es = snd x # map snd rest" using cs Cons by simp
    have pos: "\<forall>y\<in>set rest. 0 < hits (snd y)"
      using arg_cong [OF Cons, of set] by auto
    have amb: "map language_id ?amb = concat (map (\<lambda>y. replicate (hits y) (language_id y)) (map snd rest))"
      by (simp add: map_concat o_def)
    show ?thesis
    proof (cases rest)
      case Nil
      with loop all show ?thesis by (simp add: tie_break_def)
    next
      case (Cons y ys)
      then have "?amb \<noteq> []" using pos by auto
      then have "tie_break es hits v = (found (snd x) v)\<lparr>rs_ambiguous := map language_id (snd x # ?amb)\<rparr>"
        unfolding tie_break_def loop by (simp only: prod.case option.case if_False)
      also have "map language_id (snd x # ?amb) =
          language_id (snd x) # concat (map (\<lambda>y. replicate (hits y) (language_id y)) (map snd rest))"
        by (simp only: list.map amb)
      finally show ?thesis using all Cons by simp
    qed
  qed
qed

lemma tie_break_entry:
  "rs_entry (tie_break es hits v) = (case claimants hits es of [] \<Rightarrow> None | e # _ \<Rightarrow> Some e)"
  "rs_entry (tie_break es hits v) = Some e \<Longrightarrow> rs_via (tie_break es hits v) = Some v"
  by (auto simp: tie_break_claimants found_def resolution_none_def split: list.splits)

section \<open>Percent encoding\<close>

text \<open>What an editor does to a path: every byte but the unreserved ones and \<open>/\<close> is escaped.\<close>

definition hex_digit :: "nat \<Rightarrow> rchar" where
  "hex_digit n = (if n < 10 then 48 + n else 55 + n)"

definition unreserved :: "u8 \<Rightarrow> bool" where
  "unreserved b \<longleftrightarrow> is_ascii_alphanumeric b \<or> b \<in> {45, 46, 47, 95, 126}"

definition escape_byte :: "u8 \<Rightarrow> rstr" where
  "escape_byte b = (if unreserved b then [b] else [37, hex_digit (b div 16), hex_digit (b mod 16)])"

definition percent_encode :: "rstr \<Rightarrow> rstr" where
  "percent_encode p = concat (map escape_byte (encode_utf8 p))"

lemma hex_digit_value: "n < 16 \<Longrightarrow> is_ascii_hexdigit (hex_digit n) \<and> hex_value (hex_digit n) = n"
  by (auto simp: hex_digit_def hex_value_def is_ascii_hexdigit_def is_ascii_digit_def)

lemma hex_digit_ascii: "n < 16 \<Longrightarrow> hex_digit n < 128"
  by (simp add: hex_digit_def)

lemma unreserved_ascii: "unreserved b \<Longrightarrow> b < 128 \<and> b \<noteq> 37"
  by (auto simp: unreserved_def is_ascii_alphanumeric_def is_ascii_alphabetic_def is_ascii_digit_def)

lemma escape_byte_ascii: "b < 256 \<Longrightarrow> c \<in> set (escape_byte b) \<Longrightarrow> c < 128"
  using unreserved_ascii [of b] hex_digit_ascii [of "b div 16"] hex_digit_ascii [of "b mod 16"]
  by (auto simp: escape_byte_def split: if_splits)

lemma escape_byte_no_newline: "b < 256 \<Longrightarrow> c \<in> set (escape_byte b) \<Longrightarrow> c \<notin> {10, 13, 0x2028, 0x2029}"
proof -
  have "45 \<le> b" if "unreserved b"
    using that by (auto simp: unreserved_def is_ascii_alphanumeric_def is_ascii_alphabetic_def is_ascii_digit_def)
  moreover have "37 \<le> hex_digit n" for n by (simp add: hex_digit_def)
  moreover assume b: "b < 256" and c: "c \<in> set (escape_byte b)"
  ultimately have "37 \<le> c" by (auto simp: escape_byte_def split: if_splits)
  moreover have "c < 128" by (rule escape_byte_ascii [OF b c])
  ultimately show ?thesis by auto
qed

lemma encode_ascii: "\<forall>c\<in>set s. c < 128 \<Longrightarrow> encode_utf8 s = s"
  by (induction s) (auto simp: encode_char_ascii)

lemma decode_escape_byte:
  "b < 256 \<Longrightarrow> decode_escapes (escape_byte b @ bs) = map_option (\<lambda>out. b # out) (decode_escapes bs)"
  using hex_digit_value [of "b div 16"] hex_digit_value [of "b mod 16"] unreserved_ascii [of b]
  by (auto simp: escape_byte_def)

lemma decode_escaped:
  "\<forall>b\<in>set bs. b < 256 \<Longrightarrow> decode_escapes (concat (map escape_byte bs)) = Some bs"
  by (induction bs) (auto simp: decode_escape_byte)

lemma encode_char_byte: "is_scalar c \<Longrightarrow> b \<in> set (encode_char c) \<Longrightarrow> b < 256"
  by (auto simp: encode_char_def is_scalar_def split: if_splits)

lemma encode_utf8_bytes: "valid_text s \<Longrightarrow> \<forall>b\<in>set (encode_utf8 s). b < 256"
  using encode_char_byte by (fastforce simp: encode_utf8_def valid_text_def)

lemma decode_percent_encode:
  assumes "valid_text p" shows "decode_uri_component (percent_encode p) = Some p"
proof -
  note bytes = encode_utf8_bytes [OF assms]
  have "\<forall>c\<in>set (percent_encode p). c < 128"
    using bytes escape_byte_ascii by (fastforce simp: percent_encode_def)
  then have "encode_utf8 (percent_encode p) = percent_encode p" by (rule encode_ascii)
  then have "decode_escapes (encode_utf8 (percent_encode p)) = Some (encode_utf8 p)"
    using decode_escaped [OF bytes] by (simp add: percent_encode_def)
  then show ?thesis by (simp add: decode_uri_component_def decode_encode_utf8 assms)
qed

section \<open>Properties\<close>

text \<open>
  C33: the configuration tiers. Building a router never panics; the workspace tier is kept as
  given, no two global entries share a language id, a language id looks up the last entry
  declared for it (the user's over the bundled one), and the global tier keeps the order in
  which language ids were first declared.
\<close>

theorem router_tiers:
  "\<exists>r. router_new bundled workspace user = Some r \<and> rt_workspace r = workspace \<and>
     distinct (map language_id (rt_global r)) \<and>
     (\<forall>i. router_get r i = find (\<lambda>e. language_id e = i) (rev (bundled @ user))) \<and>
     map language_id (rt_global r) = rev (remdups (rev (map language_id (bundled @ user))))"
proof -
  obtain r where r: "put_all put_global (empty_router workspace) (bundled @ user) = Some r" "router_ok r"
    "rt_workspace r = workspace" "map language_id (rt_global r) = first_occurrences (map language_id (bundled @ user))"
    using put_all_global [of workspace "bundled @ user"] by blast
  have "router_ok (empty_router workspace)" "router_get (empty_router workspace) i = None" for i
    by (simp_all add: empty_router_def router_ok_def router_get_def)
  with global_tier.get_put_all [OF _ r(1)]
  have "router_get r i = find (\<lambda>e. language_id e = i) (rev (bundled @ user))" for i
    by (simp split: option.splits)
  with r router_ok_distinct [OF r(2)] show ?thesis
    by (simp add: router_new_def empty_router_def first_occurrences_def)
qed

text \<open>
  C16: routing never serves an entry that should not. Whatever entry a document is routed to
  is enabled and no modifier, and it is reached the way the resolution says: a workspace
  entry whose folder holds the document (or that is session-wide) by its language id or by a
  claimed extension, the global entry of the client's language id, or a global entry that
  claims the extension.
\<close>

theorem resolve_sound:
  assumes "rs_entry (resolve lc r lang uri) = Some e"
  shows "is_routable e \<and>
    (case rs_via (resolve lc r lang uri) of
       Some WorkspaceLanguageId \<Rightarrow> e \<in> set (rt_workspace r) \<and> applies e (fs_path_of uri) \<and> language_id e = lang
     | Some WorkspaceExtension \<Rightarrow> e \<in> set (rt_workspace r) \<and> applies e (fs_path_of uri) \<and>
         (\<exists>x. ext_of lc uri = Some x \<and> x \<in> lc ` set (en_extensions e))
     | Some LanguageId \<Rightarrow> router_get r lang = Some e
     | Some Extension \<Rightarrow> e \<in> set (rt_global r) \<and> (\<exists>x. ext_of lc uri = Some x \<and> x \<in> lc ` set (en_extensions e))
     | _ \<Rightarrow> False)"
proof -
  let ?cands = "candidates r (fs_path_of uri)"
  note cand = set_candidates [of r "fs_path_of uri"]
  have tie: "rs_entry (tie_break (rt_global r) (\<lambda>e. count_if (\<lambda>y. lc y = x) (en_extensions e)) Extension) = Some e \<Longrightarrow>
      rs_via (tie_break (rt_global r) (\<lambda>e. count_if (\<lambda>y. lc y = x) (en_extensions e)) Extension) = Some Extension \<and>
      is_routable e \<and> e \<in> set (rt_global r) \<and> x \<in> lc ` set (en_extensions e)" for x
  proof -
    let ?h = "\<lambda>e. count_if (\<lambda>y. lc y = x) (en_extensions e)"
    assume t: "rs_entry (tie_break (rt_global r) ?h Extension) = Some e"
    then have "e \<in> set (claimants ?h (rt_global r))"
      by (auto simp: tie_break_entry(1) split: list.splits)
    then show ?thesis using tie_break_entry(2) [OF t]
      by (auto simp: claimants_def count_if_def filter_empty_conv)
  qed
  show ?thesis
  proof (cases "find (\<lambda>e. language_id e = lang) ?cands")
    case (Some w)
    with find_member [OF Some] cand assms show ?thesis
      by (auto simp: resolve_def Let_def found_def)
  next
    case none: None
    show ?thesis
    proof (cases "Option.bind (ext_of lc uri) (\<lambda>x. find (\<lambda>e. claims lc (en_extensions e) x) ?cands)")
      case (Some w)
      then obtain x where x: "ext_of lc uri = Some x" "find (\<lambda>e. claims lc (en_extensions e) x) ?cands = Some w"
        by (auto elim: bind_SomeE)
      have "resolve lc r lang uri = found w WorkspaceExtension"
        using none Some by (simp add: resolve_def Let_def)
      with find_member [OF x(2)] cand assms x(1) show ?thesis
        by (auto simp: found_def claims_def list_ex_iff)
    next
      case None
      have res: "resolve lc r lang uri = (case router_get r lang of
              Some direct \<Rightarrow>
                if is_routable direct then found direct LanguageId
                else (case ext_of lc uri of
                    None \<Rightarrow> resolution_none
                  | Some x \<Rightarrow> tie_break (rt_global r) (\<lambda>e. count_if (\<lambda>y. lc y = x) (en_extensions e)) Extension)
            | None \<Rightarrow>
                (case ext_of lc uri of
                    None \<Rightarrow> resolution_none
                  | Some x \<Rightarrow> tie_break (rt_global r) (\<lambda>e. count_if (\<lambda>y. lc y = x) (en_extensions e)) Extension))"
        using none None by (simp add: resolve_def Let_def)
      show ?thesis
        using assms unfolding res
        by (auto simp: found_def resolution_none_def dest: tie split: option.splits if_splits)
    qed
  qed
qed

theorem resolve_sound_witness:
  "\<exists>e. language_id e = [97] \<and>
     rs_entry (resolve id \<lparr>rt_global = [e], rt_by_id = [[97] \<mapsto> 0], rt_workspace = []\<rparr> [97] []) = Some e \<and> is_routable e"
proof -
  let ?e = "entry_new [97]" and ?r = "\<lparr>rt_global = [entry_new [97]], rt_by_id = [[97] \<mapsto> 0], rt_workspace = []\<rparr>"
  have lang: "language_id ?e = [97]" and ok: "is_routable ?e" by code_simp+
  have "candidates ?r p = []" for p by (cases p) (simp_all add: candidates_def Let_def)
  then have "rs_entry (resolve id ?r [97] []) = Some ?e"
    using ok by (simp add: resolve_def Let_def router_get_def found_def split: option.splits)
  with resolve_sound [OF this] lang show ?thesis by blast
qed

text \<open>
  C34: the deepest folder wins. When a workspace entry for the client's language id applies
  to the document, the document is routed to such a workspace entry, and to none whose
  folder is less deep; a session-wide entry comes after every folder.
\<close>

theorem resolve_deepest:
  assumes "e \<in> set (rt_workspace r)" "is_routable e" "applies e (fs_path_of uri)" "language_id e = lang"
  shows "\<exists>w. resolve lc r lang uri = \<lparr>rs_entry = Some w, rs_via = Some WorkspaceLanguageId, rs_ambiguous = []\<rparr> \<and>
    w \<in> set (rt_workspace r) \<and> is_routable w \<and> applies w (fs_path_of uri) \<and> language_id w = lang \<and>
    depth_rank e \<le> depth_rank w"
proof -
  let ?cands = "candidates r (fs_path_of uri)"
  have e: "e \<in> set ?cands" using assms by (simp add: set_candidates)
  then obtain w where w: "find (\<lambda>e. language_id e = lang) ?cands = Some w"
    using find_nothing [of "\<lambda>e. language_id e = lang" ?cands] assms(4)
    by (cases "find (\<lambda>e. language_id e = lang) ?cands") blast+
  have "depth_rank e \<le> depth_rank w"
    by (rule find_first_max [OF sorted_candidates w e]) (rule assms(4))
  with w find_member [OF w] set_candidates [of r "fs_path_of uri"] show ?thesis
    by (auto simp: resolve_def Let_def found_def)
qed

theorem resolve_deepest_witness:
  "\<exists>w. rs_entry (resolve id \<lparr>rt_global = [], rt_by_id = (\<lambda>_. None),
      rt_workspace = [(entry_new [97])\<lparr>en_dir := Some (str ''/p'')\<rparr>]\<rparr> [97] (str ''file:///p/x.a'')) = Some w \<and> language_id w = [97]"
proof -
  let ?e = "(entry_new [97])\<lparr>en_dir := Some (str ''/p'')\<rparr>"
  have "?e \<in> set (rt_workspace \<lparr>rt_global = [], rt_by_id = (\<lambda>_. None), rt_workspace = [?e]\<rparr>)" by simp
  moreover have "is_routable ?e" "applies ?e (fs_path_of (str ''file:///p/x.a''))" "language_id ?e = [97]"
    by code_simp+
  ultimately show ?thesis using resolve_deepest [of ?e _ "str ''file:///p/x.a''" "[97]" id] by fastforce
qed

text \<open>
  A tie is reported, never silently broken. An extension is decided by the enabled,
  non-modifier global entries that claim it: none and there is no resolution, one and it is
  the answer alone, more and the first is the answer with every claimant named, the answer
  first.
\<close>

theorem ties_reported:
  assumes "router_get r lang = None" "rt_workspace r = []" "ext_of lc uri = Some x"
  shows "resolve lc r lang uri =
    (case filter (\<lambda>e. is_routable e \<and> x \<in> lc ` set (en_extensions e)) (rt_global r) of
       [] \<Rightarrow> resolution_none
     | [e] \<Rightarrow> found e Extension
     | e # rest \<Rightarrow> (found e Extension)\<lparr>rs_ambiguous := language_id e #
         concat (map (\<lambda>c. replicate (length (filter (\<lambda>y. lc y = x) (en_extensions c))) (language_id c)) rest)\<rparr>)"
proof -
  have "candidates r p = []" for p
    using assms(2) by (cases p) (simp_all add: candidates_def Let_def)
  then have "resolve lc r lang uri = tie_break (rt_global r) (\<lambda>e. count_if (\<lambda>y. lc y = x) (en_extensions e)) Extension"
    using assms by (simp add: resolve_def Let_def)
  moreover have "claimants (\<lambda>e. count_if (\<lambda>y. lc y = x) (en_extensions e)) (rt_global r) =
      filter (\<lambda>e. is_routable e \<and> x \<in> lc ` set (en_extensions e)) (rt_global r)"
    unfolding claimants_def count_if_def by (rule filter_cong) (auto simp: filter_empty_conv)
  ultimately show ?thesis by (simp add: tie_break_claimants count_if_def)
qed

theorem ties_reported_witness:
  "rs_ambiguous (resolve id \<lparr>rt_global = [(entry_new [97])\<lparr>en_extensions := [[46, 120]]\<rparr>, (entry_new [98])\<lparr>en_extensions := [[46, 120]]\<rparr>],
      rt_by_id = (\<lambda>_. None), rt_workspace = []\<rparr> [99] [97, 46, 120]) = [[97], [98]]"
proof -
  have "ext_of id [97, 46, 120] = Some [46, 120]" by code_simp
  then show ?thesis
    by (subst ties_reported) (simp_all add: router_get_def found_def, code_simp)
qed

text \<open>
  File URIs give their paths back. For every path, the URI an editor makes of it
  (\<open>file://\<close> and the percent-encoded path) reads as that path, less the slash before a
  Windows drive; and the escapes alone decode to the text they encode.
\<close>

theorem file_uri_round_trip:
  assumes "valid_text p"
  shows "decode_uri_component (percent_encode p) = Some p \<and>
    fs_path_of (str ''file://'' @ percent_encode (47 # p)) = Some (strip_drive_slash (47 # p))"
proof -
  have valid: "valid_text (47 # p)" using assms by (simp add: valid_text_def is_scalar_def)
  have head: "percent_encode (47 # p) = 47 # percent_encode p"
    by (simp add: percent_encode_def encode_char_def escape_byte_def unreserved_def)
  have "\<forall>c\<in>set (percent_encode (47 # p)). c \<notin> {10, 13, 0x2028, 0x2029}"
  proof
    fix c assume "c \<in> set (percent_encode (47 # p))"
    then obtain b where "b \<in> set (encode_utf8 (47 # p))" "c \<in> set (escape_byte b)"
      unfolding percent_encode_def by auto
    with encode_utf8_bytes [OF valid] show "c \<notin> {10, 13, 0x2028, 0x2029}"
      using escape_byte_no_newline by blast
  qed
  then have "\<not> list_ex (\<lambda>c. c \<in> {10, 13, 0x2028, 0x2029}) (percent_encode (47 # p))"
    unfolding list_ex_iff by blast
  moreover have "strip_prefix (str ''file://'' @ percent_encode (47 # p)) (str ''file://'') = Some (percent_encode (47 # p))"
    by (simp only: strip_prefix_Some)
  moreover have "dropWhile (\<lambda>c. c \<noteq> 47) (percent_encode (47 # p)) = percent_encode (47 # p)"
    by (simp add: head)
  ultimately show ?thesis
    using decode_percent_encode [OF assms] decode_percent_encode [OF valid]
    by (simp add: fs_path_of_def Let_def head del: insert_iff)
qed

theorem file_uri_round_trip_witness:
  "fs_path_of (str ''file://'' @ percent_encode (47 # [99, 58, 47, 233])) = Some [99, 58, 47, 233]"
  using file_uri_round_trip [of "[99, 58, 47, 233]"] by code_simp

end
