(* ===== verification/Instances.thy ===== *)
theory Instances
  imports Types Paths
begin

text \<open>
  Engine instances (\<open>rs/src/instances.rs\<close>): the mux whose one subscriber pair forwards the
  engine's events to the collector of the running parse, the cache of instances with its
  quarantine, and the gate that serializes parses across threads.

  Parameters: the engine (\<open>run g src\<close> is the events it raises, in order, and its answer,
  \<open>None\<close> when the call unwinds), the host's \<open>MakeInstance\<close> (\<open>make n e\<close> is the outcome of its
  \<open>n\<close>-th call, so that a host whose answers change over time is covered), the JSON writer
  \<open>jt\<close> and the hash \<open>ih\<close> that names an inline spec. A \<open>HashMap\<close> is a partial function. The
  slot's lock recovers from poisoning, so the slot is its content.
\<close>

section \<open>Engine events and the forwarders\<close>

record engine_token =
  et_name :: rstr
  et_si :: nat
  et_ri :: nat
  et_ci :: nat
  et_len :: nat
  et_src :: rstr
  et_no_token :: bool

record rule_done =
  rd_i :: nat
  rd_name :: rstr
  rd_state :: rule_event_state
  rd_forced :: bool
  rd_alt_r :: "rstr option"
  rd_o0 :: "engine_token option"
  rd_c0 :: "engine_token option"

datatype engine_event = LexEvent engine_token | RuleDone rule_done

definition token_point_of :: "engine_token \<Rightarrow> token_point" where
  "token_point_of t = \<lparr>tp_name = et_name t, tp_si = et_si t, tp_ri = et_ri t, tp_ci = et_ci t,
     tp_len = et_len t, tp_src = et_src t\<rparr>"

definition rule_event_of :: "rule_done \<Rightarrow> rule_event" where
  "rule_event_of d = \<lparr>ev_i = rd_i d, ev_name = rd_name d, ev_state = rd_state d,
     ev_forced = rd_forced d, ev_r = unwrap_or (rd_alt_r d) [],
     ev_o0 = map_option token_point_of (rd_o0 d), ev_c0 = map_option token_point_of (rd_c0 d)\<rparr>"

type_synonym slot = "collected option"

definition forward_lex :: "engine_token \<Rightarrow> slot \<Rightarrow> slot" where
  "forward_lex t slot = (if et_no_token t then slot else case slot of
      Some c \<Rightarrow> Some (c\<lparr>col_lex := col_lex c @ [token_point_of t]\<rparr>) | None \<Rightarrow> None)"

definition forward_rule :: "rule_done \<Rightarrow> slot \<Rightarrow> slot" where
  "forward_rule d slot = (case slot of
      None \<Rightarrow> None
    | Some c \<Rightarrow> Some (c\<lparr>col_rules := col_rules c @ [rule_event_of d]\<rparr>))"

fun forward :: "engine_event \<Rightarrow> slot \<Rightarrow> slot" where
  "forward (LexEvent t) slot = forward_lex t slot"
| "forward (RuleDone d) slot = forward_rule d slot"

text \<open>An engine instance and how many mux pairs subscribe to it; an event reaches each pair.\<close>

record 'g parser =
  ps_engine :: 'g
  ps_pairs :: nat

definition install :: "'g parser \<Rightarrow> 'g parser" where
  "install p = p\<lparr>ps_pairs := Suc (ps_pairs p)\<rparr>"

definition deliver :: "'g parser \<Rightarrow> slot \<Rightarrow> engine_event \<Rightarrow> slot" where
  "deliver p slot e = (forward e ^^ ps_pairs p) slot"

section \<open>The slot\<close>

definition mux_begin :: "slot \<Rightarrow> slot \<times> slot" where
  "mux_begin slot = (slot, Some collected_default)"

definition mux_end :: "slot \<Rightarrow> slot \<times> slot" where
  "mux_end slot = (slot, None)"

definition restore :: "slot \<Rightarrow> slot \<Rightarrow> slot \<times> slot" where
  "restore previous slot = (slot, previous)"

definition mux_is_active :: "slot \<Rightarrow> bool" where
  "mux_is_active slot \<longleftrightarrow> slot \<noteq> None"

text \<open>An \<open>Activation\<close> is the \<open>previous\<close> it still owes, \<open>None\<close> once it was put back.\<close>

type_synonym activation = "slot option"

definition activation_new :: "slot \<Rightarrow> slot \<Rightarrow> activation \<times> slot" where
  "activation_new collector slot =
     (let (previous, slot') = restore collector slot in (Some previous, slot'))"

definition activation_drop :: "activation \<Rightarrow> slot \<Rightarrow> slot" where
  "activation_drop act slot = (case act of
      Some previous \<Rightarrow> snd (restore previous slot) | None \<Rightarrow> slot)"

definition activation_finish :: "activation \<Rightarrow> slot \<Rightarrow> slot \<times> slot" where
  "activation_finish act slot =
     (let previous = unwrap_or act None; (used, slot') = restore previous slot
      in (used, activation_drop None slot'))"

text \<open>\<open>None\<close> is the unwinding of the engine call, which drops the activation.\<close>

definition mux_parse ::
  "('g \<Rightarrow> rstr \<Rightarrow> engine_event list \<times> 'r option) \<Rightarrow> 'g parser \<Rightarrow> rstr \<Rightarrow> slot \<Rightarrow> ('r \<times> collected) option \<times> slot" where
  "mux_parse run p src slot =
     (let (act, slot1) = activation_new (Some collected_default) slot;
          (events, answer) = run (ps_engine p) src;
          slot2 = foldl (deliver p) slot1 events
      in case answer of
           None \<Rightarrow> (None, activation_drop act slot2)
         | Some recovery \<Rightarrow>
             let (used, slot3) = activation_finish act slot2
             in (Some (recovery, unwrap_or used collected_default), slot3))"

definition without_collector :: "(slot \<Rightarrow> 't option \<times> slot) \<Rightarrow> slot \<Rightarrow> 't option \<times> slot" where
  "without_collector f slot =
     (let (act, slot1) = activation_new None slot; (r, slot2) = f slot1
      in (r, activation_drop act slot2))"

text \<open>A direct engine call: the pair fires, whatever the slot holds.\<close>

definition direct_parse ::
  "('g \<Rightarrow> rstr \<Rightarrow> engine_event list \<times> 'r option) \<Rightarrow> 'g parser \<Rightarrow> rstr \<Rightarrow> slot \<Rightarrow> 'r option \<times> slot" where
  "direct_parse run p src slot =
     (let (events, answer) = run (ps_engine p) src in (answer, foldl (deliver p) slot events))"

section \<open>Keys\<close>

definition QUARANTINE_LIMIT :: nat where
  "QUARANTINE_LIMIT = 3"

text \<open>The array \<open>[options, module, grammar, dialect, scope, spec]\<close>.\<close>

definition load_identity :: "(json \<Rightarrow> rstr) \<Rightarrow> (rstr \<Rightarrow> rstr) \<Rightarrow> entry \<Rightarrow> json \<times> json \<times> json \<times> json" where
  "load_identity jt ih e = (case entry_load e of
      LoadModule name \<Rightarrow> (JStr name, JNull, JNull, JNull)
    | LoadGrammar file \<Rightarrow>
        (JNull, JStr file,
         (case path_extension file of None \<Rightarrow> JNull | Some ext \<Rightarrow> JStr (to_ascii_lowercase ext)), JNull)
    | LoadSpec (SpecFile file) \<Rightarrow> (JNull, JNull, JNull, JStr file)
    | LoadSpec (SpecInline value) \<Rightarrow>
        (JNull, JNull, JNull, JObj [(str ''inline'', JStr (ih (jt value)))]))"

definition identity :: "(json \<Rightarrow> rstr) \<Rightarrow> (rstr \<Rightarrow> rstr) \<Rightarrow> entry \<Rightarrow> json" where
  "identity jt ih e =
     (let (md, grammar, dialect, spec) = load_identity jt ih e;
          opts = unwrap_or (en_options e) (JObj []);
          sc = (case routing_scope e of None \<Rightarrow> JNull | Some folder \<Rightarrow> JStr folder)
      in JArr [opts, md, grammar, dialect, sc, spec])"

definition entry_prefix :: "(json \<Rightarrow> rstr) \<Rightarrow> (rstr \<Rightarrow> rstr) \<Rightarrow> entry \<Rightarrow> rstr" where
  "entry_prefix jt ih e = language_id e @ [32] @ jt (identity jt ih e) @ [32]"

definition key :: "(json \<Rightarrow> rstr) \<Rightarrow> (rstr \<Rightarrow> rstr) \<Rightarrow> entry \<Rightarrow> rstr option \<Rightarrow> rstr" where
  "key jt ih e folder =
     entry_prefix jt ih e @ unwrap_or (case folder of Some f \<Rightarrow> Some f | None \<Rightarrow> en_dir e) []"

section \<open>The cache\<close>

datatype 'g made = Made 'g | MakeFailed load_error | MakePanicked "rstr option"

text \<open>\<open>in_made\<close> counts the calls of \<open>MakeInstance\<close>; the other fields are the source's.\<close>

record 'g instances =
  in_cache :: "rstr \<rightharpoonup> 'g parser"
  in_failures :: "rstr \<rightharpoonup> nat"
  in_slot :: slot
  in_made :: nat

definition instances_new :: "'g instances" where
  "instances_new = \<lparr>in_cache = (\<lambda>_. None), in_failures = (\<lambda>_. None), in_slot = None, in_made = 0\<rparr>"

definition failures_under :: "'g instances \<Rightarrow> rstr \<Rightarrow> nat" where
  "failures_under s k = unwrap_or (in_failures s k) 0"

definition quarantined :: "(json \<Rightarrow> rstr) \<Rightarrow> (rstr \<Rightarrow> rstr) \<Rightarrow> 'g instances \<Rightarrow> entry \<Rightarrow> rstr option \<Rightarrow> bool" where
  "quarantined jt ih s e folder \<longleftrightarrow> QUARANTINE_LIMIT \<le> failures_under s (key jt ih e folder)"

definition count_failure :: "rstr \<Rightarrow> 'g instances \<Rightarrow> 'g instances" where
  "count_failure k s = s\<lparr>in_failures := (in_failures s)(k \<mapsto> failures_under s k + 1)\<rparr>"

definition record_failure :: "(json \<Rightarrow> rstr) \<Rightarrow> (rstr \<Rightarrow> rstr) \<Rightarrow> entry \<Rightarrow> rstr option \<Rightarrow> 'g instances \<Rightarrow> 'g instances" where
  "record_failure jt ih e folder s = count_failure (key jt ih e folder) s"

definition panic_message :: "rstr option \<Rightarrow> rstr" where
  "panic_message p = unwrap_or p (str ''a panic without a message'')"

definition make_outcome :: "'g made \<Rightarrow> entry \<Rightarrow> load_error + 'g" where
  "make_outcome m e = (case m of
      Made g \<Rightarrow> Inr g
    | MakeFailed err \<Rightarrow> Inl err
    | MakePanicked p \<Rightarrow> Inl (load_error_new (str ''grammar for '' @ language_id e @
        str '' panicked while loading: '' @ panic_message p)))"

definition instances_get ::
  "(json \<Rightarrow> rstr) \<Rightarrow> (rstr \<Rightarrow> rstr) \<Rightarrow> (nat \<Rightarrow> entry \<Rightarrow> 'g made) \<Rightarrow> entry \<Rightarrow> rstr option \<Rightarrow> 'g instances \<Rightarrow>
   (load_error + 'g parser option) \<times> 'g instances" where
  "instances_get jt ih mk e folder s =
     (let k = key jt ih e folder
      in if QUARANTINE_LIMIT \<le> failures_under s k then (Inr None, s)
         else case in_cache s k of
           Some inst \<Rightarrow> (Inr (Some inst), s)
         | None \<Rightarrow>
             let m = mk (in_made s) e; s' = s\<lparr>in_made := in_made s + 1\<rparr>
             in case make_outcome m e of
                  Inl err \<Rightarrow> (Inl err, count_failure k s')
                | Inr g \<Rightarrow>
                    let inst = install \<lparr>ps_engine = g, ps_pairs = 0\<rparr>
                    in (Inr (Some inst), s'\<lparr>in_cache := (in_cache s')(k \<mapsto> inst)\<rparr>))"

definition retain_keys :: "(rstr \<Rightarrow> bool) \<Rightarrow> (rstr \<rightharpoonup> 'a) \<Rightarrow> (rstr \<rightharpoonup> 'a)" where
  "retain_keys P m = (\<lambda>k. if P k then m k else None)"

definition invalidate :: "(json \<Rightarrow> rstr) \<Rightarrow> (rstr \<Rightarrow> rstr) \<Rightarrow> entry \<Rightarrow> 'g instances \<Rightarrow> 'g instances" where
  "invalidate jt ih e s =
     (let prefix = entry_prefix jt ih e
      in s\<lparr>in_cache := retain_keys (\<lambda>k. \<not> starts_with k prefix) (in_cache s),
           in_failures := retain_keys (\<lambda>k. \<not> starts_with k prefix) (in_failures s)\<rparr>)"

definition instances_parse ::
  "('g \<Rightarrow> rstr \<Rightarrow> engine_event list \<times> 'r option) \<Rightarrow> 'g parser \<Rightarrow> rstr \<Rightarrow> 'g instances \<Rightarrow>
   ('r \<times> collected) option \<times> 'g instances" where
  "instances_parse run p src s =
     (let (r, slot) = mux_parse run p src (in_slot s) in (r, s\<lparr>in_slot := slot\<rparr>))"

definition with_parse_lock :: "(slot \<Rightarrow> 't option \<times> slot) \<Rightarrow> 'g instances \<Rightarrow> 't option \<times> 'g instances" where
  "with_parse_lock f s =
     (let (r, slot) = without_collector f (in_slot s) in (r, s\<lparr>in_slot := slot\<rparr>))"

section \<open>What the forwarders record\<close>

definition real_tokens :: "engine_event list \<Rightarrow> token_point list" where
  "real_tokens events = List.map_filter (\<lambda>e. case e of
      LexEvent t \<Rightarrow> if et_no_token t then None else Some (token_point_of t) | RuleDone _ \<Rightarrow> None) events"

definition done_rules :: "engine_event list \<Rightarrow> rule_event list" where
  "done_rules events = List.map_filter (\<lambda>e. case e of
      LexEvent _ \<Rightarrow> None | RuleDone d \<Rightarrow> Some (rule_event_of d)) events"

definition recorded :: "engine_event list \<Rightarrow> collected" where
  "recorded events = \<lparr>col_lex = real_tokens events, col_rules = done_rules events\<rparr>"

lemma forward_None [simp]: "forward e None = None"
  by (cases e) (simp_all add: forward_lex_def forward_rule_def)

lemma deliver_None [simp]: "deliver p None e = None"
proof -
  have "(forward e ^^ n) None = None" for n by (induction n) simp_all
  then show ?thesis by (simp add: deliver_def)
qed

lemma foldl_deliver_None: "foldl (deliver p) None events = None"
  by (induction events) simp_all

lemma foldl_forward_Some:
  "foldl (\<lambda>s e. forward e s) (Some c) events =
     Some \<lparr>col_lex = col_lex c @ real_tokens events, col_rules = col_rules c @ done_rules events\<rparr>"
proof (induction events arbitrary: c)
  case (Cons e events)
  then show ?case
    by (cases e)
      (simp_all add: forward_lex_def forward_rule_def real_tokens_def done_rules_def map_filter_simps)
qed (simp add: real_tokens_def done_rules_def map_filter_simps)

lemma deliver_one_pair: "ps_pairs p = 1 \<Longrightarrow> deliver p = (\<lambda>s e. forward e s)"
  by (intro ext) (simp add: deliver_def)

lemma foldl_deliver_fresh:
  "ps_pairs p = 1 \<Longrightarrow> foldl (deliver p) (Some collected_default) events = Some (recorded events)"
  by (simp add: deliver_one_pair foldl_forward_Some recorded_def collected_default_def)

lemmas activation_defs = activation_new_def activation_finish_def activation_drop_def restore_def unwrap_or_def

lemma mux_parse_slot: "snd (mux_parse run p src slot) = slot"
  by (simp add: mux_parse_def activation_defs case_prod_unfold Let_def split: option.splits)

lemma mux_parse_collects:
  assumes "ps_pairs p = 1"
  shows "fst (mux_parse run p src slot) =
    map_option (\<lambda>r. (r, recorded (fst (run (ps_engine p) src)))) (snd (run (ps_engine p) src))"
  using assms
  by (simp add: mux_parse_def activation_defs case_prod_unfold Let_def foldl_deliver_fresh split: option.splits)

lemma without_collector_slot: "snd (without_collector f slot) = slot"
  by (simp add: without_collector_def activation_defs case_prod_unfold)

section \<open>Counting failures\<close>

lemma failures_under_count [simp]:
  "failures_under (count_failure k s) k' = (if k' = k then failures_under s k + 1 else failures_under s k')"
  by (simp add: failures_under_def count_failure_def unwrap_or_def)

lemma count_failure_other [simp]:
  "in_cache (count_failure k s) = in_cache s" "in_slot (count_failure k s) = in_slot s"
  "in_made (count_failure k s) = in_made s"
  by (simp_all add: count_failure_def)

lemma failures_under_made [simp]:
  "failures_under (s\<lparr>in_made := n\<rparr>) k = failures_under s k"
  "failures_under (s\<lparr>in_cache := c\<rparr>) k = failures_under s k"
  by (simp_all add: failures_under_def)

lemma get_quarantined:
  "QUARANTINE_LIMIT \<le> failures_under s (key jt ih e folder) \<Longrightarrow>
    instances_get jt ih mk e folder s = (Inr None, s)"
  by (simp add: instances_get_def Let_def)

lemma get_cached:
  "failures_under s (key jt ih e folder) < QUARANTINE_LIMIT \<Longrightarrow> in_cache s (key jt ih e folder) = Some p \<Longrightarrow>
    instances_get jt ih mk e folder s = (Inr (Some p), s)"
  by (simp add: instances_get_def Let_def)

lemma get_fails:
  "failures_under s (key jt ih e folder) < QUARANTINE_LIMIT \<Longrightarrow> in_cache s (key jt ih e folder) = None \<Longrightarrow>
    make_outcome (mk (in_made s) e) e = Inl err \<Longrightarrow>
    instances_get jt ih mk e folder s =
      (Inl err, count_failure (key jt ih e folder) (s\<lparr>in_made := in_made s + 1\<rparr>))"
  by (simp add: instances_get_def Let_def)

lemma run_failing_gets:
  assumes fails: "\<And>n. make_outcome (mk n e) e = Inl (err n)"
    and k: "k = key jt ih e folder"
  shows "in_cache s k = None \<Longrightarrow>
    (let (rs, s') = run_steps (\<lambda>s _. instances_get jt ih mk e folder s) s (replicate n ());
         tries = min n (QUARANTINE_LIMIT - failures_under s k)
     in rs = map (\<lambda>i. Inl (err (in_made s + i))) [0..<tries] @ replicate (n - tries) (Inr None) \<and>
        in_made s' = in_made s + tries \<and> failures_under s' k = failures_under s k + tries \<and>
        in_cache s' = in_cache s \<and> (\<forall>k'. k' \<noteq> k \<longrightarrow> in_failures s' k' = in_failures s k'))"
proof (induction n arbitrary: s)
  case (Suc n)
  show ?case
  proof (cases "QUARANTINE_LIMIT \<le> failures_under s k")
    case True
    with Suc.IH [OF Suc.prems] show ?thesis
      by (simp add: get_quarantined k case_prod_unfold Let_def)
  next
    case False
    let ?s = "count_failure k (s\<lparr>in_made := in_made s + 1\<rparr>)"
    obtain m where m: "QUARANTINE_LIMIT - failures_under s k = Suc m"
      using False by (metis Suc_diff_Suc not_le)
    then have m': "QUARANTINE_LIMIT - Suc (failures_under s k) = m" by simp
    have step: "instances_get jt ih mk e folder s = (Inl (err (in_made s)), ?s)"
      using get_fails [of s jt ih e folder mk, OF _ _ fails] False Suc.prems by (simp add: k)
    have other: "k' \<noteq> k \<Longrightarrow> in_failures ?s k' = in_failures s k'" for k'
      by (simp add: count_failure_def)
    have front: "Inl (err (in_made s)) # map (\<lambda>i. Inl (err (Suc (in_made s + i)))) [0..<q] =
        map (\<lambda>i. Inl (err (in_made s + i))) [0..<Suc q]" for q
      by (simp only: upt_rec [of 0 "Suc q"] map_Suc_upt [symmetric]) (simp add: comp_def)
    show ?thesis
      using Suc.IH [of ?s] Suc.prems other front [of "min n m"]
      by (simp add: step case_prod_unfold Let_def m m' del: upt_Suc)
  qed
qed (simp add: Let_def)

section \<open>The gate\<close>

text \<open>
  The holder behind the gate's lock, and the two critical sections over it: \<open>None\<close> from
  \<open>gate_enter\<close> is the wait on the condition variable; \<open>turn_drop\<close> also says whether it
  notifies one waiter, and \<open>None\<close> is the overflow of \<open>depth -= 1\<close>.
\<close>

record 'th holder =
  ho_thread :: "'th option"
  ho_depth :: nat

definition gate_enter :: "'th \<Rightarrow> 'th holder \<Rightarrow> 'th holder option" where
  "gate_enter me h =
     (if ho_thread h \<noteq> Some me
      then if ho_thread h \<noteq> None then None
           else Some \<lparr>ho_thread = Some me, ho_depth = ho_depth h + 1\<rparr>
      else Some (h\<lparr>ho_depth := ho_depth h + 1\<rparr>))"

definition turn_drop :: "'th holder \<Rightarrow> ('th holder \<times> bool) option" where
  "turn_drop h =
     (if ho_depth h = 0 then None
      else let h' = h\<lparr>ho_depth := ho_depth h - 1\<rparr>
           in if ho_depth h' = 0 then Some (h'\<lparr>ho_thread := None\<rparr>, True) else Some (h', False))"

text \<open>
  The calls a thread is in, innermost first: it has entered the gate, its collector is active
  (with what it put in the slot, what it owes back, and the events its engine call has raised
  so far), or it has put the previous collector back and not left yet. A thread that found
  the gate held sleeps until it is woken, by a notification or spuriously.
\<close>

datatype frame = Entered | Active slot slot "engine_event list" | Leaving

datatype waiting = Running | Asleep | Woken

record 'th gate_state =
  gs_held :: "'th holder"
  gs_slot :: slot
  gs_wait :: "'th \<Rightarrow> waiting"
  gs_frames :: "'th \<Rightarrow> frame list"

datatype 'th act =
    Enter 'th | Block 'th | Wake 'th | Activate 'th slot | Raise 'th engine_event
  | Finish 'th | Leave 'th "'th option"

definition gate_start :: "'th gate_state" where
  "gate_start = \<lparr>gs_held = \<lparr>ho_thread = None, ho_depth = 0\<rparr>, gs_slot = None,
     gs_wait = (\<lambda>_. Running), gs_frames = (\<lambda>_. [])\<rparr>"

text \<open>Where a thread can call into the mux: outside any call, or from within an engine call.\<close>

definition may_call :: "frame list \<Rightarrow> bool" where
  "may_call fs \<longleftrightarrow> (case fs of [] \<Rightarrow> True | Active _ _ _ # _ \<Rightarrow> True | _ \<Rightarrow> False)"

inductive gate_step :: "'th gate_state \<Rightarrow> 'th act \<Rightarrow> 'th gate_state \<Rightarrow> bool" where
  enter: "gs_wait s t \<noteq> Asleep \<Longrightarrow> may_call (gs_frames s t) \<Longrightarrow> gate_enter t (gs_held s) = Some h \<Longrightarrow>
    gate_step s (Enter t) (s\<lparr>gs_held := h, gs_wait := (gs_wait s)(t := Running),
      gs_frames := (gs_frames s)(t := Entered # gs_frames s t)\<rparr>)"
| block: "gs_wait s t \<noteq> Asleep \<Longrightarrow> may_call (gs_frames s t) \<Longrightarrow> gate_enter t (gs_held s) = None \<Longrightarrow>
    gate_step s (Block t) (s\<lparr>gs_wait := (gs_wait s)(t := Asleep)\<rparr>)"
| wake: "gs_wait s t = Asleep \<Longrightarrow> gate_step s (Wake t) (s\<lparr>gs_wait := (gs_wait s)(t := Woken)\<rparr>)"
| activate: "gs_frames s t = Entered # fs \<Longrightarrow> collector \<in> {None, Some collected_default} \<Longrightarrow>
    gate_step s (Activate t collector) (s\<lparr>gs_slot := collector,
      gs_frames := (gs_frames s)(t := Active collector (gs_slot s) [] # fs)\<rparr>)"
| raise: "gs_frames s t = Active c prev events # fs \<Longrightarrow> gs_wait s t = Running \<Longrightarrow>
    gate_step s (Raise t e) (s\<lparr>gs_slot := forward e (gs_slot s),
      gs_frames := (gs_frames s)(t := Active c prev (events @ [e]) # fs)\<rparr>)"
| finish: "gs_frames s t = Active c prev events # fs \<Longrightarrow> gs_wait s t = Running \<Longrightarrow>
    gate_step s (Finish t) (s\<lparr>gs_slot := prev, gs_frames := (gs_frames s)(t := Leaving # fs)\<rparr>)"
| leave: "gs_frames s t = Leaving # fs \<Longrightarrow> turn_drop (gs_held s) = Some (h, notify) \<Longrightarrow>
    (case woken of
       Some u \<Rightarrow> notify \<and> gs_wait s u = Asleep
     | None \<Rightarrow> notify \<longrightarrow> (\<forall>u. gs_wait s u \<noteq> Asleep)) \<Longrightarrow>
    gate_step s (Leave t woken) (s\<lparr>gs_held := h,
      gs_wait := (case woken of Some u \<Rightarrow> (gs_wait s)(u := Woken) | None \<Rightarrow> gs_wait s),
      gs_frames := (gs_frames s)(t := fs)\<rparr>)"

lemma turn_drop_Some: "ho_depth h \<noteq> 0 \<Longrightarrow> \<exists>h' notify. turn_drop h = Some (h', notify)"
  by (cases "ho_depth h = 1") (auto simp: turn_drop_def Let_def)


inductive gate_reachable :: "'th gate_state \<Rightarrow> bool" where
  start: "gate_reachable gate_start"
| step: "gate_reachable s \<Longrightarrow> gate_step s a s' \<Longrightarrow> gate_reachable s'"

definition calls :: "'th gate_state \<Rightarrow> frame list" where
  "calls s = (case ho_thread (gs_held s) of None \<Rightarrow> [] | Some t \<Rightarrow> gs_frames s t)"

fun stack_ok :: "slot \<Rightarrow> frame list \<Rightarrow> bool" where
  "stack_ok slot [] \<longleftrightarrow> slot = None"
| "stack_ok slot (Active c prev events # fs) \<longleftrightarrow>
     slot = foldl (\<lambda>s e. forward e s) c events \<and> stack_ok prev fs"
| "stack_ok slot (_ # fs) \<longleftrightarrow> stack_ok slot fs"

definition gate_inv :: "'th gate_state \<Rightarrow> bool" where
  "gate_inv s \<longleftrightarrow>
     (\<forall>u. ho_thread (gs_held s) \<noteq> Some u \<longrightarrow> gs_frames s u = []) \<and>
     (\<forall>u. ho_thread (gs_held s) = Some u \<longrightarrow> gs_frames s u \<noteq> [] \<and> gs_wait s u = Running) \<and>
     ho_depth (gs_held s) = length (calls s) \<and> stack_ok (gs_slot s) (calls s) \<and>
     (ho_thread (gs_held s) = None \<longrightarrow> (\<exists>u. gs_wait s u = Asleep) \<longrightarrow> (\<exists>u. gs_wait s u = Woken))"

lemma gate_invD:
  assumes "gate_inv s"
  shows "gs_frames s u \<noteq> [] \<Longrightarrow> ho_thread (gs_held s) = Some u"
    and "ho_thread (gs_held s) = Some u \<Longrightarrow> gs_frames s u \<noteq> [] \<and> gs_wait s u = Running \<and> calls s = gs_frames s u"
    and "ho_depth (gs_held s) = length (calls s)"
    and "stack_ok (gs_slot s) (calls s)"
    and "ho_thread (gs_held s) = None \<Longrightarrow> gs_wait s v = Asleep \<Longrightarrow> \<exists>u. gs_wait s u = Woken"
  using assms by (auto simp: gate_inv_def calls_def)

lemma gate_inv_start: "gate_inv gate_start"
  by (simp add: gate_inv_def gate_start_def calls_def)

lemma gate_enter_Some:
  "gate_enter t h = Some h' \<Longrightarrow>
    h' = \<lparr>ho_thread = Some t, ho_depth = ho_depth h + 1\<rparr> \<and> (ho_thread h = None \<or> ho_thread h = Some t)"
  by (cases h) (auto simp: gate_enter_def split: if_splits)

lemma gate_enter_None: "gate_enter t h = None \<longleftrightarrow> (\<exists>u. u \<noteq> t \<and> ho_thread h = Some u)"
  by (auto simp: gate_enter_def)

lemma gate_inv_step: "gate_step s a s' \<Longrightarrow> gate_inv s \<Longrightarrow> gate_inv s'"
proof (induction rule: gate_step.induct)
  case (enter s t h)
  then show ?case
    by (auto dest!: gate_enter_Some simp: gate_inv_def calls_def)
next
  case (block s t)
  then obtain u where "u \<noteq> t" "ho_thread (gs_held s) = Some u" by (auto simp: gate_enter_None)
  with block show ?case by (auto simp: gate_inv_def calls_def)
next
  case (wake s t)
  then show ?case by (auto simp: gate_inv_def calls_def split: option.splits)
next
  case (activate s t fs collector)
  then have "ho_thread (gs_held s) = Some t" by (metis gate_invD(1) list.distinct(1))
  with activate show ?case by (auto simp: gate_inv_def calls_def)
next
  case (raise s t c prev events fs e)
  then have "ho_thread (gs_held s) = Some t" by (metis gate_invD(1) list.distinct(1))
  with raise show ?case by (auto simp: gate_inv_def calls_def)
next
  case (finish s t c prev events fs)
  then have "ho_thread (gs_held s) = Some t" by (metis gate_invD(1) list.distinct(1))
  with finish show ?case by (auto simp: gate_inv_def calls_def)
next
  case (leave s t fs h notify woken)
  then have t: "ho_thread (gs_held s) = Some t" by (metis gate_invD(1) list.distinct(1))
  with leave show ?case
    by (cases "fs = []")
      (auto simp: gate_inv_def calls_def turn_drop_def Let_def split: if_splits option.splits)
qed

lemma gate_reachable_inv: "gate_reachable s \<Longrightarrow> gate_inv s"
  by (induction rule: gate_reachable.induct) (auto intro: gate_inv_start gate_inv_step)

section \<open>Runs of the cache\<close>

datatype operation =
    OpGet entry "rstr option" | OpFail entry "rstr option" | OpInvalidate entry
  | OpParse rstr rstr | OpLocked rstr rstr

text \<open>
  \<open>OpParse k src\<close> parses with the instance cached under \<open>k\<close>, \<open>OpLocked k src\<close> calls its
  engine under the parse lock, as a continuations query does.
\<close>

definition instances_step ::
  "(json \<Rightarrow> rstr) \<Rightarrow> (rstr \<Rightarrow> rstr) \<Rightarrow> (nat \<Rightarrow> entry \<Rightarrow> 'g made) \<Rightarrow>
   ('g \<Rightarrow> rstr \<Rightarrow> engine_event list \<times> 'r option) \<Rightarrow> 'g instances \<Rightarrow> operation \<Rightarrow> 'g instances" where
  "instances_step jt ih mk run s op = (case op of
      OpGet e folder \<Rightarrow> snd (instances_get jt ih mk e folder s)
    | OpFail e folder \<Rightarrow> record_failure jt ih e folder s
    | OpInvalidate e \<Rightarrow> invalidate jt ih e s
    | OpParse k src \<Rightarrow>
        (case in_cache s k of None \<Rightarrow> s | Some p \<Rightarrow> snd (instances_parse run p src s))
    | OpLocked k src \<Rightarrow>
        (case in_cache s k of None \<Rightarrow> s | Some p \<Rightarrow> snd (with_parse_lock (direct_parse run p src) s)))"

definition instances_ok :: "'g instances \<Rightarrow> bool" where
  "instances_ok s \<longleftrightarrow> ran (in_cache s) \<subseteq> {p. ps_pairs p = 1} \<and> in_slot s = None"

lemma ran_upd_subset: "ran (m(k \<mapsto> v)) \<subseteq> insert v (ran m)"
  by (auto simp: ran_def split: if_splits)

lemma ran_retain_keys: "ran (retain_keys P m) \<subseteq> ran m"
  by (auto simp: ran_def retain_keys_def split: if_splits)

lemma instances_get_ok: "instances_ok s \<Longrightarrow> instances_ok (snd (instances_get jt ih mk e folder s))"
  unfolding instances_ok_def instances_get_def Let_def
  by (auto simp: install_def split: option.splits sum.splits dest!: ran_upd_subset [THEN subsetD])

lemma instances_parse_slot: "in_slot (snd (instances_parse run p src s)) = in_slot s"
  and instances_parse_cache: "in_cache (snd (instances_parse run p src s)) = in_cache s"
  and instances_parse_result: "fst (instances_parse run p src s) = fst (mux_parse run p src (in_slot s))"
  by (simp_all add: instances_parse_def case_prod_unfold mux_parse_slot)

lemma with_parse_lock_slot: "in_slot (snd (with_parse_lock f s)) = in_slot s"
  and with_parse_lock_cache: "in_cache (snd (with_parse_lock f s)) = in_cache s"
  by (simp_all add: with_parse_lock_def case_prod_unfold without_collector_slot)

interpretation cache_runs: invariant_machine instances_new "instances_step jt ih mk run" instances_ok
proof
  show "instances_ok instances_new"
    by (simp add: instances_ok_def instances_new_def)
  show "instances_ok (instances_step jt ih mk run s op)" if "instances_ok s" for s op
  proof (cases op)
    case (OpInvalidate e)
    with that show ?thesis
      using ran_retain_keys [of _ "in_cache s"]
      by (fastforce simp: instances_ok_def instances_step_def invalidate_def Let_def)
  next
    case (OpGet e folder)
    with that show ?thesis by (simp add: instances_step_def instances_get_ok)
  qed (use that in \<open>auto simp: instances_step_def instances_ok_def record_failure_def
      instances_parse_slot instances_parse_cache with_parse_lock_slot with_parse_lock_cache
      split: option.splits\<close>)
qed

section \<open>Keys and prefixes\<close>

lemma prefix_of_key:
  assumes "32 \<notin> set (language_id e')" "32 \<notin> set (language_id e)"
    and delim: "\<forall>x y. jt (identity jt ih e') @ x = jt (identity jt ih e) @ y \<longrightarrow> identity jt ih e' = identity jt ih e"
  shows "starts_with (key jt ih e' folder) (entry_prefix jt ih e) \<longleftrightarrow>
    language_id e' = language_id e \<and> identity jt ih e' = identity jt ih e"
proof
  let ?f = "unwrap_or (case folder of Some f \<Rightarrow> Some f | None \<Rightarrow> en_dir e') []"
  assume "starts_with (key jt ih e' folder) (entry_prefix jt ih e)"
  then obtain z where eq: "language_id e' @ 32 # jt (identity jt ih e') @ 32 # ?f =
      language_id e @ 32 # jt (identity jt ih e) @ 32 # z"
    by (auto simp: starts_with_iff key_def entry_prefix_def)
  have "split_once 32 (language_id e' @ 32 # jt (identity jt ih e') @ 32 # ?f) =
      Some (language_id e', jt (identity jt ih e') @ 32 # ?f)"
    and "split_once 32 (language_id e @ 32 # jt (identity jt ih e) @ 32 # z) =
      Some (language_id e, jt (identity jt ih e) @ 32 # z)"
    using assms(1,2) by (simp_all add: split_once_Some)
  then have "language_id e' = language_id e" "jt (identity jt ih e') @ 32 # ?f = jt (identity jt ih e) @ 32 # z"
    unfolding eq by simp_all
  with delim show "language_id e' = language_id e \<and> identity jt ih e' = identity jt ih e" by blast
next
  assume same: "language_id e' = language_id e \<and> identity jt ih e' = identity jt ih e"
  then have "entry_prefix jt ih e' = entry_prefix jt ih e" by (simp only: entry_prefix_def)
  then show "starts_with (key jt ih e' folder) (entry_prefix jt ih e)"
    by (simp add: starts_with_def key_def)
qed

section \<open>The properties\<close>

text \<open>
  C13: whatever sequence of gets, recorded failures, hot reloads, parses and locked engine
  calls ran before, no collector is left active, and a parse with a cached instance collects
  exactly the events its own engine call raises, each once and in order, the no-token
  sentinels skipped; an engine call under the parse lock leaves nothing behind; and when the
  engine unwinds, the parse answers nothing and the slot is as it was.
\<close>
theorem cached_parses_isolated:
  "let s = foldl (instances_step jt ih mk run) instances_new ops
   in in_slot s = None \<and>
      (\<forall>p\<in>ran (in_cache s). \<forall>src.
        fst (instances_parse run p src s) =
          map_option (\<lambda>r. (r, \<lparr>col_lex = real_tokens (fst (run (ps_engine p) src)),
                               col_rules = done_rules (fst (run (ps_engine p) src))\<rparr>))
            (snd (run (ps_engine p) src)) \<and>
        in_slot (snd (instances_parse run p src s)) = None \<and>
        with_parse_lock (direct_parse run p src) s = (snd (run (ps_engine p) src), s))"
proof -
  let ?s = "foldl (instances_step jt ih mk run) instances_new ops"
  have inv: "instances_ok ?s" by (rule cache_runs.run_inv)
  then have slot: "in_slot ?s = None" by (simp add: instances_ok_def)
  have parse: "fst (instances_parse run p src ?s) =
      map_option (\<lambda>r. (r, recorded (fst (run (ps_engine p) src)))) (snd (run (ps_engine p) src))"
    if "p \<in> ran (in_cache ?s)" for p src
    using inv that by (auto simp: instances_ok_def instances_parse_result mux_parse_collects)
  have locked: "with_parse_lock (direct_parse run p src) ?s = (snd (run (ps_engine p) src), ?s)" for p src
    using slot by (simp add: with_parse_lock_def without_collector_def direct_parse_def activation_defs
        foldl_deliver_None case_prod_unfold Let_def)
  show ?thesis
    unfolding Let_def using slot parse locked by (simp add: instances_parse_slot recorded_def)
qed

theorem cached_parses_isolated_witness:
  "let mk = (\<lambda>n e. Made ());
       tok = \<lparr>et_name = str ''#NR'', et_si = 0, et_ri = 1, et_ci = 1, et_len = 1, et_src = str ''1'', et_no_token = False\<rparr>;
       run = (\<lambda>(g::unit) src. ([LexEvent tok, LexEvent (tok\<lparr>et_no_token := True\<rparr>)], Some src));
       e = entry_new (str ''json''); s = foldl (instances_step (\<lambda>_. []) id mk run) instances_new [OpGet e None];
       p = \<lparr>ps_engine = (), ps_pairs = 1\<rparr>
   in in_cache s (key (\<lambda>_. []) id e None) = Some p \<and>
      fst (instances_parse run p [49] s) = Some ([49], \<lparr>col_lex = [token_point_of tok], col_rules = []\<rparr>)"
proof -
  define mk where "mk = (\<lambda>(n::nat) (e::entry). Made ())"
  define tok where "tok = \<lparr>et_name = str ''#NR'', et_si = 0, et_ri = 1, et_ci = 1, et_len = 1, et_src = str ''1'', et_no_token = False\<rparr>"
  define run where "run = (\<lambda>(g::unit) (src::rstr). ([LexEvent tok, LexEvent (tok\<lparr>et_no_token := True\<rparr>)], Some src))"
  define e where "e = entry_new (str ''json'')"
  define p where "p = \<lparr>ps_engine = (), ps_pairs = 1\<rparr>"
  define s where "s = foldl (instances_step (\<lambda>_. []) id mk run) instances_new [OpGet e None]"
  have cached: "in_cache s (key (\<lambda>_. []) id e None) = Some p"
    by (simp add: s_def instances_step_def instances_get_def instances_new_def failures_under_def unwrap_or_def
        QUARANTINE_LIMIT_def mk_def make_outcome_def Let_def install_def p_def)
  then have "p \<in> ran (in_cache s)" by (metis ranI)
  moreover have "real_tokens (fst (run (ps_engine p) [49])) = [token_point_of tok]"
    and "done_rules (fst (run (ps_engine p) [49])) = []" and "snd (run (ps_engine p) [49]) = Some [49]"
    by (simp_all add: run_def real_tokens_def done_rules_def map_filter_simps tok_def)
  ultimately have "fst (instances_parse run p [49] s) = Some ([49], \<lparr>col_lex = [token_point_of tok], col_rules = []\<rparr>)"
    using cached_parses_isolated [of "\<lambda>_. []" id mk run "[OpGet e None]"] unfolding s_def [symmetric] Let_def
    by fastforce
  with cached show ?thesis
    unfolding Let_def s_def p_def e_def run_def tok_def mk_def by blast
qed

text \<open>
  C35: a grammar that never loads, by an error or by a panic, is tried until three failures are
  on its key and never again: the first calls answer the load errors in order (a panic as an
  error naming it), every later one answers no instance, \<open>MakeInstance\<close> is called only for the
  failures counted, and nothing is cached or counted under any other key.
\<close>
theorem quarantine_after_three:
  assumes "\<And>n. make_outcome (mk n e) e = Inl (err n)"
    and "in_cache s (key jt ih e folder) = None"
  shows "let (rs, s') = run_steps (\<lambda>s _. instances_get jt ih mk e folder s) s (replicate n ());
             k = key jt ih e folder; tries = min n (3 - failures_under s k)
         in rs = map (\<lambda>i. Inl (err (in_made s + i))) [0..<tries] @ replicate (n - tries) (Inr None) \<and>
            in_made s' = in_made s + tries \<and> failures_under s' k = failures_under s k + tries \<and>
            (quarantined jt ih s' e folder \<longleftrightarrow> 3 \<le> failures_under s k + n) \<and>
            in_cache s' = in_cache s \<and> (\<forall>k'. k' \<noteq> k \<longrightarrow> in_failures s' k' = in_failures s k')"
  using run_failing_gets [where mk = mk and e = e and err = err, OF assms(1) refl assms(2), of n]
  by (auto simp: Let_def case_prod_unfold quarantined_def QUARANTINE_LIMIT_def)

theorem quarantine_after_three_witness:
  "fst (run_steps (\<lambda>s _. instances_get (\<lambda>_. []) id (\<lambda>_ _. MakePanicked (None :: rstr option) :: unit made)
        (entry_new (str ''x'')) None s) instances_new (replicate 4 ())) =
     replicate 3 (Inl (load_error_new (str ''grammar for x panicked while loading: a panic without a message''))) @
     [Inr None]"
proof -
  let ?e = "entry_new (str ''x'')"
  let ?err = "load_error_new (str ''grammar for x panicked while loading: a panic without a message'')"
  have "make_outcome (MakePanicked None :: unit made) ?e = Inl ?err"
    by code_simp
  from quarantine_after_three [of "\<lambda>_ _. MakePanicked (None :: rstr option) :: unit made" ?e "\<lambda>_. ?err"
      instances_new "\<lambda>_. []" id None 4, OF this]
  show ?thesis
    by (simp add: case_prod_unfold Let_def instances_new_def failures_under_def unwrap_or_def numeral_3_eq_3 replicate_Suc)
qed

text \<open>
  A hot reload drops the instances and forgets the failures of exactly the entries that are
  this one (the same language id, options, grammar and scope), under every folder, and touches
  no other entry's, even of the same language id. It relies on what the JSON writer promises: a
  value's text ends where the value does, so that two arrays' texts never start alike.
\<close>
theorem invalidate_exact:
  assumes "32 \<notin> set (language_id e')" "32 \<notin> set (language_id e)"
    and "\<forall>x y. jt (identity jt ih e') @ x = jt (identity jt ih e) @ y \<longrightarrow> identity jt ih e' = identity jt ih e"
  shows "let s' = invalidate jt ih e s; k = key jt ih e' folder
         in (if language_id e' = language_id e \<and> identity jt ih e' = identity jt ih e
             then in_cache s' k = None \<and> failures_under s' k = 0 \<and> \<not> quarantined jt ih s' e' folder
             else in_cache s' k = in_cache s k \<and> in_failures s' k = in_failures s k \<and>
                  (quarantined jt ih s' e' folder \<longleftrightarrow> quarantined jt ih s e' folder)) \<and>
            in_slot s' = in_slot s \<and> in_made s' = in_made s"
  using prefix_of_key [OF assms, of folder]
  by (auto simp: invalidate_def Let_def retain_keys_def failures_under_def unwrap_or_def quarantined_def
      QUARANTINE_LIMIT_def)

theorem invalidate_exact_witness:
  "let e = (entry_new (str ''a''))\<lparr>en_load := Some (LoadGrammar (str ''g.abnf''))\<rparr>;
       e' = (entry_new (str ''a''))\<lparr>en_load := Some (LoadGrammar (str ''h.abnf''))\<rparr>;
       jt = (\<lambda>v. case v of JArr [_, _, JStr (c # _), _, _, _] \<Rightarrow> [c] | _ \<Rightarrow> []);
       s = record_failure jt id e None (record_failure jt id e' None (instances_new :: unit instances))
   in failures_under (invalidate jt id e s) (key jt id e None) = 0 \<and>
      in_failures (invalidate jt id e s) (key jt id e' None) = Some 1"
proof -
  define e where "e = (entry_new (str ''a''))\<lparr>en_load := Some (LoadGrammar (str ''g.abnf''))\<rparr>"
  define e' where "e' = (entry_new (str ''a''))\<lparr>en_load := Some (LoadGrammar (str ''h.abnf''))\<rparr>"
  define jt :: "json \<Rightarrow> rstr" where "jt = (\<lambda>v. case v of JArr [_, _, JStr (c # _), _, _, _] \<Rightarrow> [c] | _ \<Rightarrow> [])"
  define s where "s = record_failure jt id e None (record_failure jt id e' None (instances_new :: unit instances))"
  have lang: "language_id e = str ''a''" "language_id e' = str ''a''"
    unfolding e_def e'_def by code_simp+
  have sp: "32 \<notin> set (str ''a'')" by code_simp
  have ids: "jt (identity jt id e) = [103]" "jt (identity jt id e') = [104]"
    unfolding e_def e'_def jt_def by code_simp+
  then have ne: "identity jt id e' \<noteq> identity jt id e"
    by (metis list.inject n_not_Suc_n numeral_eq_iff semiring_norm(89) semiring_norm(90) semiring_norm(83))
  have keys: "key jt id e None \<noteq> key jt id e' None"
    by (simp add: key_def entry_prefix_def lang ids)
  have f: "in_failures s (key jt id e' None) = Some 1"
    using keys by (simp add: s_def record_failure_def count_failure_def instances_new_def failures_under_def unwrap_or_def)
  have "failures_under (invalidate jt id e s) (key jt id e None) = 0"
    using invalidate_exact [of e e jt id s None] by (simp add: lang sp Let_def)
  moreover have "in_failures (invalidate jt id e s) (key jt id e' None) = Some 1"
    using invalidate_exact [of e' e jt id s None] ne f by (simp add: lang sp ids Let_def)
  ultimately show ?thesis
    unfolding Let_def s_def jt_def e_def e'_def by blast
qed

text \<open>
  C21: the gate serializes. In every interleaving of any number of threads entering, nesting,
  waiting, waking (spuriously too), raising events, finishing or unwinding and leaving: at most
  one thread is inside the mux; the slot of the call in progress holds exactly what it put
  there extended by the events its own engine call raised, so a finished parse takes its own
  events and no others, nested or not; when nobody is inside the slot is empty; and leaving
  never underflows the depth.
\<close>
theorem gate_serializes:
  assumes "gate_reachable s"
  shows "(gs_frames s t \<noteq> [] \<longrightarrow> gs_frames s u \<noteq> [] \<longrightarrow> t = u) \<and>
    (\<forall>c prev events fs. gs_frames s t = Active c prev events # fs \<longrightarrow>
       gs_slot s = (case c of None \<Rightarrow> None | Some c0 \<Rightarrow>
         Some \<lparr>col_lex = col_lex c0 @ real_tokens events, col_rules = col_rules c0 @ done_rules events\<rparr>)) \<and>
    ((\<forall>v. gs_frames s v = []) \<longrightarrow> gs_slot s = None \<and> ho_depth (gs_held s) = 0) \<and>
    (\<forall>fs. gs_frames s t = Leaving # fs \<longrightarrow> turn_drop (gs_held s) \<noteq> None)"
proof -
  have inv: "gate_inv s" using assms by (rule gate_reachable_inv)
  note D = gate_invD [OF inv]
  have none: "foldl (\<lambda>s e. forward e s) None events = None" for events
    by (induction events) simp_all
  have slot: "gs_slot s = foldl (\<lambda>s e. forward e s) c events" if "gs_frames s t = Active c prev events # fs" for c prev events fs
  proof -
    from that have "calls s = Active c prev events # fs" using D(1,2) by (metis list.distinct(1))
    then show ?thesis using D(4) by simp
  qed
  have idle: "gs_slot s = None \<and> ho_depth (gs_held s) = 0" if "\<forall>v. gs_frames s v = []"
  proof -
    have "calls s = []" using that by (simp add: calls_def split: option.splits)
    then show ?thesis using D(3,4) by simp
  qed
  have "turn_drop (gs_held s) \<noteq> None" if "gs_frames s t = Leaving # fs" for fs
  proof -
    from that have "calls s = Leaving # fs" using D(1,2) by (metis list.distinct(1))
    then have "ho_depth (gs_held s) \<noteq> 0" using D(3) by simp
    then show ?thesis using turn_drop_Some by fastforce
  qed
  moreover have "gs_frames s t \<noteq> [] \<Longrightarrow> gs_frames s u \<noteq> [] \<Longrightarrow> t = u"
    using D(1) [of t] D(1) [of u] by simp
  ultimately show ?thesis
    using slot idle none by (auto split: option.splits simp: foldl_forward_Some)
qed

theorem gate_serializes_witness:
  "\<exists>s. gate_reachable s \<and> gs_frames s (0::nat) = [Active (Some collected_default) None []] \<and>
     gs_frames s 1 = [] \<and> gs_slot s = Some \<lparr>col_lex = [], col_rules = []\<rparr>"
proof -
  let ?a = "gate_start\<lparr>gs_held := \<lparr>ho_thread = Some (0::nat), ho_depth = 1\<rparr>,
    gs_wait := (gs_wait gate_start)(0 := Running), gs_frames := (gs_frames gate_start)(0 := Entered # gs_frames gate_start (0::nat))\<rparr>"
  let ?b = "?a\<lparr>gs_slot := Some collected_default,
    gs_frames := (gs_frames ?a)(0 := Active (Some collected_default) (gs_slot ?a) [] # [])\<rparr>"
  have "gate_step gate_start (Enter (0::nat)) ?a"
    by (rule gate_step.enter) (simp_all add: gate_start_def may_call_def gate_enter_def)
  moreover have "gate_step ?a (Activate (0::nat) (Some collected_default)) ?b"
    by (rule gate_step.activate) (simp_all add: gate_start_def)
  ultimately have r: "gate_reachable ?b" by (meson gate_reachable.intros)
  have f: "gs_frames ?b 0 = [Active (Some collected_default) None []]" "gs_frames ?b 1 = []"
    by (simp_all add: gate_start_def)
  have "gs_slot ?b = Some \<lparr>col_lex = [], col_rules = []\<rparr>"
    using gate_serializes [OF r, of 0 1] f(1)
    by (simp add: collected_default_def real_tokens_def done_rules_def map_filter_simps)
  with r f show ?thesis by blast
qed

text \<open>
  C36: no thread waits forever for a wake-up that was lost. Whenever a thread is waiting for the
  gate, either the gate is held and the thread inside can take a step of its own, or it is free
  and an awake waiter can enter at once.
\<close>
theorem gate_progress:
  assumes "gate_reachable s" and "gs_wait s w \<noteq> Running"
  shows "(\<exists>t a s'. ho_thread (gs_held s) = Some t \<and> gate_step s a s' \<and>
            (a \<in> {Activate t None, Finish t} \<or> (\<exists>v. a = Leave t v))) \<or>
         (\<exists>t s'. ho_thread (gs_held s) = None \<and> gs_wait s t = Woken \<and>
            gate_step s (Enter t) s' \<and> ho_thread (gs_held s') = Some t)"
proof -
  have inv: "gate_inv s" using assms(1) by (rule gate_reachable_inv)
  note D = gate_invD [OF inv]
  show ?thesis
  proof (cases "ho_thread (gs_held s)")
    case None
    obtain t where t: "gs_wait s t = Woken"
      using assms(2) D(5) [OF None, of w] by (cases "gs_wait s w") auto
    moreover have "gs_frames s t = []" using D(1) [of t] None by auto
    ultimately have "gate_step s (Enter t) (s\<lparr>gs_held := \<lparr>ho_thread = Some t, ho_depth = ho_depth (gs_held s) + 1\<rparr>,
        gs_wait := (gs_wait s)(t := Running), gs_frames := (gs_frames s)(t := Entered # gs_frames s t)\<rparr>)"
      by (intro gate_step.enter) (simp_all add: may_call_def gate_enter_def None)
    with None t show ?thesis by fastforce
  next
    case (Some t)
    with D(2) obtain f fs where fs: "gs_frames s t = f # fs" and run: "gs_wait s t = Running"
      and c: "calls s = f # fs"
      by (metis list.exhaust)
    have "\<exists>a s'. gate_step s a s' \<and> (a \<in> {Activate t None, Finish t} \<or> (\<exists>v. a = Leave t v))"
    proof (cases f)
      case Entered
      then show ?thesis using gate_step.activate [of s t fs None] fs by blast
    next
      case (Active c prev events)
      then show ?thesis using gate_step.finish [of s t c prev events fs] fs run by blast
    next
      case Leaving
      have "ho_depth (gs_held s) \<noteq> 0" using D(3) c by simp
      then obtain h n where h: "turn_drop (gs_held s) = Some (h, n)"
        using turn_drop_Some by blast
      obtain v where "case v of Some u \<Rightarrow> n \<and> gs_wait s u = Asleep | None \<Rightarrow> n \<longrightarrow> (\<forall>u. gs_wait s u \<noteq> Asleep)"
      proof (cases "n \<and> (\<exists>u. gs_wait s u = Asleep)")
        case True
        then obtain u where "n" "gs_wait s u = Asleep" by blast
        then show ?thesis by (intro that [of "Some u"]) simp
      next
        case False
        then show ?thesis by (intro that [of None]) simp
      qed
      then show ?thesis using gate_step.leave [of s t fs h n v] fs h Leaving by blast
    qed
    with Some show ?thesis by blast
  qed
qed

theorem gate_progress_witness:
  "\<exists>s. gate_reachable s \<and> gs_wait s (1::nat) = Asleep \<and> (\<exists>a s'. gate_step s a s')"
proof -
  let ?a = "gate_start\<lparr>gs_held := \<lparr>ho_thread = Some (0::nat), ho_depth = 1\<rparr>,
    gs_wait := (gs_wait gate_start)(0 := Running), gs_frames := (gs_frames gate_start)(0 := Entered # gs_frames gate_start (0::nat))\<rparr>"
  let ?b = "?a\<lparr>gs_wait := (gs_wait ?a)(1 := Asleep)\<rparr>"
  have "gate_step gate_start (Enter (0::nat)) ?a"
    by (rule gate_step.enter) (simp_all add: gate_start_def may_call_def gate_enter_def)
  moreover have "gate_step ?a (Block (1::nat)) ?b"
    by (rule gate_step.block) (simp_all add: gate_start_def may_call_def gate_enter_def)
  ultimately have r: "gate_reachable ?b" by (meson gate_reachable.intros)
  have w: "gs_wait ?b 1 = Asleep" by simp
  then have "gs_wait ?b 1 \<noteq> Running" by simp
  from gate_progress [OF r this] have "\<exists>a s'. gate_step ?b a s'" by blast
  with r w show ?thesis by blast
qed

end
