(* ===== verification/Jsonrpc.thy ===== *)
theory Jsonrpc
  imports Types
begin

text \<open>
  JSON-RPC 2.0 over a byte stream (\<open>rs/src/jsonrpc.rs\<close>): messages and their classification,
  the framing of reading and writing, the reader thread's loop and the receiving side of the
  connection.

  A stream is the bytes it will still yield and how it ends, cleanly or with an I/O error; a
  writer accepts bytes, all of them or up to a number after which it fails. Parameters:
  \<open>serde_json\<close>'s text codec (\<open>jp\<close> parses a body, \<open>jt\<close> writes a value), the texts of its own
  errors (\<open>de\<close>), and \<open>{:?}\<close> of a string (\<open>dbg\<close>, which rests on Unicode's printability tables).
\<close>

section \<open>Messages\<close>

definition PARSE_ERROR :: int where "PARSE_ERROR = -32700"
definition INVALID_REQUEST :: int where "INVALID_REQUEST = -32600"
definition METHOD_NOT_FOUND :: int where "METHOD_NOT_FOUND = -32601"
definition INVALID_PARAMS :: int where "INVALID_PARAMS = -32602"
definition INTERNAL_ERROR :: int where "INTERNAL_ERROR = -32603"

definition rpc_version :: rstr where
  "rpc_version = str ''2.0''"

record response_error =
  re_code :: int
  re_message :: rstr
  re_data :: "json option"

record message =
  ms_jsonrpc :: rstr
  ms_id :: "json option"
  ms_method :: "rstr option"
  ms_params :: "json option"
  ms_result :: "json option"
  ms_error :: "response_error option"

definition message_blank :: message where
  "message_blank = \<lparr>ms_jsonrpc = rpc_version, ms_id = None, ms_method = None, ms_params = None,
     ms_result = None, ms_error = None\<rparr>"

definition message_request :: "json \<Rightarrow> rstr \<Rightarrow> json option \<Rightarrow> message" where
  "message_request i meth params =
     message_blank\<lparr>ms_id := Some i, ms_method := Some meth, ms_params := params\<rparr>"

definition message_notification :: "rstr \<Rightarrow> json option \<Rightarrow> message" where
  "message_notification meth params =
     message_blank\<lparr>ms_method := Some meth, ms_params := params\<rparr>"

definition message_response :: "json \<Rightarrow> json \<Rightarrow> message" where
  "message_response i result = message_blank\<lparr>ms_id := Some i, ms_result := Some result\<rparr>"

definition error_response :: "json \<Rightarrow> int \<Rightarrow> rstr \<Rightarrow> message" where
  "error_response i code txt = message_blank\<lparr>ms_id := Some i,
     ms_error := Some \<lparr>re_code = code, re_message = txt, re_data = None\<rparr>\<rparr>"

definition is_request :: "message \<Rightarrow> bool" where
  "is_request m \<longleftrightarrow> ms_id m \<noteq> None \<and> ms_method m \<noteq> None"

definition is_notification :: "message \<Rightarrow> bool" where
  "is_notification m \<longleftrightarrow> ms_id m = None \<and> ms_method m \<noteq> None"

definition is_response :: "message \<Rightarrow> bool" where
  "is_response m \<longleftrightarrow> ms_method m = None \<and> (ms_result m \<noteq> None \<or> ms_error m \<noteq> None)"

section \<open>Messages as JSON\<close>

text \<open>The derived \<open>Serialize\<close>: the fields in order, the absent ones skipped.\<close>

definition opt_member :: "string \<Rightarrow> json option \<Rightarrow> fields" where
  "opt_member k v = (case v of None \<Rightarrow> [] | Some x \<Rightarrow> [(str k, x)])"

definition response_error_to_json :: "response_error \<Rightarrow> json" where
  "response_error_to_json e = JObj ([(str ''code'', JNum (NInt (re_code e))),
     (str ''message'', JStr (re_message e))] @ opt_member ''data'' (re_data e))"

definition message_to_json :: "message \<Rightarrow> json" where
  "message_to_json m = JObj ([(str ''jsonrpc'', JStr (ms_jsonrpc m))] @
     opt_member ''id'' (ms_id m) @
     opt_member ''method'' (map_option JStr (ms_method m)) @
     opt_member ''params'' (ms_params m) @
     opt_member ''result'' (ms_result m) @
     opt_member ''error'' (map_option response_error_to_json (ms_error m)))"

text \<open>
  The derived \<open>Deserialize\<close>: \<open>None\<close> is serde's refusal. A \<open>ResponseError\<close> is read from an
  object, or from an array by position as any derived structure is.
\<close>

definition read_i64 :: "json \<Rightarrow> int option" where
  "read_i64 v = (case v of
      JNum (NInt i) \<Rightarrow> if - (2 ^ 63) \<le> i \<and> i < 2 ^ 63 then Some i else None
    | _ \<Rightarrow> None)"

definition optional_member :: "(json \<Rightarrow> 'a option) \<Rightarrow> json option \<Rightarrow> 'a option option" where
  "optional_member f v = (case v of
      None \<Rightarrow> Some None | Some JNull \<Rightarrow> Some None | Some x \<Rightarrow> map_option Some (f x))"

definition response_error_of :: "json option \<Rightarrow> json option \<Rightarrow> json option \<Rightarrow> response_error option" where
  "response_error_of c m d = do {
     code \<leftarrow> Option.bind c read_i64;
     txt \<leftarrow> Option.bind m read_string;
     data \<leftarrow> optional_member Some d;
     Some \<lparr>re_code = code, re_message = txt, re_data = data\<rparr>
   }"

definition read_response_error :: "json \<Rightarrow> response_error option" where
  "read_response_error v = (case v of
      JObj m \<Rightarrow> response_error_of (obj_get m (str ''code'')) (obj_get m (str ''message'')) (obj_get m (str ''data''))
    | JArr xs \<Rightarrow> if length xs \<le> 3 then response_error_of (index xs 0) (index xs 1) (index xs 2) else None
    | _ \<Rightarrow> None)"

definition message_of_fields :: "fields \<Rightarrow> message option" where
  "message_of_fields m = do {
     version \<leftarrow> default_field rpc_version read_string m (str ''jsonrpc'');
     meth \<leftarrow> opt_field read_string m (str ''method'');
     err \<leftarrow> opt_field read_response_error m (str ''error'');
     Some \<lparr>ms_jsonrpc = version, ms_id = obj_get m (str ''id''), ms_method = meth,
       ms_params = obj_get m (str ''params''), ms_result = obj_get m (str ''result''), ms_error = err\<rparr>
   }"

section \<open>Errors\<close>

datatype rpc_error =
    RpcIo rstr | RpcFrame rstr | RpcJson rstr | RpcInvalid "json option" rstr

definition is_recoverable :: "rpc_error \<Rightarrow> bool" where
  "is_recoverable e = (case e of RpcIo _ \<Rightarrow> False | _ \<Rightarrow> True)"

definition error_answer :: "rpc_error \<Rightarrow> message option" where
  "error_answer e = (case e of
      RpcJson err \<Rightarrow> Some (error_response JNull PARSE_ERROR (str ''Parse error: '' @ err))
    | RpcInvalid i txt \<Rightarrow>
        Some (error_response (unwrap_or i JNull) INVALID_REQUEST (str ''Invalid request: '' @ txt))
    | RpcIo _ \<Rightarrow> None
    | RpcFrame _ \<Rightarrow> None)"

definition rpc_error_text :: "rpc_error \<Rightarrow> rstr" where
  "rpc_error_text e = (case e of
      RpcIo err \<Rightarrow> str ''jsonrpc: '' @ err
    | RpcFrame txt \<Rightarrow> str ''jsonrpc: '' @ txt
    | RpcJson err \<Rightarrow> str ''jsonrpc: bad JSON-RPC body: '' @ err
    | RpcInvalid _ txt \<Rightarrow> str ''jsonrpc: invalid message: '' @ txt)"

definition is_id :: "json \<Rightarrow> bool" where
  "is_id v = (case v of JStr _ \<Rightarrow> True | JNum _ \<Rightarrow> True | _ \<Rightarrow> False)"

definition message_of :: "(json \<Rightarrow> rstr) \<Rightarrow> json \<Rightarrow> rpc_error + message" where
  "message_of de v = (case v of
      JObj m \<Rightarrow>
        (let i = obj_get m (str ''id'')
         in if i = None \<or> is_id (the i) \<or> (i = Some JNull \<and> obj_get m (str ''method'') = None)
            then (let i' = Option.bind i (\<lambda>x. if is_id x then Some x else None)
                  in case message_of_fields m of
                       Some msg \<Rightarrow> Inr msg
                     | None \<Rightarrow> Inl (RpcInvalid i' (de v)))
            else Inl (RpcInvalid None (str ''id must be a string or a number'')))
    | JArr _ \<Rightarrow> Inl (RpcInvalid None (str ''a batch (an array), which this server does not accept''))
    | _ \<Rightarrow> Inl (RpcInvalid None (str ''not an object'')))"

section \<open>Streams\<close>

record stream =
  sm_bytes :: "u8 list"
  sm_fault :: "rstr option"

definition read_until :: "stream \<Rightarrow> (rstr + u8 list) \<times> stream" where
  "read_until st = (case split_once 10 (sm_bytes st) of
      Some (line, rest) \<Rightarrow> (Inr (line @ [10]), st\<lparr>sm_bytes := rest\<rparr>)
    | None \<Rightarrow>
        (case sm_fault st of
           Some e \<Rightarrow> Inl e
         | None \<Rightarrow> Inr (sm_bytes st), st\<lparr>sm_bytes := []\<rparr>))"

text \<open>\<open>reader.take(n).read_to_end(\<dots>)\<close>.\<close>

definition read_exactly :: "nat \<Rightarrow> stream \<Rightarrow> (rstr + u8 list) \<times> stream" where
  "read_exactly n st =
     (if n \<le> length (sm_bytes st)
      then (Inr (take n (sm_bytes st)), st\<lparr>sm_bytes := drop n (sm_bytes st)\<rparr>)
      else (case sm_fault st of Some e \<Rightarrow> Inl e | None \<Rightarrow> Inr (sm_bytes st), st\<lparr>sm_bytes := []\<rparr>))"

lemma read_until_shorter:
  "read_until st = (Inr line, st') \<Longrightarrow> line \<noteq> [] \<Longrightarrow> length (sm_bytes st') < length (sm_bytes st)"
  by (auto simp: read_until_def split_once_Some split: option.splits)

section \<open>Reading a message\<close>

text \<open>A header line: \<open>Content-Length\<close>, the last one counting, or a line to skip.\<close>

definition header_line :: "(rstr \<Rightarrow> rstr) \<Rightarrow> (rstr + nat) option \<Rightarrow> rstr \<Rightarrow> (rstr + nat) option" where
  "header_line dbg len txt = (case split_once 58 txt of
      None \<Rightarrow> len
    | Some (name, value) \<Rightarrow>
        if eq_ignore_ascii_case (trim name) (str ''content-length'')
        then Some (case parse_u64 (trim value) of
            Some n \<Rightarrow> Inr n
          | None \<Rightarrow> Inl (str ''bad Content-Length: '' @ dbg (trim value)))
        else len)"

text \<open>
  The header loop; \<open>Inr None\<close> is the clean end of the stream, \<open>Inr (Some len)\<close> the end of
  the block. It ends because every turn that goes on consumes a line.
\<close>

function read_headers ::
  "(rstr \<Rightarrow> rstr) \<Rightarrow> (rstr + nat) option \<Rightarrow> bool \<Rightarrow> stream \<Rightarrow>
   (rpc_error + (rstr + nat) option option) \<times> stream" where
  "read_headers dbg len started st =
     (case read_until st of
        (Inl e, st') \<Rightarrow> (Inl (RpcIo e), st')
      | (Inr line, st') \<Rightarrow>
          if line = []
          then (if started then (Inl (RpcIo (str ''stream ended inside a header block'')), st')
                else (Inr None, st'))
          else
            (let txt = trim_end_matches (\<lambda>c. c = 13 \<or> c = 10) (from_utf8_lossy line)
             in if txt = []
                then (if started then (Inr (Some len), st') else read_headers dbg len started st')
                else read_headers dbg (header_line dbg len txt) True st'))"
  by pat_completeness auto
termination
  by (relation "measure (\<lambda>(dbg, len, started, st). length (sm_bytes st))")
    (auto dest: read_until_shorter [OF sym])

declare read_headers.simps [simp del]

definition read_body :: "(u8 list \<Rightarrow> rstr + json) \<Rightarrow> (json \<Rightarrow> rstr) \<Rightarrow> nat \<Rightarrow> stream \<Rightarrow> (rpc_error + message option) \<times> stream" where
  "read_body jp de len st = (case read_exactly len st of
      (Inl e, st') \<Rightarrow> (Inl (RpcIo e), st')
    | (Inr body, st') \<Rightarrow>
        if length body < len
        then (Inl (RpcIo (str ''stream ended '' @ show_nat (length body) @ str '' bytes into a '' @
               show_nat len @ str ''-byte body'')), st')
        else (case jp body of
            Inl err \<Rightarrow> Inl (RpcJson err)
          | Inr v \<Rightarrow> (case message_of de v of Inl err \<Rightarrow> Inl err | Inr m \<Rightarrow> Inr (Some m)), st'))"

definition read_message ::
  "(u8 list \<Rightarrow> rstr + json) \<Rightarrow> (json \<Rightarrow> rstr) \<Rightarrow> (rstr \<Rightarrow> rstr) \<Rightarrow> stream \<Rightarrow> (rpc_error + message option) \<times> stream" where
  "read_message jp de dbg st = (case read_headers dbg None False st of
      (Inl err, st') \<Rightarrow> (Inl err, st')
    | (Inr None, st') \<Rightarrow> (Inr None, st')
    | (Inr (Some None), st') \<Rightarrow> (Inl (RpcFrame (str ''missing Content-Length header'')), st')
    | (Inr (Some (Some (Inl txt))), st') \<Rightarrow> (Inl (RpcFrame txt), st')
    | (Inr (Some (Some (Inr len))), st') \<Rightarrow> read_body jp de len st')"

section \<open>Writing a message\<close>

record sink =
  sk_out :: "u8 list"
  sk_fault :: "(nat \<times> rstr) option"
  sk_flush :: "rstr option"

definition write_all :: "u8 list \<Rightarrow> sink \<Rightarrow> rstr option \<times> sink" where
  "write_all bs k = (case sk_fault k of
      None \<Rightarrow> (None, k\<lparr>sk_out := sk_out k @ bs\<rparr>)
    | Some (n, e) \<Rightarrow>
        if length bs \<le> n then (None, k\<lparr>sk_out := sk_out k @ bs, sk_fault := Some (n - length bs, e)\<rparr>)
        else (Some e, k\<lparr>sk_out := sk_out k @ take n bs, sk_fault := Some (0, e)\<rparr>))"

definition frame_of :: "(json \<Rightarrow> rstr) \<Rightarrow> message \<Rightarrow> u8 list" where
  "frame_of jt m =
     (let body = encode_utf8 (jt (message_to_json m))
      in encode_utf8 (str ''Content-Length: '' @ show_nat (length body) @ [13, 10, 13, 10]) @ body)"

definition write_message :: "(json \<Rightarrow> rstr) \<Rightarrow> message \<Rightarrow> sink \<Rightarrow> rpc_error option \<times> sink" where
  "write_message jt m k = (case write_all (frame_of jt m) k of
      (Some e, k') \<Rightarrow> (Some (RpcIo e), k')
    | (None, k') \<Rightarrow> (map_option RpcIo (sk_flush k'), k'))"

section \<open>The connection\<close>

lemma read_headers_length:
  "read_headers dbg len started st = (r, st') \<Longrightarrow> length (sm_bytes st') \<le> length (sm_bytes st)"
proof (induction dbg len started st rule: read_headers.induct)
  case (1 dbg len started st)
  obtain l st1 where l: "read_until st = (l, st1)" by (cases "read_until st")
  have le: "length (sm_bytes st1) \<le> length (sm_bytes st)"
    using l by (auto simp: read_until_def split_once_Some split: option.splits)
  from 1 l le show ?case
    by (subst (asm) (3) read_headers.simps)
      (fastforce simp: Let_def split: sum.splits if_splits)
qed

lemma read_headers_shorter:
  "read_headers dbg len started st = (Inr (Some l), st') \<Longrightarrow> length (sm_bytes st') < length (sm_bytes st)"
proof (induction dbg len started st rule: read_headers.induct)
  case (1 dbg len started st)
  obtain r st1 where r: "read_until st = (r, st1)" by (cases "read_until st")
  with "1.prems" obtain line where line: "r = Inr line" "line \<noteq> []"
    by (subst (asm) read_headers.simps) (auto split: sum.splits if_splits)
  then have lt: "length (sm_bytes st1) < length (sm_bytes st)"
    using r read_until_shorter by blast
  from "1.prems" r line lt show ?case
    by (subst (asm) read_headers.simps) (auto simp: Let_def dest!: read_headers_length split: if_splits)
qed

lemma read_body_length: "read_body jp de len st = (r, st') \<Longrightarrow> length (sm_bytes st') \<le> length (sm_bytes st)"
  by (auto simp: read_body_def read_exactly_def split: prod.splits sum.splits if_splits option.splits)

lemma read_message_shorter:
  assumes "read_message jp de dbg st = (r, st')"
    and "(\<exists>m. r = Inr (Some m)) \<or> (\<exists>e. r = Inl e \<and> is_recoverable e)"
  shows "length (sm_bytes st') < length (sm_bytes st)"
proof -
  obtain h st1 where h: "read_headers dbg None False st = (h, st1)" by (cases "read_headers dbg None False st")
  have hio: "h = Inl e \<Longrightarrow> \<not> is_recoverable e" for e
  proof -
    have "read_headers dbg len started st = (Inl e, st') \<Longrightarrow> \<not> is_recoverable e" for len started st'
      by (induction dbg len started st rule: read_headers.induct)
        (subst (asm) (3) read_headers.simps, auto simp: is_recoverable_def Let_def split: prod.splits sum.splits if_splits)
    then show "h = Inl e \<Longrightarrow> \<not> is_recoverable e" using h by blast
  qed
  from assms h hio obtain l where l: "h = Inr (Some l)"
    by (auto simp: read_message_def split: sum.splits option.splits)
  with h have lt: "length (sm_bytes st1) < length (sm_bytes st)" by (metis read_headers_shorter)
  from assms(1) h l lt show ?thesis
    by (auto simp: read_message_def dest!: read_body_length split: sum.splits option.splits)
qed

text \<open>
  The reader thread: what it sends into the channel until the stream ends or fails. It ends,
  since every turn that goes on consumes a byte; a dropped connection only cuts it short.
\<close>

function reader_loop ::
  "(u8 list \<Rightarrow> rstr + json) \<Rightarrow> (json \<Rightarrow> rstr) \<Rightarrow> (rstr \<Rightarrow> rstr) \<Rightarrow> stream \<Rightarrow> (rpc_error + message) list" where
  "reader_loop jp de dbg st = (case read_message jp de dbg st of
      (Inr (Some m), st') \<Rightarrow> Inr m # reader_loop jp de dbg st'
    | (Inr None, st') \<Rightarrow> []
    | (Inl e, st') \<Rightarrow> if is_recoverable e then Inl e # reader_loop jp de dbg st' else [Inl e])"
  by pat_completeness auto
termination
  by (relation "measure (\<lambda>(jp, de, dbg, st). length (sm_bytes st))")
    (auto dest: read_message_shorter [OF sym])

declare reader_loop.simps [simp del]

record connection =
  cn_incoming :: "(rpc_error + message) list"
  cn_writer :: sink

datatype received = GotMessage message | TimedOut | Closed

text \<open>\<open>spawned\<close> is the error of starting the thread, if any.\<close>

definition connection_new ::
  "(u8 list \<Rightarrow> rstr + json) \<Rightarrow> (json \<Rightarrow> rstr) \<Rightarrow> (rstr \<Rightarrow> rstr) \<Rightarrow> rstr option \<Rightarrow> stream \<Rightarrow> sink \<Rightarrow> connection" where
  "connection_new jp de dbg spawned st k = (case spawned of
      Some e \<Rightarrow> \<lparr>cn_incoming = [Inl (RpcIo e)], cn_writer = k\<rparr>
    | None \<Rightarrow> \<lparr>cn_incoming = reader_loop jp de dbg st, cn_writer = k\<rparr>)"

definition recv :: "connection \<Rightarrow> (rpc_error + received) \<times> connection" where
  "recv c = (case cn_incoming c of
      [] \<Rightarrow> (Inr Closed, c)
    | Inr m # rest \<Rightarrow> (Inr (GotMessage m), c\<lparr>cn_incoming := rest\<rparr>)
    | Inl e # rest \<Rightarrow> (Inl e, c\<lparr>cn_incoming := rest\<rparr>))"

text \<open>\<open>arrived\<close>: an item, or the end, came within the timeout.\<close>

definition recv_timeout :: "bool \<Rightarrow> connection \<Rightarrow> (rpc_error + received) \<times> connection" where
  "recv_timeout arrived c = (if arrived then recv c else (Inr TimedOut, c))"

definition send :: "(json \<Rightarrow> rstr) \<Rightarrow> message \<Rightarrow> connection \<Rightarrow> rpc_error option \<times> connection" where
  "send jt m c = (let (r, k) = write_message jt m (cn_writer c) in (r, c\<lparr>cn_writer := k\<rparr>))"

definition respond :: "(json \<Rightarrow> rstr) \<Rightarrow> json \<Rightarrow> json \<Rightarrow> connection \<Rightarrow> rpc_error option \<times> connection" where
  "respond jt i result c = send jt (message_response i result) c"

definition respond_error :: "(json \<Rightarrow> rstr) \<Rightarrow> json \<Rightarrow> int \<Rightarrow> rstr \<Rightarrow> connection \<Rightarrow> rpc_error option \<times> connection" where
  "respond_error jt i code txt c = send jt (error_response i code txt) c"

definition notify :: "(json \<Rightarrow> rstr) \<Rightarrow> rstr \<Rightarrow> json \<Rightarrow> connection \<Rightarrow> rpc_error option \<times> connection" where
  "notify jt meth params c = send jt (message_notification meth (Some params)) c"

section \<open>Messages survive their JSON\<close>

lemma obj_get_append: "obj_get (a @ b) k = (case obj_get a k of Some v \<Rightarrow> Some v | None \<Rightarrow> obj_get b k)"
  by (simp add: obj_get_def map_add_def split: option.splits)

lemma obj_get_opt_member: "obj_get (opt_member k' v) k = (if str k' = k then v else None)"
  by (simp add: opt_member_def split: option.splits)

lemmas member_simps = obj_get_append obj_get_opt_member

definition wire_ok :: "message \<Rightarrow> bool" where
  "wire_ok m \<longleftrightarrow>
     (case ms_id m of None \<Rightarrow> True | Some i \<Rightarrow> is_id i \<or> (i = JNull \<and> ms_method m = None)) \<and>
     (case ms_error m of None \<Rightarrow> True
      | Some e \<Rightarrow> - (2 ^ 63) \<le> re_code e \<and> re_code e < 2 ^ 63 \<and> re_data e \<noteq> Some JNull)"

lemma read_response_error_json:
  "- (2 ^ 63) \<le> re_code e \<Longrightarrow> re_code e < 2 ^ 63 \<Longrightarrow> re_data e \<noteq> Some JNull \<Longrightarrow>
    read_response_error (response_error_to_json e) = Some e"
  by (cases e) (auto simp: response_error_to_json_def read_response_error_def response_error_of_def member_simps
      read_i64_def read_string_def as_str_def optional_member_def split: option.splits json.splits)

lemma opt_field_get: "opt_field f m k = (case obj_get m k of
    None \<Rightarrow> Some None | Some v \<Rightarrow> if v = JNull then Some None else map_option Some (f v))"
  by (simp add: opt_field_def split: option.splits json.splits)

lemma message_to_json_get:
  assumes "message_to_json m = JObj fs"
  shows "obj_get fs (str ''jsonrpc'') = Some (JStr (ms_jsonrpc m))" "obj_get fs (str ''id'') = ms_id m"
    "obj_get fs (str ''method'') = map_option JStr (ms_method m)" "obj_get fs (str ''params'') = ms_params m"
    "obj_get fs (str ''result'') = ms_result m"
    "obj_get fs (str ''error'') = map_option response_error_to_json (ms_error m)"
  using assms by (auto simp: message_to_json_def member_simps split: option.splits)

lemma message_of_json:
  assumes "wire_ok m"
  shows "message_of de (message_to_json m) = Inr m"
proof -
  obtain fs where fs: "message_to_json m = JObj fs" by (simp add: message_to_json_def)
  note get = message_to_json_get [OF fs]
  have meth: "opt_field read_string fs (str ''method'') = Some (ms_method m)"
    by (simp add: opt_field_get get read_string_def as_str_def split: option.splits)
  have errf: "opt_field read_response_error fs (str ''error'') = Some (ms_error m)"
  proof (cases "ms_error m")
    case (Some e)
    have "response_error_to_json e \<noteq> JNull" by (simp add: response_error_to_json_def)
    with Some assms show ?thesis
      by (simp add: opt_field_get get read_response_error_json wire_ok_def)
  qed (simp add: opt_field_get get)
  have fields: "message_of_fields fs = Some m"
    using meth errf by (simp add: message_of_fields_def default_field_def get read_string_def as_str_def)
  show ?thesis
    using assms by (auto simp: message_of_def fs get fields wire_ok_def Let_def split: option.splits)
qed

section \<open>Header blocks\<close>

definition header_text :: "rstr \<Rightarrow> bool" where
  "header_text h \<longleftrightarrow> h \<noteq> [] \<and> valid_text h \<and> 10 \<notin> set h \<and> last h \<noteq> 13"

definition block :: "rstr list \<Rightarrow> u8 list" where
  "block hs = concat (map (\<lambda>h. encode_utf8 h @ [13, 10]) hs) @ [13, 10]"

abbreviation clean_stream :: "u8 list \<Rightarrow> stream" where
  "clean_stream bs \<equiv> \<lparr>sm_bytes = bs, sm_fault = None\<rparr>"

lemma newline_free: "10 \<notin> set h \<Longrightarrow> 10 \<notin> set (encode_utf8 h)"
  using encode_char_ascii_byte [of 10] by (induction h) (auto simp: encode_utf8_def)

lemma read_until_line:
  "10 \<notin> set l \<Longrightarrow> read_until \<lparr>sm_bytes = l @ 10 # rest, sm_fault = f\<rparr> = (Inr (l @ [10]), \<lparr>sm_bytes = rest, sm_fault = f\<rparr>)"
  using split_once_Some [of 10 "l @ 10 # rest" l rest] by (simp add: read_until_def)

lemma read_header_line:
  assumes "header_text h"
  shows "read_headers dbg len started \<lparr>sm_bytes = encode_utf8 h @ 13 # 10 # rest, sm_fault = f\<rparr> =
    read_headers dbg (header_line dbg len h) True \<lparr>sm_bytes = rest, sm_fault = f\<rparr>"
proof -
  have crlf: "encode_utf8 h @ [13, 10] = encode_utf8 (h @ [13, 10])"
    by (simp add: encode_utf8_def encode_char_def)
  have "valid_text (h @ [13, 10])"
    using assms by (auto simp: header_text_def valid_text_def is_scalar_def)
  then have lossy: "from_utf8_lossy (encode_utf8 h @ [13, 10]) = h @ [13, 10]"
    unfolding crlf by (rule from_utf8_lossy_encode)
  have "last h \<noteq> 10" using assms last_in_set [of h] unfolding header_text_def by metis
  then have trim: "trim_end_matches (\<lambda>c. c = 13 \<or> c = 10) (h @ [13, 10]) = h"
    using assms trim_end_matches_append [of "[13, 10]" "\<lambda>c. c = 13 \<or> c = 10" h]
    by (simp add: header_text_def trim_end_matches_id)
  have "10 \<notin> set (encode_utf8 h @ [13])"
    using assms newline_free by (simp add: header_text_def)
  from read_until_line [OF this, of rest f]
  have "read_until \<lparr>sm_bytes = encode_utf8 h @ 13 # 10 # rest, sm_fault = f\<rparr> =
      (Inr (encode_utf8 h @ [13, 10]), \<lparr>sm_bytes = rest, sm_fault = f\<rparr>)"
    by simp
  then show ?thesis
    using assms by (simp add: read_headers.simps [of dbg len started] lossy trim Let_def header_text_def)
qed

lemma read_blank_line:
  "read_headers dbg len started \<lparr>sm_bytes = 13 # 10 # rest, sm_fault = f\<rparr> =
    (if started then (Inr (Some len), \<lparr>sm_bytes = rest, sm_fault = f\<rparr>)
     else read_headers dbg len started \<lparr>sm_bytes = rest, sm_fault = f\<rparr>)"
proof -
  have "from_utf8_lossy [13, 10] = [13, 10]"
    using from_utf8_lossy_encode [of "[13, 10]"] by (simp add: valid_text_def is_scalar_def encode_utf8_def encode_char_def)
  then show ?thesis
    using read_until_line [of "[13]" rest f]
    by (subst read_headers.simps) (simp add: trim_end_matches_def)
qed

lemma read_header_block:
  "list_all header_text hs \<Longrightarrow> started \<or> hs \<noteq> [] \<Longrightarrow>
    read_headers dbg len started \<lparr>sm_bytes = block hs @ rest, sm_fault = f\<rparr> =
      (Inr (Some (foldl (header_line dbg) len hs)), \<lparr>sm_bytes = rest, sm_fault = f\<rparr>)"
proof (induction hs arbitrary: len started)
  case (Cons h hs)
  then show ?case
    using read_header_line [of h dbg len started "block hs @ rest" f] by (simp add: block_def)
qed (simp add: block_def read_blank_line)

lemma read_body_exact:
  "read_body jp de (length body) \<lparr>sm_bytes = body @ rest, sm_fault = f\<rparr> =
    (case jp body of
       Inl err \<Rightarrow> Inl (RpcJson err)
     | Inr v \<Rightarrow> (case message_of de v of Inl err \<Rightarrow> Inl err | Inr m \<Rightarrow> Inr (Some m)),
     \<lparr>sm_bytes = rest, sm_fault = f\<rparr>)"
  by (simp add: read_body_def read_exactly_def)

lemma message_of_recoverable: "message_of de v = Inl e \<Longrightarrow> is_recoverable e"
  by (auto simp: message_of_def is_recoverable_def Let_def split: json.splits if_splits option.splits)

text \<open>One complete frame, whatever it holds, is one item of the channel.\<close>

lemma reader_loop_frame:
  assumes "list_all header_text hs" "hs \<noteq> []" "foldl (header_line dbg) None hs = Some (Inr (length body))"
  shows "reader_loop jp de dbg \<lparr>sm_bytes = block hs @ body @ rest, sm_fault = f\<rparr> =
    (case jp body of Inl err \<Rightarrow> Inl (RpcJson err) | Inr v \<Rightarrow> message_of de v) #
      reader_loop jp de dbg \<lparr>sm_bytes = rest, sm_fault = f\<rparr>"
proof -
  have "read_message jp de dbg \<lparr>sm_bytes = block hs @ body @ rest, sm_fault = f\<rparr> =
      read_body jp de (length body) \<lparr>sm_bytes = body @ rest, sm_fault = f\<rparr>"
    using assms read_header_block [of hs False dbg None "body @ rest" f] by (simp add: read_message_def)
  then show ?thesis
    by (subst reader_loop.simps)
      (auto simp: read_body_exact is_recoverable_def dest!: message_of_recoverable split: sum.splits)
qed

lemma reader_loop_bad_block:
  assumes "list_all header_text hs" "hs \<noteq> []" "\<nexists>n. foldl (header_line dbg) None hs = Some (Inr n)"
  shows "reader_loop jp de dbg \<lparr>sm_bytes = block hs @ rest, sm_fault = f\<rparr> =
    Inl (RpcFrame (case foldl (header_line dbg) None hs of
        Some (Inl txt) \<Rightarrow> txt | _ \<Rightarrow> str ''missing Content-Length header'')) #
      reader_loop jp de dbg \<lparr>sm_bytes = rest, sm_fault = f\<rparr>"
  using assms read_header_block [of hs False dbg None rest f]
  by (subst reader_loop.simps)
    (auto simp: read_message_def is_recoverable_def split: option.splits sum.splits)

section \<open>Frames\<close>

definition length_header :: "nat \<Rightarrow> rstr" where
  "length_header n = str ''Content-Length: '' @ show_nat n"

lemma length_header_text: "header_text (length_header n)"
proof -
  have digits: "c \<in> set (show_nat n) \<Longrightarrow> 48 \<le> c \<and> c \<le> 57" for c
    using show_nat_digits [of n] by (auto simp: list_all_iff is_ascii_digit_def)
  have lit: "list_all (\<lambda>c. is_scalar c \<and> c \<noteq> 10) (str ''Content-Length: '')" by code_simp
  have "last (length_header n) \<noteq> 13"
    using digits [of "last (show_nat n)"] by (simp add: length_header_def)
  moreover have "valid_text (length_header n) \<and> 10 \<notin> set (length_header n)"
    using lit digits by (fastforce simp: length_header_def valid_text_def is_scalar_def list_all_iff)
  ultimately show ?thesis by (simp add: header_text_def length_header_def)
qed

lemma trim_digits: "trim (32 # show_nat n) = show_nat n"
proof -
  have digits: "c \<in> set (show_nat n) \<Longrightarrow> \<not> is_whitespace c" for c
    using show_nat_digits [of n] by (auto simp: list_all_iff is_ascii_digit_def is_whitespace_def)
  then have "\<not> is_whitespace (last (show_nat n))" by simp
  moreover have "dropWhile is_whitespace (show_nat n) = show_nat n"
    using digits [of "hd (show_nat n)"] by (cases "show_nat n") simp_all
  ultimately show ?thesis
    by (simp add: trim_def trim_end_matches_id is_whitespace_def [of 32])
qed

lemma header_line_length: "n < u64_limit \<Longrightarrow> header_line dbg len (length_header n) = Some (Inr n)"
proof -
  assume n: "n < u64_limit"
  have "split_once 58 (length_header n) = Some (str ''Content-Length'', 32 # show_nat n)"
    unfolding split_once_Some by (simp add: length_header_def str_def)
  moreover have "eq_ignore_ascii_case (trim (str ''Content-Length'')) (str ''content-length'')" by code_simp
  ultimately show ?thesis
    using n by (simp add: header_line_def trim_digits parse_u64_show_nat)
qed

definition body_of :: "(json \<Rightarrow> rstr) \<Rightarrow> message \<Rightarrow> u8 list" where
  "body_of jt m = encode_utf8 (jt (message_to_json m))"

lemma frame_of_block: "frame_of jt m = block [length_header (length (body_of jt m))] @ body_of jt m"
  by (simp add: frame_of_def block_def length_header_def body_of_def Let_def encode_utf8_def encode_char_def)

lemma reader_loop_frame_of:
  assumes "wire_ok m" "length (body_of jt m) < u64_limit" "jp (body_of jt m) = Inr (message_to_json m)"
  shows "reader_loop jp de dbg \<lparr>sm_bytes = frame_of jt m @ rest, sm_fault = f\<rparr> =
    Inr m # reader_loop jp de dbg \<lparr>sm_bytes = rest, sm_fault = f\<rparr>"
  using reader_loop_frame [of "[length_header (length (body_of jt m))]" dbg "body_of jt m" jp de rest f] assms
  by (simp add: frame_of_block length_header_text header_line_length message_of_json)

lemma reader_loop_frames:
  "(\<And>m. m \<in> set ms \<Longrightarrow> wire_ok m \<and> length (body_of jt m) < u64_limit \<and> jp (body_of jt m) = Inr (message_to_json m)) \<Longrightarrow>
    reader_loop jp de dbg \<lparr>sm_bytes = concat (map (frame_of jt) ms) @ rest, sm_fault = f\<rparr> =
      map Inr ms @ reader_loop jp de dbg \<lparr>sm_bytes = rest, sm_fault = f\<rparr>"
  by (induction ms) (simp_all add: reader_loop_frame_of)

lemma reader_loop_end: "reader_loop jp de dbg (clean_stream []) = []"
  by (simp add: reader_loop.simps read_message_def read_headers.simps read_until_def)

lemma sends_append:
  "cn_writer c = \<lparr>sk_out = out, sk_fault = None, sk_flush = None\<rparr> \<Longrightarrow>
    run_steps (\<lambda>c m. send jt m c) c ms = (replicate (length ms) None,
      c\<lparr>cn_writer := \<lparr>sk_out = out @ concat (map (frame_of jt) ms), sk_fault = None, sk_flush = None\<rparr>\<rparr>)"
  by (induction ms arbitrary: c out)
    (simp_all add: send_def write_message_def write_all_def Let_def)

section \<open>How reading ends\<close>

lemma read_headers_fault:
  "read_headers dbg len started st = (r, st') \<Longrightarrow>
    sm_fault st' = sm_fault st \<and>
    (\<forall>e. sm_fault st = Some e \<longrightarrow> r \<noteq> Inr None \<and> (\<forall>x. r = Inl x \<longrightarrow> x = RpcIo e)) \<and>
    (\<forall>x. r = Inl x \<longrightarrow> \<not> is_recoverable x)"
proof (induction dbg len started st rule: read_headers.induct)
  case (1 dbg len started st)
  obtain l st1 where l: "read_until st = (l, st1)" by (cases "read_until st")
  then have "sm_fault st1 = sm_fault st"
    and "sm_fault st = Some e \<Longrightarrow> l \<noteq> Inr [] \<and> (\<forall>x. l = Inl x \<longrightarrow> x = e)" for e
    by (auto simp: read_until_def split: option.splits)
  with 1 l show ?case
    by (subst (asm) (3) read_headers.simps)
      (fastforce simp: Let_def is_recoverable_def split: sum.splits if_splits)
qed

lemma read_message_fault:
  assumes "read_message jp de dbg st = (r, st')"
  shows "sm_fault st' = sm_fault st \<and>
    (\<forall>e. sm_fault st = Some e \<longrightarrow> r \<noteq> Inr None \<and> (\<forall>x. r = Inl x \<and> \<not> is_recoverable x \<longrightarrow> x = RpcIo e))"
proof -
  obtain h st1 where h: "read_headers dbg None False st = (h, st1)" by (cases "read_headers dbg None False st")
  note H = read_headers_fault [OF h]
  have body: "read_body jp de n st1 = (r, st') \<Longrightarrow> sm_fault st' = sm_fault st1 \<and>
    (\<forall>e. sm_fault st1 = Some e \<longrightarrow> r \<noteq> Inr None \<and> (\<forall>x. r = Inl x \<and> \<not> is_recoverable x \<longrightarrow> x = RpcIo e))" for n
    by (auto simp: read_body_def read_exactly_def is_recoverable_def dest: message_of_recoverable
        split: prod.splits sum.splits if_splits option.splits)
  from assms h H body show ?thesis
    by (auto simp: read_message_def is_recoverable_def split: sum.splits option.splits)
qed

lemma reader_loop_ends:
  "length (reader_loop jp de dbg st) \<le> Suc (length (sm_bytes st)) \<and>
   list_all (\<lambda>x. case x of Inl e \<Rightarrow> is_recoverable e | Inr _ \<Rightarrow> True) (butlast (reader_loop jp de dbg st)) \<and>
   (case sm_fault st of None \<Rightarrow> True
    | Some e \<Rightarrow> reader_loop jp de dbg st \<noteq> [] \<and> last (reader_loop jp de dbg st) = Inl (RpcIo e))"
proof (induction jp de dbg st rule: reader_loop.induct)
  case (1 jp de dbg st)
  obtain r st1 where r: "read_message jp de dbg st = (r, st1)" by (cases "read_message jp de dbg st")
  note F = read_message_fault [OF r]
  note S = read_message_shorter [OF r]
  consider (msg) m where "r = Inr (Some m)" | (eof) "r = Inr None"
    | (go) e where "r = Inl e" "is_recoverable e" | (stop) e where "r = Inl e" "\<not> is_recoverable e"
    by (cases r) auto
  then show ?case
  proof cases
    case msg
    have unf: "reader_loop jp de dbg st = Inr m # reader_loop jp de dbg st1"
      by (subst reader_loop.simps) (simp add: r msg)
    show ?thesis
      using "1.IH" (2) [OF r [symmetric, unfolded msg] refl refl] S msg F unfolding unf by (auto split: option.splits)
  next
    case eof
    then show ?thesis using F by (subst (1 2 3 4) reader_loop.simps) (auto simp: r split: option.splits)
  next
    case go
    have unf: "reader_loop jp de dbg st = Inl e # reader_loop jp de dbg st1"
      by (subst reader_loop.simps) (simp add: r go)
    show ?thesis
      using "1.IH" (1) [OF r [symmetric, unfolded go(1)] refl go(2)] S go F unfolding unf by (auto split: option.splits)
  next
    case stop
    have unf: "reader_loop jp de dbg st = [Inl e]"
      by (subst reader_loop.simps) (simp add: r stop)
    show ?thesis using F stop unfolding unf by (auto split: option.splits)
  qed
qed

text \<open>The id a refusal goes out under: the one the body names, when an answer can carry it.\<close>

definition named_id :: "json \<Rightarrow> json" where
  "named_id v = (case value_get v (str ''id'') of
      Some i \<Rightarrow> if is_id i then i else JNull | None \<Rightarrow> JNull)"

lemma message_of_refusal:
  "message_of de v = Inl e \<Longrightarrow> \<exists>i msg. e = RpcInvalid i msg \<and> unwrap_or i JNull = named_id v"
  by (auto simp: message_of_def named_id_def value_get_def unwrap_or_def Let_def
      split: json.splits if_splits option.splits)

section \<open>The properties\<close>

text \<open>
  C20: what one side sends, the other receives: messages sent one after the other through a
  connection whose stream accepts them come out of the other side's reader thread equal, in
  order and nothing besides, whatever arrives after them. It relies on \<open>serde_json\<close> reading back
  the bodies it wrote.
\<close>
theorem framing_round_trip:
  assumes "\<And>m. m \<in> set ms \<Longrightarrow> wire_ok m"
    and "\<And>m. m \<in> set ms \<Longrightarrow> jp (encode_utf8 (jt (message_to_json m))) = Inr (message_to_json m)"
    and "\<And>m. m \<in> set ms \<Longrightarrow> length (encode_utf8 (jt (message_to_json m))) < u64_limit"
    and "cn_writer c = \<lparr>sk_out = [], sk_fault = None, sk_flush = None\<rparr>"
  shows "let (results, c') = run_steps (\<lambda>c m. send jt m c) c ms
         in results = replicate (length ms) None \<and>
            cn_incoming (connection_new jp de dbg None \<lparr>sm_bytes = sk_out (cn_writer c') @ rest, sm_fault = f\<rparr> k) =
              map Inr ms @ reader_loop jp de dbg \<lparr>sm_bytes = rest, sm_fault = f\<rparr>"
  using assms(1-3) sends_append [OF assms(4)]
  by (simp add: connection_new_def body_of_def reader_loop_frames)

theorem framing_round_trip_witness:
  "let m = message_request (JNum (NInt 1)) (str ''shutdown'') None; jt = (\<lambda>v. str ''body'');
       c' = snd (send jt m \<lparr>cn_incoming = [], cn_writer = \<lparr>sk_out = [], sk_fault = None, sk_flush = None\<rparr>\<rparr>)
   in cn_incoming (connection_new (\<lambda>_. Inr (message_to_json m)) (\<lambda>_. []) id None
        \<lparr>sm_bytes = sk_out (cn_writer c'), sm_fault = None\<rparr> (cn_writer c')) = [Inr m]"
proof -
  define m where "m = message_request (JNum (NInt 1)) (str ''shutdown'') None"
  define c where "c = \<lparr>cn_incoming = [], cn_writer = \<lparr>sk_out = [], sk_fault = None, sk_flush = None\<rparr>\<rparr>"
  have ok: "wire_ok m" unfolding m_def by code_simp
  have len: "length (encode_utf8 (str ''body'')) < u64_limit" by code_simp
  show ?thesis
    using framing_round_trip [of "[m]" "\<lambda>_. Inr (message_to_json m)" "\<lambda>_. str ''body''" c "\<lambda>_. []" id "[]" None
        "cn_writer (snd (send (\<lambda>_. str ''body'') m c))"] ok len
    unfolding m_def [symmetric] c_def [symmetric] Let_def
    by (simp add: c_def case_prod_unfold Let_def reader_loop_end)
qed

text \<open>
  C37: malformed input costs one item and never the session. A block of header lines without a
  usable \<open>Content-Length\<close> is one frame error and reading goes on right after the block; a block
  whose (last) \<open>Content-Length\<close> counts the body is one message, or the one error of a body that
  is no JSON or no message, and reading goes on right after the body.
\<close>
theorem reader_resyncs:
  assumes "list_all header_text hs" "hs \<noteq> []"
  shows "((\<nexists>n. foldl (header_line dbg) None hs = Some (Inr n)) \<longrightarrow>
      (\<exists>txt. reader_loop jp de dbg \<lparr>sm_bytes = block hs @ rest, sm_fault = f\<rparr> =
         Inl (RpcFrame txt) # reader_loop jp de dbg \<lparr>sm_bytes = rest, sm_fault = f\<rparr>)) \<and>
    (foldl (header_line dbg) None hs = Some (Inr (length body)) \<longrightarrow>
      reader_loop jp de dbg \<lparr>sm_bytes = block hs @ body @ rest, sm_fault = f\<rparr> =
        (case jp body of Inl err \<Rightarrow> Inl (RpcJson err) | Inr v \<Rightarrow> message_of de v) #
          reader_loop jp de dbg \<lparr>sm_bytes = rest, sm_fault = f\<rparr>)"
  using reader_loop_bad_block [OF assms, of dbg jp de rest f]
    reader_loop_frame [OF assms, of dbg body jp de rest f]
  by blast

theorem reader_resyncs_witness:
  "reader_loop (\<lambda>_. Inl []) (\<lambda>_. []) id
     (clean_stream (block [str ''X: 1''] @ block [str ''content-LENGTH: 2''] @ [123, 123])) =
   [Inl (RpcFrame (str ''missing Content-Length header'')), Inl (RpcJson [])]"
proof -
  have h: "list_all header_text [str ''X: 1'']" "list_all header_text [str ''content-LENGTH: 2'']"
    "foldl (header_line id) None [str ''X: 1''] = None"
    "foldl (header_line id) None [str ''content-LENGTH: 2''] = Some (Inr (length [123::nat, 123]))"
    by code_simp+
  have two: "reader_loop (\<lambda>_. Inl []) (\<lambda>_. []) id (clean_stream (block [str ''content-LENGTH: 2''] @ [123, 123] @ [])) =
      [Inl (RpcJson [])]"
    using reader_resyncs [OF h(2), of id "\<lambda>_. Inl []" "\<lambda>_. []" "[]" None "[123, 123]"] h(4)
    by (simp add: reader_loop_end)
  then show ?thesis
    using reader_loop_bad_block [OF h(1), of id "\<lambda>_. Inl []" "\<lambda>_. []" "block [str ''content-LENGTH: 2''] @ [123, 123]" None] h(3)
    by simp
qed

text \<open>
  The reader thread ends on every stream, after at most one item per byte and one more; only
  its last item can be an unrecoverable error; and a stream that fails has its failure passed
  on, as that last item, after everything that was read before it.
\<close>
theorem reader_terminates:
  "let items = reader_loop jp de dbg st
   in length items \<le> Suc (length (sm_bytes st)) \<and>
      list_all (\<lambda>x. case x of Inl e \<Rightarrow> is_recoverable e | Inr _ \<Rightarrow> True) (butlast items) \<and>
      (case sm_fault st of None \<Rightarrow> True | Some e \<Rightarrow> items \<noteq> [] \<and> last items = Inl (RpcIo e))"
  unfolding Let_def by (rule reader_loop_ends)

text \<open>
  C38: what is taken for a message can be answered: a request's id is a string or a number. What
  is not taken is no object, or an object whose fields are not a message's or whose id is neither
  (a null id passes when there is no method); it is answered with \<open>InvalidRequest\<close>, under the id
  it names whenever that is a string or a number and under null otherwise, and a body that is no
  JSON with \<open>ParseError\<close> under null. A message is never two of request, notification and
  response at once.
\<close>
theorem refusals_answered:
  "(case message_of de v of
      Inr m \<Rightarrow> (is_request m \<longrightarrow> (\<exists>i. ms_id m = Some i \<and> is_id i)) \<and> ms_id m = value_get v (str ''id'') \<and>
        (case ms_id m of None \<Rightarrow> True | Some i \<Rightarrow> is_id i \<or> (i = JNull \<and> ms_method m = None)) \<and>
        \<not> (is_request m \<and> is_notification m) \<and> \<not> (is_request m \<and> is_response m) \<and>
        \<not> (is_notification m \<and> is_response m)
    | Inl e \<Rightarrow> (\<exists>txt. error_answer e = Some (error_response (named_id v) INVALID_REQUEST txt)) \<and>
        (case v of
           JObj fs \<Rightarrow> message_of_fields fs = None \<or>
             (case obj_get fs (str ''id'') of
                None \<Rightarrow> False
              | Some i \<Rightarrow> \<not> is_id i \<and> \<not> (i = JNull \<and> obj_get fs (str ''method'') = None))
         | _ \<Rightarrow> True)) \<and>
   error_answer (RpcJson err) = Some (error_response JNull PARSE_ERROR (str ''Parse error: '' @ err))"
proof (cases "message_of de v")
  case (Inr m)
  then obtain fs where v: "v = JObj fs" and m: "message_of_fields fs = Some m"
    and i: "obj_get fs (str ''id'') = None \<or> is_id (the (obj_get fs (str ''id''))) \<or>
      (obj_get fs (str ''id'') = Some JNull \<and> obj_get fs (str ''method'') = None)"
    by (auto simp: message_of_def Let_def split: json.splits if_splits option.splits)
  have mi: "ms_id m = obj_get fs (str ''id'')" and meth: "opt_field read_string fs (str ''method'') = Some (ms_method m)"
    using m unfolding message_of_fields_def by (auto elim!: bind_SomeE)
  have "is_request m \<Longrightarrow> \<exists>i. ms_id m = Some i \<and> is_id i"
    using i mi meth by (auto simp: is_request_def opt_field_def)
  moreover have "case ms_id m of None \<Rightarrow> True | Some i \<Rightarrow> is_id i \<or> (i = JNull \<and> ms_method m = None)"
    using i mi meth by (auto simp: opt_field_def split: option.splits)
  ultimately show ?thesis
    using Inr mi by (auto simp: v value_get_def is_request_def is_notification_def is_response_def error_answer_def)
next
  case (Inl e)
  obtain i msg where e: "e = RpcInvalid i msg" "unwrap_or i JNull = named_id v"
    using message_of_refusal [OF Inl] by blast
  have "case v of JObj fs \<Rightarrow> message_of_fields fs = None \<or>
      (case obj_get fs (str ''id'') of None \<Rightarrow> False
       | Some i \<Rightarrow> \<not> is_id i \<and> \<not> (i = JNull \<and> obj_get fs (str ''method'') = None)) | _ \<Rightarrow> True"
    using Inl by (auto simp: message_of_def Let_def split: json.splits if_splits option.splits)
  moreover have "\<exists>txt. error_answer e = Some (error_response (named_id v) INVALID_REQUEST txt)"
    using e by (simp add: error_answer_def) blast
  ultimately show ?thesis using Inl by (simp add: error_answer_def [of "RpcJson err"])
qed

theorem refusals_answered_witness:
  "map (\<lambda>v. error_answer (case message_of (\<lambda>_. []) v of Inl e \<Rightarrow> e | Inr m \<Rightarrow> RpcIo []))
     [JObj [(str ''id'', JNum (NInt 7)), (str ''method'', JBool True)], JObj [(str ''id'', JBool True)]] =
   [Some (error_response (JNum (NInt 7)) INVALID_REQUEST (str ''Invalid request: '')),
    Some (error_response JNull INVALID_REQUEST (str ''Invalid request: id must be a string or a number''))]"
proof -
  let ?v = "JObj [(str ''id'', JNum (NInt 7)), (str ''method'', JBool True)]" and ?w = "JObj [(str ''id'', JBool True)]"
  let ?no = "str ''id must be a string or a number''"
  have v: "message_of (\<lambda>_. []) ?v = Inl (RpcInvalid (Some (JNum (NInt 7))) [])" "named_id ?v = JNum (NInt 7)"
    and w: "message_of (\<lambda>_. []) ?w = Inl (RpcInvalid None ?no)" "named_id ?w = JNull"
    by code_simp+
  have "\<exists>txt. error_answer (RpcInvalid (Some (JNum (NInt 7))) []) = Some (error_response (JNum (NInt 7)) INVALID_REQUEST txt)"
    "\<exists>txt. error_answer (RpcInvalid None ?no) = Some (error_response JNull INVALID_REQUEST txt)"
    using refusals_answered [where de = "\<lambda>_. []" and v = ?v] refusals_answered [where de = "\<lambda>_. []" and v = ?w]
    unfolding v w sum.case by blast+
  moreover have "str ''Invalid request: '' @ ?no = str ''Invalid request: id must be a string or a number''" by code_simp
  ultimately show ?thesis by (simp add: v w error_answer_def unwrap_or_def)
qed

end
