(* ===== verification/Firewall.thy ===== *)
theory Firewall
  imports Types
begin

text \<open>
  The grammar firewall (\<open>rs/src/loaders.rs\<close>, first half): the scan for forbidden keys and
  depth, the scans for function references, and \<open>firewall_spec\<close> over them, with the predicate
  that says which documents pass (\<open>spec_ok\<close>).

  The engine is the parameter \<open>engine\<close>: \<open>fe_installs doc\<close> says whether a bare engine installs
  the grammar document \<open>doc\<close>, \<open>fe_schema\<close> is its \<open>BUILTIN_SCHEMA_VERSION\<close>. \<open>jn\<close> is the text of a
  number as JavaScript prints it (\<open>js_number\<close>), which rests on the printing of doubles.
\<close>

section \<open>Limits\<close>

definition MAX_GRAMMAR_RULES :: nat where "MAX_GRAMMAR_RULES = 5000"
definition MAX_GRAMMAR_ALTS :: nat where "MAX_GRAMMAR_ALTS = 10000"
definition MAX_GRAMMAR_DEPTH :: nat where "MAX_GRAMMAR_DEPTH = 100"
definition MAX_OPTIONS_ISSUES :: nat where "MAX_OPTIONS_ISSUES = 100"
definition MAX_BUILTIN_MEMO :: nat where "MAX_BUILTIN_MEMO = 4096"

definition FORBIDDEN_KEYS :: "rstr list" where
  "FORBIDDEN_KEYS = map str [''__proto__'', ''constructor'', ''prototype'']"

definition ALT_FUNC_KEYS :: "rstr list" where
  "ALT_FUNC_KEYS = map str [''b'', ''p'', ''r'', ''a'', ''e'', ''h'', ''c'']"

record firewall_engine =
  fe_installs :: "json \<Rightarrow> bool"
  fe_schema :: nat

definition mk_issue :: "rstr \<Rightarrow> rstr \<Rightarrow> issue" where
  "mk_issue p m = \<lparr>issue_path = p, issue_message = m\<rparr>"

definition nesting_refusal :: rstr where
  "nesting_refusal = str ''grammar nesting deeper than '' @ show_nat MAX_GRAMMAR_DEPTH @
     str '' levels: refused (no real GrammarSpec is this deep, and the scans must not be recursed off the stack)''"

definition item_path :: "rstr \<Rightarrow> nat \<Rightarrow> rstr" where
  "item_path p i = p @ str ''['' @ show_nat i @ str '']''"

definition field_path :: "rstr \<Rightarrow> rstr \<Rightarrow> rstr" where
  "field_path p k = p @ str ''.'' @ k"

section \<open>Forbidden keys and depth\<close>

definition forbidden_key :: "rstr \<Rightarrow> rstr" where
  "forbidden_key k = str ''forbidden key '' @ [39] @ k @ [39] @
     str '': refused to prevent prototype pollution (a serialized grammar is data, never a route to Object.prototype)''"

fun scan_forbidden_keys :: "json \<Rightarrow> rstr \<Rightarrow> issue list \<Rightarrow> nat \<Rightarrow> issue list"
and scan_forbidden_items :: "json list \<Rightarrow> nat \<Rightarrow> rstr \<Rightarrow> issue list \<Rightarrow> nat \<Rightarrow> issue list"
and scan_forbidden_fields :: "fields \<Rightarrow> rstr \<Rightarrow> issue list \<Rightarrow> nat \<Rightarrow> issue list" where
  "scan_forbidden_keys (JArr items) path out depth =
     (if MAX_GRAMMAR_DEPTH < depth then out @ [mk_issue path nesting_refusal]
      else scan_forbidden_items items 0 path out depth)"
| "scan_forbidden_keys (JObj m) path out depth =
     (if MAX_GRAMMAR_DEPTH < depth then out @ [mk_issue path nesting_refusal]
      else scan_forbidden_fields m path out depth)"
| "scan_forbidden_keys _ path out depth = out"
| "scan_forbidden_items [] i path out depth = out"
| "scan_forbidden_items (x # xs) i path out depth =
     scan_forbidden_items xs (i + 1) path (scan_forbidden_keys x (item_path path i) out (depth + 1)) depth"
| "scan_forbidden_fields [] path out depth = out"
| "scan_forbidden_fields ((k, x) # m) path out depth =
     (if k \<in> set FORBIDDEN_KEYS
      then scan_forbidden_fields m path (out @ [mk_issue (field_path path k) (forbidden_key k)]) depth
      else scan_forbidden_fields m path (scan_forbidden_keys x (field_path path k) out (depth + 1)) depth)"

section \<open>Builtin references\<close>

text \<open>\<open>bare_engine_accepts\<close>: a one-alternate rule naming \<open>name\<close> in the slot, on a bare engine.\<close>

definition probe :: "rstr \<Rightarrow> rstr \<Rightarrow> json" where
  "probe sl name = JObj [(str ''rule'', JObj [(str ''tabnas_lsp_builtin_probe'',
     JObj [(str ''open'', JArr [JObj [(sl, JStr name)]])])])]"

definition bare_engine_accepts :: "firewall_engine \<Rightarrow> rstr \<Rightarrow> rstr \<Rightarrow> bool" where
  "bare_engine_accepts en sl name = fe_installs en (probe sl name)"

definition builtin_shaped :: "rstr \<Rightarrow> bool" where
  "builtin_shaped name \<longleftrightarrow> starts_with name [64] \<and> ends_with name [36]"

definition is_builtin :: "firewall_engine \<Rightarrow> rstr \<Rightarrow> bool" where
  "is_builtin en name \<longleftrightarrow> builtin_shaped name \<and>
     (bare_engine_accepts en (str ''a'') name \<or> bare_engine_accepts en (str ''c'') name)"

text \<open>The process-wide memo behind \<open>is_builtin_ref\<close>, and the memo of one firewall run over it.\<close>

type_synonym memo = "(rstr \<times> bool) list"

definition is_builtin_ref :: "firewall_engine \<Rightarrow> memo \<Rightarrow> rstr \<Rightarrow> bool \<times> memo" where
  "is_builtin_ref en known name =
     (if \<not> builtin_shaped name then (False, known)
      else case map_of known name of
          Some answer \<Rightarrow> (answer, known)
        | None \<Rightarrow>
            let answer = (\<exists>sl\<in>set [str ''a'', str ''c'']. bare_engine_accepts en sl name)
            in (answer, if answer \<or> length known < MAX_BUILTIN_MEMO then (name, answer) # known else known))"

definition memo_is_builtin :: "firewall_engine \<Rightarrow> memo \<times> memo \<Rightarrow> rstr \<Rightarrow> bool \<times> (memo \<times> memo)" where
  "memo_is_builtin en s name = (case s of (run, known) \<Rightarrow>
     (case map_of run name of
        Some answer \<Rightarrow> (answer, (run, known))
      | None \<Rightarrow>
          let (answer, known') = is_builtin_ref en known name
          in (answer, ((name, answer) # run, known'))))"

definition memo_good :: "firewall_engine \<Rightarrow> memo \<Rightarrow> bool" where
  "memo_good en m \<longleftrightarrow> (\<forall>(name, answer)\<in>set m. answer = is_builtin en name)"

lemma memo_goodD: "memo_good en m \<Longrightarrow> map_of m name = Some answer \<Longrightarrow> answer = is_builtin en name"
  unfolding memo_good_def by (metis (mono_tags, lifting) case_prodD map_of_SomeD)

lemma memo_good_simps [simp]:
  "memo_good en []" "memo_good en ((n, a) # m) \<longleftrightarrow> a = is_builtin en n \<and> memo_good en m"
  by (auto simp: memo_good_def)

lemma is_builtin_ref_good:
  assumes "memo_good en known"
  shows "fst (is_builtin_ref en known name) = is_builtin en name \<and> memo_good en (snd (is_builtin_ref en known name))"
  using assms memo_goodD [OF assms, of name]
  by (auto simp: is_builtin_ref_def Let_def is_builtin_def split: option.splits)

text \<open>
  The memos are transparent: whatever was asked before, an answer is the engine's own. The
  scans below therefore ask the engine's predicate.
\<close>

interpretation builtin_memo: stateful_query "is_builtin_ref en" "memo_good en" "is_builtin en"
  by unfold_locales (simp_all add: is_builtin_ref_good)

interpretation firewall_memo: stateful_query "memo_is_builtin en"
    "\<lambda>s. memo_good en (fst s) \<and> memo_good en (snd s)" "is_builtin en"
proof
  fix s :: "memo \<times> memo" and q
  assume good: "memo_good en (fst s) \<and> memo_good en (snd s)"
  then show "fst (memo_is_builtin en s q) = is_builtin en q"
    using is_builtin_ref_good [of en "snd s" q] memo_goodD [of en "fst s" q]
    by (auto simp: memo_is_builtin_def case_prod_unfold Let_def split: option.splits)
  show "memo_good en (fst (snd (memo_is_builtin en s q))) \<and> memo_good en (snd (snd (memo_is_builtin en s q)))"
    using good is_builtin_ref_good [of en "snd s" q]
    by (auto simp: memo_is_builtin_def case_prod_unfold Let_def split: option.splits)
qed

section \<open>Function references\<close>

definition bad_ref :: "rstr \<Rightarrow> rstr \<Rightarrow> issue" where
  "bad_ref reference path = mk_issue path (str ''unknown function reference '' @ [39] @ reference @ [39] @
     str '': a serialized grammar may only name $-suffixed engine builtins'')"

definition ref_shaped :: "rstr \<Rightarrow> bool" where
  "ref_shaped v \<longleftrightarrow> (case v of
      at # c # rest \<Rightarrow> at = 64 \<and> (is_ascii_alphabetic c \<or> c = 95 \<or> c = 36) \<and>
        list_all (\<lambda>c. is_ascii_alphanumeric c \<or> c \<in> {95, 36, 46, 45}) rest
    | _ \<Rightarrow> False)"

definition options_string_ok :: "firewall_engine \<Rightarrow> rstr \<Rightarrow> bool" where
  "options_string_ok en txt \<longleftrightarrow> \<not> ref_shaped txt \<or> txt = str ''@SKIP'' \<or> is_builtin en txt"

fun scan_options_refs :: "firewall_engine \<Rightarrow> json \<Rightarrow> rstr \<Rightarrow> issue list \<Rightarrow> nat \<Rightarrow> issue list"
and scan_options_items :: "firewall_engine \<Rightarrow> json list \<Rightarrow> nat \<Rightarrow> rstr \<Rightarrow> issue list \<Rightarrow> nat \<Rightarrow> issue list"
and scan_options_fields :: "firewall_engine \<Rightarrow> fields \<Rightarrow> rstr \<Rightarrow> issue list \<Rightarrow> nat \<Rightarrow> issue list" where
  "scan_options_refs en v path out depth =
     (if MAX_GRAMMAR_DEPTH < depth \<or> MAX_OPTIONS_ISSUES < length out then out
      else case v of
          JStr txt \<Rightarrow> (if options_string_ok en txt then out else out @ [bad_ref txt path])
        | JArr items \<Rightarrow> scan_options_items en items 0 path out depth
        | JObj m \<Rightarrow> scan_options_fields en m path out depth
        | _ \<Rightarrow> out)"
| "scan_options_items en [] i path out depth = out"
| "scan_options_items en (x # xs) i path out depth =
     scan_options_items en xs (i + 1) path (scan_options_refs en x (item_path path i) out (depth + 1)) depth"
| "scan_options_fields en [] path out depth = out"
| "scan_options_fields en ((k, x) # m) path out depth =
     scan_options_fields en m path (scan_options_refs en x (field_path path k) out (depth + 1)) depth"

text \<open>The item loop also says whether it returned from the whole scan.\<close>

fun scan_alt_items :: "firewall_engine \<Rightarrow> json list \<Rightarrow> nat \<Rightarrow> rstr \<Rightarrow> issue list \<Rightarrow> issue list \<times> bool" where
  "scan_alt_items en [] i path out = (out, False)"
| "scan_alt_items en (x # xs) i path out =
     (if MAX_OPTIONS_ISSUES < length out then (out, True)
      else scan_alt_items en xs (i + 1) path
        (case x of
           JStr reference \<Rightarrow>
             (if starts_with reference [64] \<and> \<not> is_builtin en reference
              then out @ [bad_ref reference (item_path (path @ str ''.a'') i)] else out)
         | _ \<Rightarrow> out))"

fun scan_alt_keys :: "firewall_engine \<Rightarrow> fields \<Rightarrow> rstr list \<Rightarrow> rstr \<Rightarrow> issue list \<Rightarrow> issue list" where
  "scan_alt_keys en m [] path out = out"
| "scan_alt_keys en m (k # ks) path out = (case obj_get m k of
      Some (JStr reference) \<Rightarrow>
        scan_alt_keys en m ks path
          (if starts_with reference [64] \<and> \<not> is_builtin en reference
           then out @ [bad_ref reference (field_path path k)] else out)
    | Some (JArr items) \<Rightarrow>
        if k = str ''a''
        then (let (out', returned) = scan_alt_items en items 0 path out
              in if returned then out' else scan_alt_keys en m ks path out')
        else scan_alt_keys en m ks path out
    | _ \<Rightarrow> scan_alt_keys en m ks path out)"

definition scan_alt_refs :: "firewall_engine \<Rightarrow> json \<Rightarrow> rstr \<Rightarrow> issue list \<Rightarrow> issue list" where
  "scan_alt_refs en alt path out = (case alt of
      JObj m \<Rightarrow> if MAX_OPTIONS_ISSUES < length out then out else scan_alt_keys en m ALT_FUNC_KEYS path out
    | _ \<Rightarrow> out)"

definition alts_of :: "json option \<Rightarrow> json list" where
  "alts_of st = (case st of
      Some (JArr alts) \<Rightarrow> alts
    | Some (JObj wrapper) \<Rightarrow>
        (case obj_get wrapper (str ''alts'') of Some (JArr alts) \<Rightarrow> alts | _ \<Rightarrow> [])
    | _ \<Rightarrow> [])"

section \<open>The firewall\<close>

fun scan_alts :: "firewall_engine \<Rightarrow> json list \<Rightarrow> nat \<Rightarrow> rstr \<Rightarrow> issue list \<Rightarrow> issue list" where
  "scan_alts en [] i path out = out"
| "scan_alts en (alt # alts) i path out =
     scan_alts en alts (i + 1) path (scan_alt_refs en alt (item_path path i) out)"

definition scan_rule :: "firewall_engine \<Rightarrow> rstr \<Rightarrow> fields \<Rightarrow> nat \<Rightarrow> issue list \<Rightarrow> nat \<times> issue list" where
  "scan_rule en name m count out =
     (let path = (\<lambda>st. str ''$.rule.'' @ name @ str ''.'' @ st);
          opens = alts_of (obj_get m (str ''open'')); closes = alts_of (obj_get m (str ''close''));
          out1 = scan_alts en opens 0 (path (str ''open'')) out;
          out2 = scan_alts en closes 0 (path (str ''close'')) out1
      in (count + length opens + length closes, out2))"

text \<open>The loop over the rules, left once the alternates are too many.\<close>

fun scan_rules :: "firewall_engine \<Rightarrow> (rstr \<times> json) list \<Rightarrow> nat \<Rightarrow> issue list \<Rightarrow> nat \<times> issue list" where
  "scan_rules en [] count out = (count, out)"
| "scan_rules en ((name, rule) # rules) count out = (case rule of
      JObj m \<Rightarrow>
        (let (count', out') = scan_rule en name m count out
         in if MAX_GRAMMAR_ALTS < count' then (count', out') else scan_rules en rules count' out')
    | _ \<Rightarrow> scan_rules en rules count out)"

definition rules_of :: "json option \<Rightarrow> (rstr \<times> json) list option" where
  "rules_of v = (case v of
      Some (JObj rules) \<Rightarrow> Some rules
    | Some (JArr rules) \<Rightarrow> Some (map (\<lambda>(i, x). (show_nat i, x)) (List.enumerate 0 rules))
    | _ \<Rightarrow> None)"

definition ref_issues :: "fields \<Rightarrow> issue list" where
  "ref_issues gs = (if contains_key gs (str ''ref'')
     then [mk_issue (str ''$.ref'') ([39] @ str ''ref'' @ [39] @ str '' is not part of the serialized grammar form: live functions are not JSON. Name $-suffixed engine builtins instead.'')]
     else [])"

definition plugin_issues :: "fields \<Rightarrow> issue list" where
  "plugin_issues gs = (case obj_get gs (str ''options'') of
      Some (JObj opts) \<Rightarrow>
        if contains_key opts (str ''plugins'')
        then [mk_issue (str ''$.options.plugins'') (str ''plugins cannot be supplied through a serialized grammar: a plugin is live code, and this lane accepts only data'')]
        else []
    | _ \<Rightarrow> [])"

definition schema_issues :: "firewall_engine \<Rightarrow> (number \<Rightarrow> rstr) \<Rightarrow> fields \<Rightarrow> issue list" where
  "schema_issues en jn gs = (case obj_get gs (str ''v'') of
      Some (JNum v) \<Rightarrow>
        if number_gt v (fe_schema en)
        then [mk_issue (str ''$.v'') (str ''grammar declares builtin schema version '' @ jn v @
               str ''; this engine supports up to '' @ show_nat (fe_schema en))]
        else []
    | _ \<Rightarrow> [])"

definition scan_options :: "firewall_engine \<Rightarrow> fields \<Rightarrow> issue list \<Rightarrow> issue list" where
  "scan_options en gs out = (case obj_get gs (str ''options'') of
      Some (JObj m) \<Rightarrow> scan_options_refs en (JObj m) (str ''$.options'') out 0
    | Some (JArr xs) \<Rightarrow> scan_options_refs en (JArr xs) (str ''$.options'') out 0
    | _ \<Rightarrow> out)"

definition rule_count_issues :: "nat \<Rightarrow> issue list" where
  "rule_count_issues n = (if MAX_GRAMMAR_RULES < n
     then [mk_issue (str ''$.rule'') (str ''grammar defines '' @ show_nat n @ str '' rules, more than '' @
            show_nat MAX_GRAMMAR_RULES)]
     else [])"

definition alt_count_issues :: "nat \<Rightarrow> issue list" where
  "alt_count_issues n = (if MAX_GRAMMAR_ALTS < n
     then [mk_issue (str ''$.rule'') (str ''grammar defines more than '' @ show_nat MAX_GRAMMAR_ALTS @
            str '' alternates in total'')]
     else [])"

definition firewall_spec :: "firewall_engine \<Rightarrow> (number \<Rightarrow> rstr) \<Rightarrow> json \<Rightarrow> issue list" where
  "firewall_spec en jn spec = (case spec of
      JObj gs \<Rightarrow>
        (let poison = scan_forbidden_keys spec (str ''$'') [] 0
         in if poison \<noteq> [] then poison
            else
              (let out = scan_options en gs (ref_issues gs @ plugin_issues gs @ schema_issues en jn gs)
               in case rules_of (obj_get gs (str ''rule'')) of
                    None \<Rightarrow> out
                  | Some rules \<Rightarrow>
                      (let (alt_count, out') = scan_rules en rules 0 (out @ rule_count_issues (length rules))
                       in out' @ alt_count_issues alt_count)))
    | _ \<Rightarrow> [mk_issue (str ''$'') (str ''grammar must be a JSON object (the serialized GrammarSpec form)'')])"

section \<open>What passes\<close>

text \<open>
  The specification, over the nodes of the document: nothing nested past the limit, no
  forbidden key anywhere, no live code, a schema the engine knows, bounded rules and
  alternates, and every function reference one of the engine's builtins.
\<close>

definition keys_ok :: "json \<Rightarrow> bool" where
  "keys_ok v \<longleftrightarrow> (case v of JObj m \<Rightarrow> fst ` set m \<inter> set FORBIDDEN_KEYS = {} | _ \<Rightarrow> True)"

definition tree_ok :: "json \<Rightarrow> bool" where
  "tree_ok v \<longleftrightarrow> (\<forall>n w. json_at v n w \<longrightarrow> is_container w \<longrightarrow> n \<le> MAX_GRAMMAR_DEPTH \<and> keys_ok w)"

definition alt_refs :: "json \<Rightarrow> rstr set" where
  "alt_refs alt = (case alt of
      JObj m \<Rightarrow> {r. \<exists>k\<in>set ALT_FUNC_KEYS. obj_get m k = Some (JStr r)} \<union>
        {r. \<exists>items. obj_get m (str ''a'') = Some (JArr items) \<and> JStr r \<in> set items}
    | _ \<Rightarrow> {})"

definition rule_alts :: "json \<Rightarrow> json list" where
  "rule_alts rule = (case rule of
      JObj m \<Rightarrow> alts_of (obj_get m (str ''open'')) @ alts_of (obj_get m (str ''close''))
    | _ \<Rightarrow> [])"

definition spec_rules :: "fields \<Rightarrow> json list" where
  "spec_rules gs = (case obj_get gs (str ''rule'') of
      Some (JObj rules) \<Rightarrow> map snd rules | Some (JArr rules) \<Rightarrow> rules | _ \<Rightarrow> [])"

definition refs_builtin :: "firewall_engine \<Rightarrow> json \<Rightarrow> bool" where
  "refs_builtin en alt \<longleftrightarrow> (\<forall>r\<in>alt_refs alt. starts_with r [64] \<longrightarrow> is_builtin en r)"

definition spec_ok :: "firewall_engine \<Rightarrow> json \<Rightarrow> bool" where
  "spec_ok en spec \<longleftrightarrow> (\<exists>gs. spec = JObj gs \<and> tree_ok spec \<and> \<not> contains_key gs (str ''ref'') \<and>
     (\<forall>opts. obj_get gs (str ''options'') = Some (JObj opts) \<longrightarrow> \<not> contains_key opts (str ''plugins'')) \<and>
     (\<forall>v. obj_get gs (str ''v'') = Some (JNum v) \<longrightarrow> \<not> number_gt v (fe_schema en)) \<and>
     (\<forall>opts n txt. obj_get gs (str ''options'') = Some opts \<longrightarrow> is_container opts \<longrightarrow>
        json_at opts n (JStr txt) \<longrightarrow> options_string_ok en txt) \<and>
     length (spec_rules gs) \<le> MAX_GRAMMAR_RULES \<and>
     length (concat (map rule_alts (spec_rules gs))) \<le> MAX_GRAMMAR_ALTS \<and>
     (\<forall>alt\<in>set (concat (map rule_alts (spec_rules gs))). refs_builtin en alt))"

section \<open>The scans only add findings\<close>

lemma scan_forbidden_grows:
  "length out \<le> length (scan_forbidden_keys v path out depth)"
  "length out \<le> length (scan_forbidden_items items i path out depth)"
  "length out \<le> length (scan_forbidden_fields m path out depth)"
  by (induction v path out depth and items i path out depth and m path out depth
      rule: scan_forbidden_keys_scan_forbidden_items_scan_forbidden_fields.induct) auto

lemma scan_options_grows:
  "length out \<le> length (scan_options_refs en v path out depth)"
  "length out \<le> length (scan_options_items en items i path out depth)"
  "length out \<le> length (scan_options_fields en m path out depth)"
  by (induction en v path out depth and en items i path out depth and en m path out depth
      rule: scan_options_refs_scan_options_items_scan_options_fields.induct)
    (auto split: json.splits)

declare scan_options_refs.simps [simp del]

lemma scan_alt_items_grows: "length out \<le> length (fst (scan_alt_items en items i path out))"
  by (induction en items i path out rule: scan_alt_items.induct) (auto split: json.splits)

lemma scan_alt_keys_grows: "length out \<le> length (scan_alt_keys en m ks path out)"
proof (induction ks arbitrary: out)
  case (Cons k ks)
  have item: "length out \<le> length (scan_alt_keys en m ks path (out @ [x]))" for x
    using Cons.IH [of "out @ [x]"] by simp
  show ?case
    using Cons.IH scan_alt_items_grows [of out en _ 0 path] item
    by (auto simp: Let_def case_prod_unfold split: option.splits json.splits intro: le_trans)
qed simp

lemma scan_alt_refs_grows: "length out \<le> length (scan_alt_refs en alt path out)"
  by (auto simp: scan_alt_refs_def scan_alt_keys_grows split: json.splits)

lemma scan_alts_grows: "length out \<le> length (scan_alts en alts i path out)"
  by (induction en alts i path out rule: scan_alts.induct) (auto intro: le_trans scan_alt_refs_grows)

lemma scan_rule_grows: "length out \<le> length (snd (scan_rule en name m count out))"
  by (auto simp: scan_rule_def Let_def intro: le_trans scan_alts_grows)

lemma scan_rules_grows: "length out \<le> length (snd (scan_rules en rules count out))"
proof (induction rules arbitrary: count out)
  case (Cons r rules)
  obtain name rule where r: "r = (name, rule)" by (cases r)
  show ?case
    using Cons.IH scan_rule_grows [of out en name _ count]
    by (auto simp: r Let_def case_prod_unfold split: json.splits intro: le_trans)
qed simp

section \<open>Forbidden keys and depth, exactly\<close>

text \<open>The tree below a node at a given depth.\<close>

definition subtree_ok :: "nat \<Rightarrow> json \<Rightarrow> bool" where
  "subtree_ok d v \<longleftrightarrow> (\<forall>n w. json_at v n w \<longrightarrow> is_container w \<longrightarrow> d + n \<le> MAX_GRAMMAR_DEPTH \<and> keys_ok w)"

lemma json_at_leaf: "\<not> is_container v \<Longrightarrow> json_at v n w \<longleftrightarrow> n = 0 \<and> w = v"
  by (cases n; cases v)
    (auto simp: is_container_def json_child_leaf elim!: json_at_SucE json_at_0E intro: json_at.here)

lemma json_at_0 [simp]: "json_at v 0 w \<longleftrightarrow> w = v"
  by (auto elim: json_at_0E intro: json_at.here)

lemma json_at_arr_Suc: "json_at (JArr xs) (Suc n) w \<longleftrightarrow> (\<exists>x\<in>set xs. json_at x n w)"
  by (auto elim!: json_at_SucE json_child_arrE intro: json_at.down json_child.elem)

lemma json_at_obj_Suc: "json_at (JObj m) (Suc n) w \<longleftrightarrow> (\<exists>k x. (k, x) \<in> set m \<and> json_at x n w)"
  by (auto elim!: json_at_SucE json_child_objE intro: json_at.down json_child.field)

lemma all_nat_split: "(\<forall>n. P n) \<longleftrightarrow> P 0 \<and> (\<forall>n. P (Suc n))"
  by (metis not0_implies_Suc)

lemma subtree_ok_leaf: "\<not> is_container v \<Longrightarrow> subtree_ok d v"
  by (auto simp: subtree_ok_def json_at_leaf)

lemma subtree_ok_arr: "subtree_ok d (JArr xs) \<longleftrightarrow> d \<le> MAX_GRAMMAR_DEPTH \<and> (\<forall>x\<in>set xs. subtree_ok (Suc d) x)"
proof -
  have "is_container (JArr xs) \<and> keys_ok (JArr xs)" by (simp add: is_container_def keys_ok_def)
  then show ?thesis
    unfolding subtree_ok_def by (subst all_nat_split) (auto simp: json_at_arr_Suc)
qed

lemma subtree_ok_obj: "subtree_ok d (JObj m) \<longleftrightarrow> d \<le> MAX_GRAMMAR_DEPTH \<and>
    (\<forall>(k, x)\<in>set m. k \<notin> set FORBIDDEN_KEYS \<and> subtree_ok (Suc d) x)"
proof -
  have c: "is_container (JObj m)" and k: "keys_ok (JObj m) \<longleftrightarrow> (\<forall>(k, x)\<in>set m. k \<notin> set FORBIDDEN_KEYS)"
    by (auto simp: is_container_def keys_ok_def)
  have "subtree_ok d (JObj m) \<longleftrightarrow> d \<le> MAX_GRAMMAR_DEPTH \<and> keys_ok (JObj m) \<and> (\<forall>(k, x)\<in>set m. subtree_ok (Suc d) x)"
    unfolding subtree_ok_def using c by (subst all_nat_split) (auto simp: json_at_obj_Suc)
  then show ?thesis unfolding k by blast
qed

text \<open>A scan finds nothing exactly when it leaves the findings as long as they were.\<close>

lemma scan_forbidden_exact:
  "length (scan_forbidden_keys v path out depth) = length out \<longleftrightarrow> subtree_ok depth v"
  "length (scan_forbidden_items items i path out depth) = length out \<longleftrightarrow> (\<forall>x\<in>set items. subtree_ok (Suc depth) x)"
  "length (scan_forbidden_fields m path out depth) = length out \<longleftrightarrow>
     (\<forall>(k, x)\<in>set m. k \<notin> set FORBIDDEN_KEYS \<and> subtree_ok (Suc depth) x)"
proof (induction v path out depth and items i path out depth and m path out depth
    rule: scan_forbidden_keys_scan_forbidden_items_scan_forbidden_fields.induct)
  case (5 x xs i path out depth)
  then show ?case
    using scan_forbidden_grows(1) [of out x "item_path path i" "Suc depth"]
      scan_forbidden_grows(2) [of "scan_forbidden_keys x (item_path path i) out (Suc depth)" xs "Suc i" path depth]
    by auto
next
  case (7 k x m path out depth)
  show ?case
  proof (cases "k \<in> set FORBIDDEN_KEYS")
    case True
    then show ?thesis
      using scan_forbidden_grows(3) [of "out @ [mk_issue (field_path path k) (forbidden_key k)]" m path depth] by auto
  next
    case False
    then show ?thesis
      using 7(2) [OF False] 7(3) [OF False]
        scan_forbidden_grows(1) [of out x "field_path path k" "Suc depth"]
        scan_forbidden_grows(3) [of "scan_forbidden_keys x (field_path path k) out (Suc depth)" m path depth]
      by auto
  qed
qed (auto simp: subtree_ok_arr subtree_ok_obj intro: subtree_ok_leaf [unfolded is_container_def] split: if_splits)

lemma grows_Nil: "length out \<le> length out' \<Longrightarrow> out' = [] \<Longrightarrow> out = []"
  by auto

section \<open>Option strings, exactly\<close>

text \<open>
  The options scan gives up past its own depth and past a hundred findings; under a tree that
  passed the first scan the depth is never reached, and a scan that starts without findings
  gives up only after one.
\<close>

definition strings_ok :: "firewall_engine \<Rightarrow> nat \<Rightarrow> json \<Rightarrow> bool" where
  "strings_ok en d v \<longleftrightarrow> (\<forall>n txt. json_at v n (JStr txt) \<longrightarrow> d + n \<le> MAX_GRAMMAR_DEPTH \<longrightarrow> options_string_ok en txt)"

lemma strings_ok_deep: "MAX_GRAMMAR_DEPTH < d \<Longrightarrow> strings_ok en d v"
  by (simp add: strings_ok_def)

lemma strings_ok_str: "strings_ok en d (JStr txt) \<longleftrightarrow> (d \<le> MAX_GRAMMAR_DEPTH \<longrightarrow> options_string_ok en txt)"
  by (auto simp: strings_ok_def json_at_leaf is_container_def)

lemma strings_ok_leaf: "\<not> is_container v \<Longrightarrow> (\<And>txt. v \<noteq> JStr txt) \<Longrightarrow> strings_ok en d v"
  by (auto simp: strings_ok_def json_at_leaf)

lemma strings_ok_arr: "strings_ok en d (JArr xs) \<longleftrightarrow> (\<forall>x\<in>set xs. strings_ok en (Suc d) x)"
  unfolding strings_ok_def by (subst all_nat_split) (auto simp: json_at_arr_Suc)

lemma strings_ok_obj: "strings_ok en d (JObj m) \<longleftrightarrow> (\<forall>(k, x)\<in>set m. strings_ok en (Suc d) x)"
  unfolding strings_ok_def by (subst all_nat_split) (auto simp: json_at_obj_Suc)

lemma scan_options_exact:
  "length out \<le> MAX_OPTIONS_ISSUES \<Longrightarrow>
     length (scan_options_refs en v path out depth) = length out \<longleftrightarrow> strings_ok en depth v"
  "length out \<le> MAX_OPTIONS_ISSUES \<Longrightarrow>
     length (scan_options_items en items i path out depth) = length out \<longleftrightarrow> (\<forall>x\<in>set items. strings_ok en (Suc depth) x)"
  "length out \<le> MAX_OPTIONS_ISSUES \<Longrightarrow>
     length (scan_options_fields en m path out depth) = length out \<longleftrightarrow> (\<forall>(k, x)\<in>set m. strings_ok en (Suc depth) x)"
proof (induction en v path out depth and en items i path out depth and en m path out depth
    rule: scan_options_refs_scan_options_items_scan_options_fields.induct)
  case (1 en v path out depth)
  show ?case
  proof (cases "MAX_GRAMMAR_DEPTH < depth")
    case True
    then show ?thesis by (simp add: scan_options_refs.simps strings_ok_deep)
  next
    case False
    then show ?thesis
      using 1 strings_ok_leaf [of v en depth]
      by (cases v) (auto simp: scan_options_refs.simps strings_ok_str strings_ok_arr strings_ok_obj is_container_def)
  qed
next
  case (3 en x xs i path out depth)
  then show ?case
    using scan_options_grows(1) [of out en x "item_path path i" "Suc depth"]
      scan_options_grows(2) [of "scan_options_refs en x (item_path path i) out (Suc depth)" en xs "Suc i" path depth]
    by auto
next
  case (5 en k x m path out depth)
  then show ?case
    using scan_options_grows(1) [of out en x "field_path path k" "Suc depth"]
      scan_options_grows(3) [of "scan_options_refs en x (field_path path k) out (Suc depth)" en m path depth]
    by auto
qed simp_all

section \<open>Alternates, exactly\<close>

definition ref_ok :: "firewall_engine \<Rightarrow> rstr \<Rightarrow> bool" where
  "ref_ok en r \<longleftrightarrow> (starts_with r [64] \<longrightarrow> is_builtin en r)"

lemma scan_alt_items_found:
  "length out < length (fst (scan_alt_items en items i path (out @ [e])))"
  using scan_alt_items_grows [of "out @ [e]" en items i path] by simp

lemma scan_alt_keys_found: "length out < length (scan_alt_keys en m ks path (out @ [e]))"
  using scan_alt_keys_grows [of "out @ [e]" en m ks path] by simp

lemma scan_alt_items_clean:
  "length out \<le> MAX_OPTIONS_ISSUES \<Longrightarrow> \<forall>r. JStr r \<in> set items \<longrightarrow> ref_ok en r \<Longrightarrow>
    scan_alt_items en items i path out = (out, False)"
  by (induction items arbitrary: i) (auto simp: ref_ok_def split: json.splits)

lemma scan_alt_items_dirty:
  "length out \<le> MAX_OPTIONS_ISSUES \<Longrightarrow> JStr r \<in> set items \<Longrightarrow> \<not> ref_ok en r \<Longrightarrow>
    length out < length (fst (scan_alt_items en items i path out))"
  by (induction items arbitrary: i) (auto simp: ref_ok_def scan_alt_items_found split: json.splits)

definition key_ok :: "firewall_engine \<Rightarrow> fields \<Rightarrow> rstr \<Rightarrow> bool" where
  "key_ok en m k \<longleftrightarrow> (\<forall>r. obj_get m k = Some (JStr r) \<longrightarrow> ref_ok en r) \<and>
     (k = str ''a'' \<longrightarrow> (\<forall>items r. obj_get m k = Some (JArr items) \<longrightarrow> JStr r \<in> set items \<longrightarrow> ref_ok en r))"

lemma scan_alt_keys_clean:
  "length out \<le> MAX_OPTIONS_ISSUES \<Longrightarrow> \<forall>k\<in>set ks. key_ok en m k \<Longrightarrow> scan_alt_keys en m ks path out = out"
  by (induction ks) (auto simp: key_ok_def ref_ok_def scan_alt_items_clean split: option.splits json.splits)

lemma scan_alt_keys_dirty:
  "length out \<le> MAX_OPTIONS_ISSUES \<Longrightarrow> k \<in> set ks \<Longrightarrow> \<not> key_ok en m k \<Longrightarrow>
    length out < length (scan_alt_keys en m ks path out)"
proof (induction ks)
  case (Cons k' ks)
  show ?case
  proof (cases "key_ok en m k'")
    case True
    then have "k \<in> set ks" using Cons.prems by auto
    then show ?thesis
      using Cons True scan_alt_items_clean [of out _ en 0 path]
      by (auto simp: key_ok_def ref_ok_def split: option.splits json.splits)
  next
    case False
    then consider r where "obj_get m k' = Some (JStr r)" "\<not> ref_ok en r"
      | items r where "k' = str ''a''" "obj_get m k' = Some (JArr items)" "JStr r \<in> set items" "\<not> ref_ok en r"
      by (auto simp: key_ok_def)
    then show ?thesis
    proof cases
      case 1
      then show ?thesis by (simp add: ref_ok_def scan_alt_keys_found)
    next
      case 2
      have "length out < length (fst (scan_alt_items en items 0 path out))"
        using Cons.prems(1) 2 by (simp add: scan_alt_items_dirty)
      with 2 show ?thesis
        using scan_alt_keys_grows [of "fst (scan_alt_items en items 0 path out)" en m ks path]
        by (auto simp: Let_def case_prod_unfold)
    qed
  qed
qed simp

lemma refs_builtin_keys: "refs_builtin en (JObj m) \<longleftrightarrow> (\<forall>k\<in>set ALT_FUNC_KEYS. key_ok en m k)"
proof -
  have "str ''a'' \<in> set ALT_FUNC_KEYS" by (simp add: ALT_FUNC_KEYS_def)
  then show ?thesis by (auto simp: refs_builtin_def alt_refs_def key_ok_def ref_ok_def)
qed

lemma scan_alt_refs_exact:
  "length out \<le> MAX_OPTIONS_ISSUES \<Longrightarrow> length (scan_alt_refs en alt path out) = length out \<longleftrightarrow> refs_builtin en alt"
proof (cases alt)
  case (JObj m)
  assume "length out \<le> MAX_OPTIONS_ISSUES"
  then show ?thesis
    using scan_alt_keys_clean [of out ALT_FUNC_KEYS en m path] scan_alt_keys_dirty [of out _ ALT_FUNC_KEYS en m path]
    by (fastforce simp: JObj scan_alt_refs_def refs_builtin_keys)
qed (simp_all add: scan_alt_refs_def refs_builtin_def alt_refs_def)

lemma scan_alts_exact:
  "length out \<le> MAX_OPTIONS_ISSUES \<Longrightarrow>
    length (scan_alts en alts i path out) = length out \<longleftrightarrow> (\<forall>alt\<in>set alts. refs_builtin en alt)"
proof (induction alts arbitrary: i out)
  case (Cons alt alts)
  then show ?case
    using scan_alt_refs_exact [of out en alt "item_path path i"] scan_alt_refs_grows [of out en alt "item_path path i"]
      scan_alts_grows [of "scan_alt_refs en alt (item_path path i) out" en alts "Suc i" path]
      Cons.IH [of "scan_alt_refs en alt (item_path path i) out" "Suc i"]
    by (cases "length (scan_alt_refs en alt (item_path path i) out) = length out") auto
qed simp

lemma scan_rule_exact:
  assumes "length out \<le> MAX_OPTIONS_ISSUES"
  shows "fst (scan_rule en name m count out) = count + length (rule_alts (JObj m))"
    and "length (snd (scan_rule en name m count out)) = length out \<longleftrightarrow> (\<forall>alt\<in>set (rule_alts (JObj m)). refs_builtin en alt)"
proof -
  let ?path = "\<lambda>st. str ''$.rule.'' @ name @ str ''.'' @ st"
  let ?opens = "alts_of (obj_get m (str ''open''))" and ?closes = "alts_of (obj_get m (str ''close''))"
  let ?mid = "scan_alts en ?opens 0 (?path (str ''open'')) out"
  show "fst (scan_rule en name m count out) = count + length (rule_alts (JObj m))"
    by (simp add: scan_rule_def rule_alts_def Let_def)
  show "length (snd (scan_rule en name m count out)) = length out \<longleftrightarrow> (\<forall>alt\<in>set (rule_alts (JObj m)). refs_builtin en alt)"
    using scan_alts_exact [OF assms, of en ?opens 0 "?path (str ''open'')"] scan_alts_grows [of out en ?opens 0 "?path (str ''open'')"]
      scan_alts_exact [of ?mid en ?closes 0 "?path (str ''close'')"] scan_alts_grows [of ?mid en ?closes 0 "?path (str ''close'')"] assms
    by (cases "length ?mid = length out") (auto simp: scan_rule_def rule_alts_def Let_def)
qed

lemma scan_rules_exact:
  "length out \<le> MAX_OPTIONS_ISSUES \<Longrightarrow> count \<le> MAX_GRAMMAR_ALTS \<Longrightarrow>
    (length (snd (scan_rules en rules count out)) = length out \<and> fst (scan_rules en rules count out) \<le> MAX_GRAMMAR_ALTS) \<longleftrightarrow>
    (count + length (concat (map (\<lambda>r. rule_alts (snd r)) rules)) \<le> MAX_GRAMMAR_ALTS \<and>
     (\<forall>alt\<in>set (concat (map (\<lambda>r. rule_alts (snd r)) rules)). refs_builtin en alt))"
proof (induction rules arbitrary: count out)
  case (Cons r rules)
  obtain name rule where r: "r = (name, rule)" by (cases r)
  show ?case
  proof (cases rule)
    case (JObj m)
    let ?c = "fst (scan_rule en name m count out)" and ?o = "snd (scan_rule en name m count out)"
    note exact = scan_rule_exact [OF Cons.prems(1), of en name m count]
    show ?thesis
    proof (cases "MAX_GRAMMAR_ALTS < ?c")
      case True
      then show ?thesis using exact(1) by (simp add: r JObj case_prod_unfold Let_def)
    next
      case False
      have "length ?o = length out \<or> length out < length ?o"
        using scan_rule_grows [of out en name m count] by linarith
      then show ?thesis
      proof
        assume "length ?o = length out"
        then show ?thesis
          using Cons.IH [of ?o ?c] Cons.prems(1) False exact
          by (auto simp: r JObj case_prod_unfold Let_def)
      next
        assume longer: "length out < length ?o"
        then have "length (snd (scan_rules en rules ?c ?o)) \<noteq> length out"
          using scan_rules_grows [of ?o en rules ?c] by linarith
        with longer show ?thesis
          using False exact(2) by (auto simp: r JObj case_prod_unfold Let_def)
      qed
    qed
  qed (use Cons in \<open>simp_all add: r rule_alts_def\<close>)
qed simp

section \<open>The firewall, exactly\<close>

lemma rules_of_spec_rules:
  "rules_of (obj_get gs (str ''rule'')) = Some rules \<Longrightarrow> map snd rules = spec_rules gs"
  "rules_of (obj_get gs (str ''rule'')) = None \<Longrightarrow> spec_rules gs = []"
  by (auto simp: rules_of_def spec_rules_def comp_def case_prod_unfold split: option.splits json.splits)

lemma json_at_deeper: "json_at u n w \<Longrightarrow> json_child v u \<Longrightarrow> json_at v (Suc n) w"
  by (rule json_at.down)

lemma json_at_snoc: "json_at v n u \<Longrightarrow> json_child u w \<Longrightarrow> json_at v (Suc n) w"
  by (induction rule: json_at.induct) (auto intro: json_at.intros)

lemma json_at_parent: "json_at v (Suc n) w \<Longrightarrow> \<exists>u. json_at v n u \<and> json_child u w"
proof (induction n arbitrary: v)
  case (Suc n)
  then obtain u where "json_child v u" "json_at u (Suc n) w" by (auto elim: json_at_SucE)
  with Suc.IH show ?case by (meson json_at.down)
qed (auto elim!: json_at_SucE)

lemma child_container: "json_child u w \<Longrightarrow> is_container u"
  by (auto simp: is_container_def elim: json_child.cases)

text \<open>Under a tree that passed, the depth limit of the options scan is never met.\<close>

lemma options_depth:
  assumes "tree_ok (JObj gs)" "obj_get gs k = Some opts" "json_at opts n w"
  shows "n \<le> MAX_GRAMMAR_DEPTH"
proof (cases n)
  case (Suc p)
  then obtain u where u: "json_at opts p u" "json_child u w" using assms(3) json_at_parent by blast
  have "(k, opts) \<in> set gs" using assms(2) by (simp add: obj_get_def map_of_SomeD)
  then have "json_at (JObj gs) (Suc p) u" using u(1) by (meson json_at.down json_child.field)
  then show ?thesis using assms(1) u(2) child_container Suc unfolding tree_ok_def by blast
qed simp

lemma strings_ok_options:
  assumes "tree_ok (JObj gs)" "obj_get gs k = Some opts"
  shows "strings_ok en 0 opts \<longleftrightarrow> (\<forall>n txt. json_at opts n (JStr txt) \<longrightarrow> options_string_ok en txt)"
  using options_depth [OF assms] by (auto simp: strings_ok_def)

lemma scan_options_exact_nil:
  assumes "tree_ok (JObj gs)"
  shows "length (scan_options en gs []) = 0 \<longleftrightarrow>
    (\<forall>opts n txt. obj_get gs (str ''options'') = Some opts \<longrightarrow> is_container opts \<longrightarrow>
       json_at opts n (JStr txt) \<longrightarrow> options_string_ok en txt)"
proof (cases "obj_get gs (str ''options'')")
  case (Some opts)
  show ?thesis
    using scan_options_exact(1) [of "[]" en opts "str ''$.options''" 0] strings_ok_options [OF assms Some, of en]
    by (cases opts) (auto simp: scan_options_def Some is_container_def)
qed (simp add: scan_options_def)

lemma scan_options_grows_top: "length out \<le> length (scan_options en gs out)"
  by (auto simp: scan_options_def scan_options_grows split: option.splits json.splits)

definition rules_ok :: "firewall_engine \<Rightarrow> fields \<Rightarrow> bool" where
  "rules_ok en gs \<longleftrightarrow> (case rules_of (obj_get gs (str ''rule'')) of None \<Rightarrow> True
      | Some rules \<Rightarrow> rule_count_issues (length rules) = [] \<and> snd (scan_rules en rules 0 []) = [] \<and>
          alt_count_issues (fst (scan_rules en rules 0 [])) = [])"

lemma firewall_obj:
  "firewall_spec en jn (JObj gs) = [] \<longleftrightarrow> scan_forbidden_keys (JObj gs) (str ''$'') [] 0 = [] \<and>
     ref_issues gs = [] \<and> plugin_issues gs = [] \<and> schema_issues en jn gs = [] \<and> scan_options en gs [] = [] \<and>
     rules_ok en gs"
proof (cases "scan_forbidden_keys (JObj gs) (str ''$'') [] 0 = []")
  case True
  define out where "out = scan_options en gs (ref_issues gs @ plugin_issues gs @ schema_issues en jn gs)"
  have opts: "out = [] \<longleftrightarrow> ref_issues gs = [] \<and> plugin_issues gs = [] \<and> schema_issues en jn gs = [] \<and>
      scan_options en gs [] = []"
    using scan_options_grows_top [of "ref_issues gs @ plugin_issues gs @ schema_issues en jn gs" en gs]
    unfolding out_def by auto
  have unf: "firewall_spec en jn (JObj gs) = (case rules_of (obj_get gs (str ''rule'')) of
      None \<Rightarrow> out
    | Some rules \<Rightarrow> snd (scan_rules en rules 0 (out @ rule_count_issues (length rules))) @
        alt_count_issues (fst (scan_rules en rules 0 (out @ rule_count_issues (length rules)))))"
    unfolding firewall_spec_def json.case Let_def out_def [symmetric] case_prod_unfold using True by simp
  show ?thesis
  proof (cases "rules_of (obj_get gs (str ''rule''))")
    case None
    then show ?thesis unfolding unf rules_ok_def None option.case opts using True by blast
  next
    case (Some rules)
    have "snd (scan_rules en rules 0 o') = [] \<Longrightarrow> o' = []" for o'
      using scan_rules_grows [of o' en rules 0] by auto
    then have "firewall_spec en jn (JObj gs) = [] \<longleftrightarrow> out = [] \<and> rule_count_issues (length rules) = [] \<and>
        snd (scan_rules en rules 0 []) = [] \<and> alt_count_issues (fst (scan_rules en rules 0 [])) = []"
      unfolding unf Some option.case append_is_Nil_conv by (metis append_is_Nil_conv append.left_neutral)
    then show ?thesis unfolding opts rules_ok_def Some option.case using True by blast
  qed
qed (simp add: firewall_spec_def)

lemma rules_ok_exact:
  "rules_ok en gs \<longleftrightarrow> length (spec_rules gs) \<le> MAX_GRAMMAR_RULES \<and>
      length (concat (map rule_alts (spec_rules gs))) \<le> MAX_GRAMMAR_ALTS \<and>
      (\<forall>alt\<in>set (concat (map rule_alts (spec_rules gs))). refs_builtin en alt)"
proof (cases "rules_of (obj_get gs (str ''rule''))")
  case None
  then show ?thesis by (simp add: rules_ok_def rules_of_spec_rules(2))
next
  case (Some rules)
  have snds: "map (\<lambda>r. rule_alts (snd r)) rules = map rule_alts (spec_rules gs)" "length (spec_rules gs) = length rules"
    unfolding rules_of_spec_rules(1) [OF Some, symmetric] by simp_all
  have counts: "rule_count_issues n = [] \<longleftrightarrow> n \<le> MAX_GRAMMAR_RULES" "alt_count_issues n = [] \<longleftrightarrow> n \<le> MAX_GRAMMAR_ALTS" for n
    by (simp_all add: rule_count_issues_def alt_count_issues_def not_less)
  have "snd (scan_rules en rules 0 []) = [] \<and> fst (scan_rules en rules 0 []) \<le> MAX_GRAMMAR_ALTS \<longleftrightarrow>
      length (concat (map rule_alts (spec_rules gs))) \<le> MAX_GRAMMAR_ALTS \<and>
      (\<forall>alt\<in>set (concat (map rule_alts (spec_rules gs))). refs_builtin en alt)"
    using scan_rules_exact [of "[]" 0 en rules] unfolding snds by simp
  then show ?thesis
    unfolding rules_ok_def Some option.case snds counts by blast
qed

lemma spec_ok_obj:
  "spec_ok en (JObj gs) \<longleftrightarrow> tree_ok (JObj gs) \<and> \<not> contains_key gs (str ''ref'') \<and>
     (\<forall>opts. obj_get gs (str ''options'') = Some (JObj opts) \<longrightarrow> \<not> contains_key opts (str ''plugins'')) \<and>
     (\<forall>v. obj_get gs (str ''v'') = Some (JNum v) \<longrightarrow> \<not> number_gt v (fe_schema en)) \<and>
     (\<forall>opts n txt. obj_get gs (str ''options'') = Some opts \<longrightarrow> is_container opts \<longrightarrow>
        json_at opts n (JStr txt) \<longrightarrow> options_string_ok en txt) \<and>
     length (spec_rules gs) \<le> MAX_GRAMMAR_RULES \<and>
     length (concat (map rule_alts (spec_rules gs))) \<le> MAX_GRAMMAR_ALTS \<and>
     (\<forall>alt\<in>set (concat (map rule_alts (spec_rules gs))). refs_builtin en alt)"
  unfolding spec_ok_def json.inject by (simp only: simp_thms)

lemma firewall_exact_lemma: "firewall_spec en jn spec = [] \<longleftrightarrow> spec_ok en spec"
proof (cases spec)
  case (JObj gs)
  have tree: "scan_forbidden_keys (JObj gs) (str ''$'') [] 0 = [] \<longleftrightarrow> tree_ok (JObj gs)"
    using scan_forbidden_exact(1) [of "JObj gs" "str ''$''" "[]" 0]
    unfolding subtree_ok_def tree_ok_def list.size(3) length_0_conv add_0 .
  have refs: "ref_issues gs = [] \<longleftrightarrow> \<not> contains_key gs (str ''ref'')"
    by (simp add: ref_issues_def)
  have plugins: "plugin_issues gs = [] \<longleftrightarrow>
      (\<forall>opts. obj_get gs (str ''options'') = Some (JObj opts) \<longrightarrow> \<not> contains_key opts (str ''plugins''))"
    by (auto simp: plugin_issues_def split: option.splits json.splits)
  have schema: "schema_issues en jn gs = [] \<longleftrightarrow>
      (\<forall>v. obj_get gs (str ''v'') = Some (JNum v) \<longrightarrow> \<not> number_gt v (fe_schema en))"
    by (auto simp: schema_issues_def split: option.splits json.splits)
  show ?thesis
    unfolding JObj firewall_obj spec_ok_obj rules_ok_exact tree refs plugins schema
    using scan_options_exact_nil [of gs en] unfolding length_0_conv by blast
qed (simp_all add: firewall_spec_def spec_ok_def)

section \<open>The property\<close>

text \<open>
  C12: the firewall accepts exactly the documents that are data. It finds nothing if and only if
  the document is an object; no value of it is nested more than a hundred levels deep and no
  key anywhere is \<open>__proto__\<close>, \<open>constructor\<close> or \<open>prototype\<close>; it has no \<open>ref\<close> bag and no
  \<open>options.plugins\<close>; its schema version is one the engine knows; it has at most 5000 rules and
  10000 alternates; every options string shaped like a reference is a builtin (or \<open>@SKIP\<close>), and
  every \<open>@\<close>-string in an alternate's function position is one. The early exits of the scans
  hide no finding from that verdict.
\<close>
theorem firewall_exact: "firewall_spec en jn spec = [] \<longleftrightarrow> spec_ok en spec"
  by (rule firewall_exact_lemma)

end
