(* ===== verification/Loaders.thy ===== *)
theory Loaders
  imports Firewall Paths
begin

text \<open>
  Grammar loading (\<open>rs/src/loaders.rs\<close>, second half): dialects, path resolution inside the
  sandbox, capped reading, the options document, the bounds on repetition counts, the budgeted
  compile, and the loader that dispatches an entry to its lane.

  Parameters, gathered in the record \<open>loader_host\<close>: the engine (a bare instance, installing a
  grammar document), the JSON reader, the dialect compilers and how the compile thread ends, the
  filesystem, and Unicode lower-casing. A linked factory is the instance it builds.
\<close>

section \<open>Limits and dialects\<close>

definition MAX_GRAMMAR_BYTES :: nat where "MAX_GRAMMAR_BYTES = 1000000"
definition MAX_REPETITION_BOUND :: nat where "MAX_REPETITION_BOUND = 512"
definition MAX_REPETITION_TOTAL :: nat where "MAX_REPETITION_TOTAL = 2048"
definition DEFAULT_COMPILE_BUDGET :: nat where "DEFAULT_COMPILE_BUDGET = 10000"

datatype dialect = Abnf | Ebnf | Gbnf

definition dialect_all :: "dialect list" where
  "dialect_all = [Abnf, Ebnf, Gbnf]"

fun dialect_extension :: "dialect \<Rightarrow> rstr" where
  "dialect_extension Abnf = str ''.abnf''"
| "dialect_extension Ebnf = str ''.ebnf''"
| "dialect_extension Gbnf = str ''.gbnf''"

fun dialect_package :: "dialect \<Rightarrow> rstr" where
  "dialect_package Abnf = str ''@tabnas/abnf''"
| "dialect_package Ebnf = str ''@tabnas/ebnf''"
| "dialect_package Gbnf = str ''@tabnas/gbnf''"

fun joined :: "rstr \<Rightarrow> rstr list \<Rightarrow> rstr" where
  "joined sep [] = []"
| "joined sep [x] = x"
| "joined sep (x # xs) = x @ sep @ joined sep xs"

definition of_file :: "(rstr \<Rightarrow> rstr) \<Rightarrow> rstr \<Rightarrow> load_error + dialect" where
  "of_file lc file =
     (let ext = map_option (\<lambda>x. 46 # lc x) (path_extension file)
      in case Option.bind ext (\<lambda>x. find (\<lambda>d. dialect_extension d = x) dialect_all) of
           Some d \<Rightarrow> Inr d
         | None \<Rightarrow> Inl (load_error_new (str ''unknown grammar dialect '' @
             unwrap_or ext (str ''(no extension)'') @ str '' for '' @ file @ str '' '' @ [0x2014] @
             str '' expected one of: '' @ joined (str '', '') (map dialect_extension dialect_all))))"

section \<open>The host\<close>

record files =
  fl_cwd :: "rstr option"
  fl_canonicalize :: "rstr \<Rightarrow> rstr + rstr"
  fl_len :: "rstr \<Rightarrow> rstr + nat"
  fl_content :: "rstr \<Rightarrow> rstr + u8 list"

record json_error =
  je_syntax :: bool
  je_text :: rstr

datatype compile_end = CompileDone | CompileTimeout | CompilePanicked | CompileNoThread rstr

record 'g loader_host =
  lh_bare :: 'g
  lh_grammar :: "json \<Rightarrow> 'g \<Rightarrow> rstr + 'g"
  lh_schema :: nat
  lh_js_number :: "number \<Rightarrow> rstr"
  lh_lower :: "rstr \<Rightarrow> rstr"
  lh_parse :: "rstr \<Rightarrow> json_error + json"
  lh_files :: files
  lh_dialects :: bool
  lh_compile :: "dialect \<Rightarrow> rstr \<Rightarrow> rstr + json"
  lh_thread :: compile_end

definition engine_of :: "'g loader_host \<Rightarrow> firewall_engine" where
  "engine_of h = \<lparr>fe_installs = (\<lambda>doc. case lh_grammar h doc (lh_bare h) of Inr _ \<Rightarrow> True | Inl _ \<Rightarrow> False),
     fe_schema = lh_schema h\<rparr>"

definition firewall :: "'g loader_host \<Rightarrow> json \<Rightarrow> issue list" where
  "firewall h = firewall_spec (engine_of h) (lh_js_number h)"

definition install_grammar :: "'g loader_host \<Rightarrow> json \<Rightarrow> 'g \<Rightarrow> load_error + 'g" where
  "install_grammar h doc g = (case lh_grammar h doc g of Inl e \<Rightarrow> Inl (load_error_new e) | Inr g' \<Rightarrow> Inr g')"

section \<open>Path resolution\<close>

definition resolve_component :: "component list \<Rightarrow> component \<Rightarrow> component list" where
  "resolve_component out c = (case c of
      RootDir \<Rightarrow> [RootDir]
    | CurDir \<Rightarrow> out
    | ParentDir \<Rightarrow> unwrap_or (path_pop out) out
    | Normal s \<Rightarrow> out @ [Normal s])"

definition lexical_resolve :: "rstr \<Rightarrow> rstr \<Rightarrow> rstr" where
  "lexical_resolve base p =
     (let whole = (if has_root p then p else path_join base p)
      in path_text (foldl resolve_component [] (components whole)))"

definition absolute :: "files \<Rightarrow> rstr \<Rightarrow> rstr" where
  "absolute fs dir = (case fl_cwd fs of
      Some cwd \<Rightarrow> lexical_resolve cwd dir | None \<Rightarrow> lexical_resolve [] dir)"

definition resolve_sandboxed :: "files \<Rightarrow> rstr \<Rightarrow> rstr option \<Rightarrow> load_error + rstr" where
  "resolve_sandboxed fs file base_dir = (case base_dir of
      None \<Rightarrow> Inl (load_error_new (str ''grammar file paths need a base directory: '' @ file))
    | Some dir \<Rightarrow>
        (case fl_canonicalize fs (absolute fs dir) of
           Inl e \<Rightarrow> Inl (load_error_new (str ''workspace folder not readable: '' @ dir @ str '': '' @ e))
         | Inr base \<Rightarrow>
             (let abs = lexical_resolve base file
              in if \<not> path_starts_with abs base
                 then Inl (load_error_new (str ''grammar file escapes its workspace folder: '' @ file @
                        str '' (from '' @ base @ str '')''))
                 else case fl_canonicalize fs abs of
                     Inl e \<Rightarrow> Inl (load_error_new (str ''grammar file not readable: '' @ file @ str '': '' @ e))
                   | Inr real \<Rightarrow>
                       if \<not> path_starts_with real base
                       then Inl (load_error_new (str ''grammar file escapes its workspace folder (via symlink): '' @
                              file @ str '' -> '' @ real))
                       else Inr real)))"

definition watched_file :: "files \<Rightarrow> entry \<Rightarrow> rstr option" where
  "watched_file fs e =
     (if \<not> is_workspace e then None
      else Option.bind (en_dir e) (\<lambda>dir.
        case (case entry_load e of
            LoadGrammar file \<Rightarrow> Some file | LoadSpec (SpecFile file) \<Rightarrow> Some file | _ \<Rightarrow> None) of
          Some file \<Rightarrow> if file = [] then None else Some (lexical_resolve (absolute fs dir) file)
        | None \<Rightarrow> None))"

definition too_large :: "entry \<Rightarrow> nat \<Rightarrow> load_error" where
  "too_large e n = load_error_new (str ''grammar file for '' @ language_id e @ str '' is '' @
     show_nat n @ str '' bytes, larger than '' @ show_nat MAX_GRAMMAR_BYTES)"

definition read_capped :: "files \<Rightarrow> rstr \<Rightarrow> entry \<Rightarrow> load_error + rstr" where
  "read_capped fs file e =
     (let unreadable = (\<lambda>err. load_error_new (str ''grammar file not readable: '' @ file @ str '': '' @ err))
      in case fl_len fs file of
           Inl err \<Rightarrow> Inl (unreadable err)
         | Inr n \<Rightarrow>
             if MAX_GRAMMAR_BYTES < n then Inl (too_large e n)
             else case fl_content fs file of
                 Inl err \<Rightarrow> Inl (unreadable err)
               | Inr content \<Rightarrow>
                   (let bytes = take (MAX_GRAMMAR_BYTES + 1) content
                    in if MAX_GRAMMAR_BYTES < length bytes
                       then Inl (load_error_new (str ''grammar file for '' @ language_id e @
                              str '' grew past '' @ show_nat MAX_GRAMMAR_BYTES @ str '' bytes while it was read''))
                       else Inr (case decode_utf8 bytes of
                           Some txt \<Rightarrow> txt | None \<Rightarrow> from_utf8_lossy bytes)))"

section \<open>Options\<close>

definition object_or_empty :: "json option \<Rightarrow> fields" where
  "object_or_empty v = (case v of Some (JObj m) \<Rightarrow> m | _ \<Rightarrow> [])"

definition instance_options :: "entry \<Rightarrow> json" where
  "instance_options e =
     (let opts = object_or_empty (en_options e);
          parse = object_or_empty (obj_get opts (str ''parse''));
          entry_recover = object_or_empty (obj_get parse (str ''recover''));
          declares_groups = contains_key entry_recover (str ''syncGroups'');
          recover = obj_extend (obj_insert [] (str ''enabled'') (JBool True)) entry_recover;
          recover' = (if declares_groups then recover
             else case en_sync_groups e of
                 Some groups \<Rightarrow> obj_insert recover (str ''syncGroups'') (JArr (map JStr groups))
               | None \<Rightarrow> recover);
          parse' = obj_insert parse (str ''recover'') (JObj recover')
      in JObj (obj_insert opts (str ''parse'') (JObj parse')))"

definition apply_options :: "'g loader_host \<Rightarrow> 'g \<Rightarrow> json \<Rightarrow> entry \<Rightarrow> load_error + 'g" where
  "apply_options h g opts e =
     (let document = JObj [(str ''options'', opts)]; issues = firewall h document
      in if issues \<noteq> []
         then Inl (load_error_with_issues (str ''options for '' @ language_id e @ str '' failed the firewall'') issues)
         else install_grammar h document g)"

section \<open>Repetition counts\<close>

text \<open>
  The text's bytes, scanned left to right. \<open>skip_closed\<close> reads to the closer, an escape kept
  whole; \<open>skip_span\<close> is the span a byte opens, if it opens one, and gives what follows it.
\<close>

fun skip_closed :: "u8 \<Rightarrow> u8 list \<Rightarrow> u8 list" where
  "skip_closed close [] = []"
| "skip_closed close [b] = []"
| "skip_closed close (b # c # bs) =
     (if b = close then c # bs
      else if b = 92 then skip_closed close bs
      else skip_closed close (c # bs))"

definition value_span :: "u8 list \<Rightarrow> u8 list" where
  "value_span bs = (case bs of
      b # r \<Rightarrow> if b \<in> {98, 100, 120, 66, 68, 88}
              then dropWhile (\<lambda>x. is_ascii_hexdigit x \<or> x = 46 \<or> x = 45) r else bs
    | [] \<Rightarrow> [])"

definition skip_span :: "bool \<Rightarrow> u8 \<Rightarrow> u8 \<Rightarrow> u8 list \<Rightarrow> u8 list option" where
  "skip_span abnf comment c bs =
     (if c = comment then Some (dropWhile (\<lambda>b. b \<noteq> 10) bs)
      else if c = 34 \<or> c = 39 \<or> (abnf \<and> c = 60) \<or> (\<not> abnf \<and> c = 91)
      then Some (skip_closed (if c = 60 then 62 else if c = 91 then 93 else c) bs)
      else if abnf \<and> c = 37
      then Some (value_span bs)
      else None)"

text \<open>A run of digits as a \<open>u64\<close>, or \<open>u64::MAX\<close> past it.\<close>

definition run_count :: "u8 list \<Rightarrow> nat" where
  "run_count ds = unwrap_or (parse_u64 ds) (u64_limit - 1)"

definition starts_count :: "u8 \<Rightarrow> u8 \<Rightarrow> bool" where
  "starts_count previous c \<longleftrightarrow> is_ascii_digit c \<and>
     \<not> (is_ascii_alphanumeric previous \<or> previous = 95 \<or> previous = 45)"

definition u64_sat_add :: "nat \<Rightarrow> nat \<Rightarrow> nat" where
  "u64_sat_add a b = min (a + b) (u64_limit - 1)"

lemma skip_closed_length: "length (skip_closed close bs) \<le> length bs"
  by (induction close bs rule: skip_closed.induct) auto

lemma value_span_length: "length (value_span bs) \<le> length bs"
proof (cases bs)
  case (Cons b r)
  have "length (dropWhile P r) \<le> Suc (length r)" for P
    using length_dropWhile_le [of P r] by simp
  with Cons show ?thesis by (simp add: value_span_def)
qed (simp add: value_span_def)

lemma skip_span_length: "skip_span abnf comment c bs = Some rest \<Longrightarrow> length rest \<le> length bs"
  unfolding skip_span_def
  by (auto simp: skip_closed_length value_span_length length_dropWhile_le split: if_splits)

function rep_scan :: "bool \<Rightarrow> u8 \<Rightarrow> nat \<Rightarrow> u8 \<Rightarrow> u8 list \<Rightarrow> load_error + unit" where
  "rep_scan abnf comment acc previous [] = Inr ()"
| "rep_scan abnf comment acc previous (c # bs) =
     (case skip_span abnf comment c bs of
        Some rest \<Rightarrow> rep_scan abnf comment acc 32 rest
      | None \<Rightarrow>
          if starts_count previous c
          then
            (let count = run_count (takeWhile is_ascii_digit (c # bs))
             in if MAX_REPETITION_BOUND < count
                then Inl (load_error_new (str ''grammar repeats an element '' @ show_nat count @
                  str '' times, more than '' @ show_nat MAX_REPETITION_BOUND @
                  str '': refused before the compile, which unrolls a count into that many rules at a cost that grows with its square''))
                else
                  (let acc' = (if 1 < count then u64_sat_add acc count else acc)
                   in if MAX_REPETITION_TOTAL < acc'
                      then Inl (load_error_new (str ''grammar repeats elements more than '' @
                        show_nat MAX_REPETITION_TOTAL @
                        str '' times in all: refused before the compile, which unrolls every count into rules''))
                      else rep_scan abnf comment acc' 48 (dropWhile is_ascii_digit bs)))
          else rep_scan abnf comment acc c bs)"
  by pat_completeness auto
termination
proof (relation "measure (\<lambda>(abnf, comment, acc, previous, bs). length bs)")
qed (auto dest: skip_span_length simp: le_imp_less_Suc length_dropWhile_le)

definition check_repetition_bounds :: "dialect \<Rightarrow> rstr \<Rightarrow> load_error + unit" where
  "check_repetition_bounds d src = (case d of
      Abnf \<Rightarrow> rep_scan True 59 0 32 (encode_utf8 src)
    | Gbnf \<Rightarrow> rep_scan False 35 0 32 (encode_utf8 src)
    | Ebnf \<Rightarrow> Inr ())"

section \<open>Compiling\<close>

definition compile_grammar_text :: "'g loader_host \<Rightarrow> rstr \<Rightarrow> rstr \<Rightarrow> load_error + json" where
  "compile_grammar_text h file src = (case of_file (lh_lower h) file of
      Inl e \<Rightarrow> Inl e
    | Inr d \<Rightarrow>
        if \<not> lh_dialects h
        then Inl (load_error_new (str ''grammar dialect package not compiled in: '' @ dialect_package d @
          str '' (needed to compile '' @ file @ str ''): build tabnas-lsp with the `dialects` feature''))
        else case lh_compile h d src of Inl e \<Rightarrow> Inl (load_error_new e) | Inr spec \<Rightarrow> Inr spec)"

definition compile_within :: "'g loader_host \<Rightarrow> rstr \<Rightarrow> rstr \<Rightarrow> nat option \<Rightarrow> load_error + json" where
  "compile_within h file src budget = (case budget of
      None \<Rightarrow> compile_grammar_text h file src
    | Some ms \<Rightarrow>
        (case lh_thread h of
           CompileNoThread e \<Rightarrow> Inl (load_error_new (str ''grammar compile thread: '' @ e))
         | CompileDone \<Rightarrow> compile_grammar_text h file src
         | CompileTimeout \<Rightarrow> Inl (load_error_new (str ''grammar '' @ file @ str '' did not compile within '' @
             show_nat ms @ str '' ms: refused (the compile budget bounds how long a grammar file can hold the server; the compile runs on to its end)''))
         | CompilePanicked \<Rightarrow> Inl (load_error_new (str ''grammar '' @ file @
             str '' compile ended without a result: the compiler panicked''))))"

section \<open>The loader\<close>

record 'g loader =
  ld_linked :: "rstr \<rightharpoonup> 'g"
  ld_trust :: bool
  ld_budget :: "nat option"

definition loader_new :: "'g loader" where
  "loader_new = \<lparr>ld_linked = (\<lambda>_. None), ld_trust = False, ld_budget = Some DEFAULT_COMPILE_BUDGET\<rparr>"

definition with_compile_budget :: "'g loader \<Rightarrow> nat option \<Rightarrow> 'g loader" where
  "with_compile_budget l budget = l\<lparr>ld_budget := budget\<rparr>"

definition link :: "'g loader \<Rightarrow> rstr \<Rightarrow> 'g \<Rightarrow> 'g loader" where
  "link l name factory = l\<lparr>ld_linked := (ld_linked l)(name \<mapsto> factory)\<rparr>"

definition linked :: "'g loader \<Rightarrow> rstr \<Rightarrow> 'g option" where
  "linked l name = (case ld_linked l name of
      Some f \<Rightarrow> Some f
    | None \<Rightarrow> if starts_with name [64] then None else ld_linked l (str ''@tabnas/'' @ name))"

definition set_trust_workspace_modules :: "'g loader \<Rightarrow> bool \<Rightarrow> 'g loader" where
  "set_trust_workspace_modules l trust = l\<lparr>ld_trust := trust\<rparr>"

definition not_linked :: "rstr \<Rightarrow> load_error" where
  "not_linked name = load_error_new (str ''grammar module '' @ name @
     str '' is not linked into this server: a Rust server serves the grammars built into it (the `fleet` feature, or a host'' @
     [39] @ str ''s Loader::link)'')"

fun last_linked :: "'g loader \<Rightarrow> rstr list \<Rightarrow> 'g option \<Rightarrow> load_error + 'g option" where
  "last_linked l [] factory = Inr factory"
| "last_linked l (name # names) factory = (case linked l name of
      None \<Rightarrow> Inl (not_linked name)
    | Some f \<Rightarrow> last_linked l names (Some f))"

definition composed :: "'g loader_host \<Rightarrow> 'g loader \<Rightarrow> rstr list \<Rightarrow> load_error + 'g" where
  "composed h l layers = (case last_linked l layers None of
      Inl e \<Rightarrow> Inl e
    | Inr factory \<Rightarrow> Inr (unwrap_or factory (lh_bare h)))"

text \<open>The base of a grammar entry, as the layers begin with it.\<close>

definition base_layers :: "entry \<Rightarrow> rstr list" where
  "base_layers e = (if plugin_kind e = str ''grammar''
     then (case en_base e of Some b \<Rightarrow> if b = [] then [] else [b] | None \<Rightarrow> []) else [])"

definition install_spec :: "'g loader_host \<Rightarrow> json \<Rightarrow> entry \<Rightarrow> json \<Rightarrow> 'g loader \<Rightarrow> load_error + 'g" where
  "install_spec h spec e opts l =
     (let issues = firewall h spec
      in if issues \<noteq> []
         then Inl (load_error_with_issues (str ''grammar for '' @ language_id e @ str '' failed the firewall'') issues)
         else case composed h l (base_layers e @ unwrap_or (en_stack e) []) of
             Inl err \<Rightarrow> Inl err
           | Inr g \<Rightarrow> (case apply_options h g opts e of
                 Inl err \<Rightarrow> Inl err
               | Inr g' \<Rightarrow> install_grammar h spec g'))"

definition load_module :: "'g loader_host \<Rightarrow> 'g loader \<Rightarrow> entry \<Rightarrow> rstr \<Rightarrow> json \<Rightarrow> load_error + 'g" where
  "load_module h l e name opts =
     (if is_workspace e \<and> \<not> ld_trust l
      then Inl (load_error_new (str ''workspace entry '' @ language_id e @ str '' loads module '' @ name @
        str '', which runs code from the workspace. Refused: set trustWorkspaceModules in initializationOptions to allow it.''))
      else case composed h l (case en_stack e of Some st \<Rightarrow> st | None \<Rightarrow> base_layers e @ [name]) of
          Inl err \<Rightarrow> Inl err
        | Inr g \<Rightarrow> apply_options h g opts e)"

definition spec_read_error :: "rstr \<Rightarrow> entry \<Rightarrow> json_error \<Rightarrow> load_error" where
  "spec_read_error file e err =
     (if je_syntax err \<and> starts_with (je_text err) (str ''recursion limit exceeded'')
      then load_error_with_issues (str ''grammar for '' @ language_id e @ str '' failed the firewall'')
             [mk_issue (str ''$'') nesting_refusal]
      else load_error_new (str ''grammar file '' @ file @ str '' is not valid JSON: '' @ je_text err))"

definition load_spec_file :: "'g loader_host \<Rightarrow> 'g loader \<Rightarrow> entry \<Rightarrow> rstr \<Rightarrow> json \<Rightarrow> load_error + 'g" where
  "load_spec_file h l e file opts = (case resolve_sandboxed (lh_files h) file (en_dir e) of
      Inl err \<Rightarrow> Inl err
    | Inr path \<Rightarrow> (case read_capped (lh_files h) path e of
        Inl err \<Rightarrow> Inl err
      | Inr txt \<Rightarrow> (case lh_parse h txt of
          Inl err \<Rightarrow> Inl (spec_read_error file e err)
        | Inr spec \<Rightarrow> install_spec h spec e opts l)))"

definition load_grammar_file :: "'g loader_host \<Rightarrow> 'g loader \<Rightarrow> entry \<Rightarrow> rstr \<Rightarrow> json \<Rightarrow> load_error + 'g" where
  "load_grammar_file h l e file opts = (case resolve_sandboxed (lh_files h) file (en_dir e) of
      Inl err \<Rightarrow> Inl err
    | Inr path \<Rightarrow> (case read_capped (lh_files h) path e of
        Inl err \<Rightarrow> Inl err
      | Inr src \<Rightarrow> (case of_file (lh_lower h) path of
          Inl err \<Rightarrow> Inl err
        | Inr d \<Rightarrow> (case check_repetition_bounds d src of
            Inl err \<Rightarrow> Inl err
          | Inr _ \<Rightarrow> (case compile_within h path src (ld_budget l) of
              Inl err \<Rightarrow> Inl err
            | Inr spec \<Rightarrow> install_spec h spec e opts l)))))"

definition make_instance :: "'g loader_host \<Rightarrow> 'g loader \<Rightarrow> entry \<Rightarrow> load_error + 'g" where
  "make_instance h l e =
     (let opts = instance_options e
      in case entry_load e of
           LoadSpec (SpecInline JNull) \<Rightarrow> load_module h l e (en_name e) opts
         | LoadSpec (SpecInline spec) \<Rightarrow> install_spec h spec e opts l
         | LoadSpec (SpecFile file) \<Rightarrow> load_spec_file h l e file opts
         | LoadGrammar file \<Rightarrow> load_grammar_file h l e file opts
         | LoadModule m \<Rightarrow> load_module h l e (if m = [] then en_name e else m) opts)"

text \<open>A language of its own from a serialized spec: the entry, and what it is made with.\<close>

definition entry_from_spec_json ::
  "'g loader_host \<Rightarrow> rstr \<Rightarrow> rstr list \<Rightarrow> rstr \<Rightarrow> entry \<times> (entry \<Rightarrow> load_error + 'g)" where
  "entry_from_spec_json h lang exts spec =
     (let parsed = lh_parse h spec;
          e = (entry_new lang)\<lparr>en_language_id := Some lang, en_extensions := exts,
                en_plugin_kind := Some (str ''grammar''), en_lex_stream := Some (str ''clean''),
                en_enabled := Some True\<rparr>;
          e' = (case parsed of Inr v \<Rightarrow> e\<lparr>en_load := Some (LoadSpec (SpecInline v))\<rparr> | Inl _ \<Rightarrow> e)
      in (e', \<lambda>e. case parsed of
            Inl err \<Rightarrow> Inl (load_error_new (str ''grammar for '' @ language_id e @ str '': '' @ je_text err))
          | Inr v \<Rightarrow> install_spec h v e (instance_options e) loader_new))"

definition FLEET_LANGUAGE_IDS :: "rstr list" where
  "FLEET_LANGUAGE_IDS = map str [''csv'', ''feed'', ''ini'', ''json'', ''json5'', ''jsonc'', ''jsonic'',
     ''jsonl'', ''toml'', ''xml'', ''yaml'', ''zon'']"

text \<open>The bundled grammars; \<open>mk\<close> is each crate's \<open>make\<close>.\<close>

definition fleet :: "(rstr \<Rightarrow> 'g) \<Rightarrow> 'g loader" where
  "fleet mk = foldl (\<lambda>l i. link l (str ''@tabnas/'' @ i) (mk i)) loader_new FLEET_LANGUAGE_IDS"

section \<open>Repetition counts, without the bounds\<close>

text \<open>The counts the scan meets, in order, whatever they are.\<close>

function rep_counts :: "bool \<Rightarrow> u8 \<Rightarrow> u8 \<Rightarrow> u8 list \<Rightarrow> nat list" where
  "rep_counts abnf comment previous [] = []"
| "rep_counts abnf comment previous (c # bs) =
     (case skip_span abnf comment c bs of
        Some rest \<Rightarrow> rep_counts abnf comment 32 rest
      | None \<Rightarrow>
          if starts_count previous c
          then run_count (takeWhile is_ascii_digit (c # bs)) # rep_counts abnf comment 48 (dropWhile is_ascii_digit bs)
          else rep_counts abnf comment c bs)"
  by pat_completeness auto
termination
proof (relation "measure (\<lambda>(abnf, comment, previous, bs). length bs)")
qed (auto dest: skip_span_length simp: le_imp_less_Suc length_dropWhile_le)

definition counts_of :: "dialect \<Rightarrow> rstr \<Rightarrow> nat list" where
  "counts_of d src = (case d of
      Abnf \<Rightarrow> rep_counts True 59 32 (encode_utf8 src)
    | Gbnf \<Rightarrow> rep_counts False 35 32 (encode_utf8 src)
    | Ebnf \<Rightarrow> [])"

definition counts_ok :: "nat \<Rightarrow> nat list \<Rightarrow> bool" where
  "counts_ok acc cs \<longleftrightarrow> list_all (\<lambda>c. c \<le> MAX_REPETITION_BOUND) cs \<and>
     acc + sum_list (filter (\<lambda>c. 1 < c) cs) \<le> MAX_REPETITION_TOTAL"

lemma counts_ok_Nil [simp]: "counts_ok acc [] \<longleftrightarrow> acc \<le> MAX_REPETITION_TOTAL"
  and counts_ok_Cons [simp]: "counts_ok acc (c # cs) \<longleftrightarrow>
    c \<le> MAX_REPETITION_BOUND \<and> counts_ok (if 1 < c then acc + c else acc) cs"
  by (auto simp: counts_ok_def)

lemma counts_ok_bound: "counts_ok acc cs \<Longrightarrow> acc \<le> MAX_REPETITION_TOTAL"
  by (simp add: counts_ok_def)

lemma u64_sat_add_small: "a \<le> MAX_REPETITION_TOTAL \<Longrightarrow> b \<le> MAX_REPETITION_BOUND \<Longrightarrow> u64_sat_add a b = a + b"
  by (simp add: u64_sat_add_def MAX_REPETITION_TOTAL_def MAX_REPETITION_BOUND_def u64_limit_def)

lemma rep_scan_exact:
  "acc \<le> MAX_REPETITION_TOTAL \<Longrightarrow>
    rep_scan abnf comment acc previous bs = Inr () \<longleftrightarrow> counts_ok acc (rep_counts abnf comment previous bs)"
proof (induction abnf comment acc previous bs rule: rep_scan.induct)
  case (2 abnf comment acc previous c bs)
  define count where "count = run_count (takeWhile is_ascii_digit (c # bs))"
  define acc' where "acc' = (if 1 < count then u64_sat_add acc count else acc)"
  show ?case
  proof (cases "skip_span abnf comment c bs")
    case (Some rest)
    then show ?thesis using 2 by simp
  next
    case none: None
    show ?thesis
    proof (cases "starts_count previous c")
      case True
      have cnt: "rep_counts abnf comment previous (c # bs) = count # rep_counts abnf comment 48 (dropWhile is_ascii_digit bs)"
        using none True by (simp add: count_def)
      show ?thesis
      proof (cases "MAX_REPETITION_BOUND < count \<or> MAX_REPETITION_TOTAL < acc'")
        case True': True
        then have "rep_scan abnf comment acc previous (c # bs) \<noteq> Inr ()"
          using none True by (auto simp: Let_def count_def acc'_def)
        moreover have "\<not> counts_ok acc (count # rep_counts abnf comment 48 (dropWhile is_ascii_digit bs))"
          using True' u64_sat_add_small [OF 2(4), of count] counts_ok_bound
          by (fastforce simp: acc'_def split: if_splits)
        ultimately show ?thesis unfolding cnt by blast
      next
        case False
        then have eq: "acc' = (if 1 < count then acc + count else acc)"
          using u64_sat_add_small [OF 2(4), of count] by (simp add: acc'_def)
        have "rep_scan abnf comment acc previous (c # bs) = rep_scan abnf comment acc' 48 (dropWhile is_ascii_digit bs)"
          using True False
          unfolding rep_scan.simps none option.case Let_def count_def [symmetric] acc'_def [symmetric] by simp
        then show ?thesis
          using 2(1) [OF none True count_def _ acc'_def] False unfolding cnt by (simp add: eq)
      qed
    next
      case False
      then show ?thesis using 2(2) [OF none False 2(4)] none False by simp
    qed
  qed
qed simp

section \<open>Reading back the options\<close>

lemma object_or_empty_get: "obj_get (object_or_empty v) k = Option.bind v (\<lambda>v. value_get v k)"
  by (auto simp: object_or_empty_def value_get_def split: option.splits json.splits)

lemma object_or_empty_distinct: "(\<And>x. v = Some x \<Longrightarrow> json_wf x) \<Longrightarrow> distinct (map fst (object_or_empty v))"
  by (auto simp: object_or_empty_def split: option.splits json.splits)

lemma json_wf_get: "json_wf x \<Longrightarrow> value_get x k = Some y \<Longrightarrow> json_wf y"
  by (auto simp: value_get_def obj_get_def dest!: map_of_SomeD split: json.splits)

section \<open>What a made instance is made of\<close>

lemma install_grammar_Inr: "install_grammar h doc g = Inr g' \<longleftrightarrow> lh_grammar h doc g = Inr g'"
  by (simp add: install_grammar_def split: sum.splits)

lemma firewall_accepts: "firewall h spec = [] \<longleftrightarrow> spec_ok (engine_of h) spec"
  by (simp add: firewall_def firewall_exact_lemma)

lemma last_linked_ran: "last_linked l names f = Inr (Some g) \<Longrightarrow> f = Some g \<or> g \<in> ran (ld_linked l)"
proof (induction names arbitrary: f)
  case (Cons name names)
  then obtain f' where f': "linked l name = Some f'" "last_linked l names (Some f') = Inr (Some g)"
    by (auto split: option.splits)
  then have "f' \<in> ran (ld_linked l)" by (auto simp: linked_def ran_def split: option.splits if_splits)
  with Cons.IH [OF f'(2)] show ?case by auto
qed simp

lemma composed_host: "composed h l names = Inr g \<Longrightarrow> g \<in> insert (lh_bare h) (ran (ld_linked l))"
  using last_linked_ran [of l names None g]
  by (auto simp: composed_def unwrap_or_def split: sum.splits option.splits)

definition options_document :: "entry \<Rightarrow> json" where
  "options_document e = JObj [(str ''options'', instance_options e)]"

lemma apply_options_Inr:
  "apply_options h g (instance_options e) e' = Inr g' \<longleftrightarrow>
    spec_ok (engine_of h) (options_document e) \<and> lh_grammar h (options_document e) g = Inr g'"
  by (auto simp: apply_options_def Let_def options_document_def install_grammar_Inr firewall_accepts split: if_splits)

lemma install_spec_Inr:
  assumes "install_spec h spec e (instance_options e) l = Inr g"
  shows "\<exists>g0 g1. spec_ok (engine_of h) spec \<and> spec_ok (engine_of h) (options_document e) \<and>
    composed h l (base_layers e @ unwrap_or (en_stack e) []) = Inr g0 \<and>
    lh_grammar h (options_document e) g0 = Inr g1 \<and> lh_grammar h spec g1 = Inr g"
  using assms
  by (auto simp: install_spec_def Let_def firewall_accepts apply_options_Inr install_grammar_Inr split: if_splits sum.splits)

definition read_text :: "u8 list \<Rightarrow> rstr" where
  "read_text bs = (case decode_utf8 bs of Some txt \<Rightarrow> txt | None \<Rightarrow> from_utf8_lossy bs)"

lemma read_capped_Inr:
  assumes "read_capped fs file e = Inr txt"
  shows "\<exists>bs. fl_content fs file = Inr bs \<and> length bs \<le> MAX_GRAMMAR_BYTES \<and> txt = read_text bs"
proof -
  from assms obtain n bs where *: "fl_len fs file = Inr n" "fl_content fs file = Inr bs"
    "\<not> MAX_GRAMMAR_BYTES < length (take (MAX_GRAMMAR_BYTES + 1) bs)" "txt = read_text (take (MAX_GRAMMAR_BYTES + 1) bs)"
    unfolding read_capped_def Let_def read_text_def [symmetric] by (auto split: sum.splits if_splits)
  then have "length bs \<le> MAX_GRAMMAR_BYTES" by (simp add: min_def split: if_splits)
  with * show ?thesis by simp
qed

definition file_lane :: "'g loader_host \<Rightarrow> 'g loader \<Rightarrow> load \<Rightarrow> rstr \<Rightarrow> rstr \<Rightarrow> rstr \<Rightarrow> json \<Rightarrow> bool" where
  "file_lane h l ld file path txt spec \<longleftrightarrow>
     (ld = LoadSpec (SpecFile file) \<and> lh_parse h txt = Inr spec) \<or>
     (ld = LoadGrammar file \<and> compile_within h path txt (ld_budget l) = Inr spec \<and>
      (\<exists>d. of_file (lh_lower h) path = Inr d \<and> check_repetition_bounds d txt = Inr ()))"

lemma make_instance_file:
  assumes "make_instance h l e = Inr g" "entry_load e = LoadSpec (SpecFile file) \<or> entry_load e = LoadGrammar file"
  shows "\<exists>path txt spec. resolve_sandboxed (lh_files h) file (en_dir e) = Inr path \<and>
    read_capped (lh_files h) path e = Inr txt \<and> file_lane h l (entry_load e) file path txt spec \<and>
    install_spec h spec e (instance_options e) l = Inr g"
  using assms
  by (auto simp: make_instance_def Let_def load_spec_file_def load_grammar_file_def file_lane_def split: sum.splits)

lemma resolve_sandboxed_Inr:
  "resolve_sandboxed fs file dir = Inr real \<Longrightarrow>
    \<exists>d base. dir = Some d \<and> fl_canonicalize fs (absolute fs d) = Inr base \<and>
      fl_canonicalize fs (lexical_resolve base file) = Inr real \<and>
      path_starts_with (lexical_resolve base file) base \<and> path_starts_with real base"
  by (auto simp: resolve_sandboxed_def Let_def split: option.splits sum.splits if_splits)

text \<open>A host for the witnesses: the engine lists what it installed, one folder holds one file.\<close>

definition sample_files :: files where
  "sample_files = \<lparr>fl_cwd = Some (str ''/''),
     fl_canonicalize = (\<lambda>p. if p = str ''/w'' \<or> p = str ''/w/g.json'' then Inr p else Inl []),
     fl_len = (\<lambda>_. Inr 2), fl_content = (\<lambda>p. if p = str ''/w/g.json'' then Inr [123, 125] else Inl [])\<rparr>"

definition sample_host :: "json list loader_host" where
  "sample_host = \<lparr>lh_bare = [], lh_grammar = (\<lambda>doc g. Inr (doc # g)), lh_schema = 1, lh_js_number = (\<lambda>_. []),
     lh_lower = id, lh_parse = (\<lambda>_. Inr (JObj [])), lh_files = sample_files, lh_dialects = False,
     lh_compile = (\<lambda>_ _. Inl []), lh_thread = CompileDone\<rparr>"

definition sample_entry :: "load \<Rightarrow> entry" where
  "sample_entry ld = (entry_new (str ''x''))\<lparr>en_load := Some ld, en_source := Workspace, en_dir := Some (str ''/w'')\<rparr>"

section \<open>The properties\<close>

text \<open>
  C40: the repetition bounds are what they say. Grammar text passes exactly when every count the
  scan reads in it is at most 512 and the counts above one add up to at most 2048; the running
  sum never saturates on the way, and EBNF text, which has no counts, always passes.
\<close>
theorem repetition_bounds:
  "check_repetition_bounds d src = Inr () \<longleftrightarrow>
     list_all (\<lambda>c. c \<le> 512) (counts_of d src) \<and> sum_list (filter (\<lambda>c. 1 < c) (counts_of d src)) \<le> 2048"
  by (cases d)
    (simp_all add: check_repetition_bounds_def counts_of_def rep_scan_exact counts_ok_def
      MAX_REPETITION_TOTAL_def MAX_REPETITION_BOUND_def)

text \<open>
  C11: an untrusted workspace entry only ever yields data over the host's own grammars. When the
  host does not trust workspace modules and an instance is made for a workspace entry, the entry
  names no module; the instance is a document the firewall accepts, installed on a bare engine
  or on a grammar the host linked, after the entry's options, which the firewall accepts too.
\<close>
theorem untrusted_only_data:
  assumes "is_workspace e" "\<not> ld_trust l" "make_instance h l e = Inr g"
  shows "(\<nexists>name. entry_load e = LoadModule name) \<and>
    (\<exists>spec g0 g1. spec_ok (engine_of h) spec \<and> spec_ok (engine_of h) (options_document e) \<and>
       g0 \<in> insert (lh_bare h) (ran (ld_linked l)) \<and>
       lh_grammar h (options_document e) g0 = Inr g1 \<and> lh_grammar h spec g1 = Inr g)"
proof -
  have no_module: "load_module h l e name opts \<noteq> Inr g" for name opts
    using assms(1,2) by (simp add: load_module_def)
  then have "\<nexists>name. entry_load e = LoadModule name"
    using assms(3) by (auto simp: make_instance_def Let_def)
  moreover obtain spec where spec: "install_spec h spec e (instance_options e) l = Inr g"
  proof (cases "entry_load e")
    case (LoadModule m)
    with calculation show ?thesis by blast
  next
    case (LoadSpec s)
    show ?thesis
    proof (cases s)
      case (SpecFile f)
      with LoadSpec make_instance_file [OF assms(3), of f] that show ?thesis by blast
    next
      case (SpecInline v)
      then show ?thesis
        using LoadSpec assms(3) no_module that by (cases v) (auto simp: make_instance_def Let_def)
    qed
  next
    case (LoadGrammar f)
    with make_instance_file [OF assms(3), of f] that show ?thesis by blast
  qed
  ultimately show ?thesis
    using install_spec_Inr [OF spec] composed_host by metis
qed

theorem untrusted_only_data_witness:
  "let e = sample_entry (LoadSpec (SpecInline (JObj []))); g = [JObj [], options_document e]
   in make_instance sample_host loader_new e = Inr g \<and>
      (\<exists>spec g0 g1. spec_ok (engine_of sample_host) spec \<and> g0 \<in> insert [] (ran (ld_linked (loader_new :: json list loader))) \<and>
         lh_grammar sample_host spec g1 = Inr g)"
proof -
  let ?e = "sample_entry (LoadSpec (SpecInline (JObj [])))"
  have e: "is_workspace ?e" "\<not> ld_trust (loader_new :: json list loader)" by code_simp+
  have made: "make_instance sample_host loader_new ?e = Inr [JObj [], options_document ?e]" by code_simp
  have "lh_bare sample_host = []" by (simp add: sample_host_def)
  with untrusted_only_data [OF e made] made show ?thesis unfolding Let_def by metis
qed

text \<open>
  C22: the file lanes stay in their folder and under their size. When an instance is made from a
  spec or a grammar file, the entry has a folder, the file read is at the folder's real path or
  below it by plain names (whatever links or \<open>..\<close> the entry used), it holds at most a million
  bytes, and what was made of its text passed the firewall. The check lets the folder's own path
  through (an entry can name \<open>.\<close>); since no directory can be read as a file, what was read of an
  entry whose folder is one is strictly below it. It relies on what \<open>fs::canonicalize\<close> promises:
  an absolute path without \<open>.\<close>, \<open>..\<close> or empty parts.
\<close>
theorem file_lanes_confined:
  assumes "\<And>p q. fl_canonicalize (lh_files h) p = Inr q \<Longrightarrow>
      \<exists>ns. list_all plain_name ns \<and> components q = RootDir # map Normal ns"
    and "make_instance h l e = Inr g"
    and "entry_load e = LoadSpec (SpecFile file) \<or> entry_load e = LoadGrammar file"
  shows "\<exists>dir base real folder below bytes spec. en_dir e = Some dir \<and>
    fl_canonicalize (lh_files h) (absolute (lh_files h) dir) = Inr base \<and> components base = RootDir # map Normal folder \<and>
    fl_canonicalize (lh_files h) (lexical_resolve base file) = Inr real \<and>
    components real = RootDir # map Normal (folder @ below) \<and> list_all plain_name below \<and>
    ((\<forall>p. components p = components base \<longrightarrow> (\<exists>err. fl_content (lh_files h) p = Inl err)) \<longrightarrow> below \<noteq> []) \<and>
    fl_content (lh_files h) real = Inr bytes \<and> length bytes \<le> 1000000 \<and>
    file_lane h l (entry_load e) file real (read_text bytes) spec \<and> spec_ok (engine_of h) spec"
proof -
  obtain real content spec where made: "resolve_sandboxed (lh_files h) file (en_dir e) = Inr real"
    "read_capped (lh_files h) real e = Inr content" "file_lane h l (entry_load e) file real content spec"
    "install_spec h spec e (instance_options e) l = Inr g"
    using make_instance_file [OF assms(2,3)] by blast
  obtain dir base where dir: "en_dir e = Some dir" "fl_canonicalize (lh_files h) (absolute (lh_files h) dir) = Inr base"
    "fl_canonicalize (lh_files h) (lexical_resolve base file) = Inr real" "path_starts_with real base"
    using resolve_sandboxed_Inr [OF made(1)] by blast
  obtain folder where folder: "components base = RootDir # map Normal folder"
    using assms(1) [OF dir(2)] by blast
  obtain names where names: "list_all plain_name names" "components real = RootDir # map Normal names"
    using assms(1) [OF dir(3)] by blast
  have "map Normal (take (length folder) names) = map Normal folder"
    using dir(4) folder names(2) by (simp add: path_starts_with_def take_map)
  then have "take (length folder) names = folder"
    by (metis component.inject inj_onI list.inj_map_strong)
  then obtain below where below: "names = folder @ below" by (metis append_take_drop_id)
  obtain bytes where bytes: "fl_content (lh_files h) real = Inr bytes" "length bytes \<le> MAX_GRAMMAR_BYTES" "content = read_text bytes"
    using read_capped_Inr [OF made(2)] by blast
  have "below \<noteq> []" if "\<forall>p. components p = components base \<longrightarrow> (\<exists>err. fl_content (lh_files h) p = Inl err)"
  proof
    assume "below = []"
    then have "components real = components base" using folder names(2) below by simp
    with that bytes(1) show False by auto
  qed
  moreover have "spec_ok (engine_of h) spec" using install_spec_Inr [OF made(4)] by blast
  ultimately show ?thesis using dir folder names below bytes made(3)
    by (intro exI [of _ dir] exI [of _ base] exI [of _ real] exI [of _ folder] exI [of _ below] exI [of _ bytes] exI [of _ spec])
      (simp add: MAX_GRAMMAR_BYTES_def)
qed

theorem file_lanes_confined_witness:
  "make_instance sample_host loader_new (sample_entry (LoadSpec (SpecFile (str ''d/../g.json'')))) =
     Inr [JObj [], options_document (sample_entry (LoadSpec (SpecFile (str ''d/../g.json''))))] \<and>
   (\<exists>real below. components real = RootDir # map Normal (str ''w'' # below) \<and> list_all plain_name below \<and>
      below \<noteq> [] \<and> fl_content sample_files real = Inr [123, 125])"
proof -
  let ?e = "sample_entry (LoadSpec (SpecFile (str ''d/../g.json'')))"
  have made: "make_instance sample_host loader_new ?e = Inr [JObj [], options_document ?e]" by code_simp
  have ld: "entry_load ?e = LoadSpec (SpecFile (str ''d/../g.json''))" by code_simp
  have w: "components (str ''/w'') = RootDir # map Normal [str ''w'']" "list_all plain_name [str ''w'']"
    "components (str ''/w/g.json'') = RootDir # map Normal [str ''w'', str ''g.json'']"
    "list_all plain_name [str ''w'', str ''g.json'']"
    by code_simp+
  have canon: "\<exists>ns. list_all plain_name ns \<and> components q = RootDir # map Normal ns"
    if "fl_canonicalize (lh_files sample_host) p = Inr q" for p q
  proof -
    have "q = str ''/w'' \<or> q = str ''/w/g.json''"
      using that by (auto simp: sample_host_def sample_files_def split: if_splits)
    then show ?thesis using w by metis
  qed
  have abs: "absolute (lh_files sample_host) (str ''/w'') = str ''/w''" by code_simp
  have dir: "en_dir ?e = Some (str ''/w'')" by (simp add: sample_entry_def)
  have same: "fl_canonicalize (lh_files sample_host) (str ''/w'') = Inr (str ''/w'')"
    by (simp add: sample_host_def sample_files_def)
  obtain base real folder below bytes where r: "fl_canonicalize (lh_files sample_host) (str ''/w'') = Inr base"
    "components base = RootDir # map Normal folder" "components real = RootDir # map Normal (folder @ below)"
    "list_all plain_name below" "fl_content (lh_files sample_host) real = Inr bytes"
    "(\<forall>p. components p = components base \<longrightarrow> (\<exists>err. fl_content (lh_files sample_host) p = Inl err)) \<longrightarrow> below \<noteq> []"
    using file_lanes_confined [OF canon made disjI1, OF _ ld] dir abs by fastforce
  have base: "base = str ''/w''" using r(1) same by simp
  have "map Normal folder = map Normal [str ''w'']" using r(2) w(1) base by simp
  then have folder: "folder = [str ''w'']" by (cases folder) auto
  have content: "fl_content (lh_files sample_host) p = (if p = str ''/w/g.json'' then Inr [123, 125] else Inl [])" for p
    by (simp add: sample_host_def sample_files_def)
  have "components (str ''/w/g.json'') \<noteq> components base" using w(1,3) base by simp
  then have "\<forall>p. components p = components base \<longrightarrow> (\<exists>err. fl_content (lh_files sample_host) p = Inl err)"
    by (auto simp: content)
  with r(6) have "below \<noteq> []" by blast
  moreover have "fl_content sample_files real = Inr [123, 125]"
    using r(5) content [of real] by (simp add: sample_host_def split: if_splits)
  ultimately show ?thesis using r(3,4) folder made by auto
qed

text \<open>
  Recovery is on by default and an entry's own options win. The options document an instance
  gets has \<open>parse.recover.enabled\<close> as the entry sets it, true when it does not; its sync groups
  are the entry's \<open>recover.syncGroups\<close>, else its declared groups; and every other option, every
  other \<open>parse\<close> option and every other \<open>recover\<close> setting is the entry's.
\<close>
theorem instance_options_merge:
  assumes "json_wf (unwrap_or (en_options e) JNull)"
  shows "\<exists>opts parse recover. instance_options e = JObj opts \<and>
    obj_get opts (str ''parse'') = Some (JObj parse) \<and> obj_get parse (str ''recover'') = Some (JObj recover) \<and>
    (let own = (\<lambda>ks k. Option.bind (foldl (\<lambda>v k. Option.bind v (\<lambda>v. value_get v k)) (en_options e) ks) (\<lambda>v. value_get v k));
         in_parse = [str ''parse'']; in_recover = [str ''parse'', str ''recover'']
     in obj_get recover (str ''enabled'') = Some (unwrap_or (own in_recover (str ''enabled'')) (JBool True)) \<and>
        obj_get recover (str ''syncGroups'') = (case own in_recover (str ''syncGroups'') of
           Some v \<Rightarrow> Some v | None \<Rightarrow> map_option (\<lambda>gs. JArr (map JStr gs)) (en_sync_groups e)) \<and>
        (\<forall>k. k \<noteq> str ''enabled'' \<longrightarrow> k \<noteq> str ''syncGroups'' \<longrightarrow> obj_get recover k = own in_recover k) \<and>
        (\<forall>k. k \<noteq> str ''recover'' \<longrightarrow> obj_get parse k = own in_parse k) \<and>
        (\<forall>k. k \<noteq> str ''parse'' \<longrightarrow> obj_get opts k = own [] k))"
proof -
  define opts where "opts = object_or_empty (en_options e)"
  define parse where "parse = object_or_empty (obj_get opts (str ''parse''))"
  define own where "own = object_or_empty (obj_get parse (str ''recover''))"
  have opts_get: "obj_get opts k = Option.bind (en_options e) (\<lambda>v. value_get v k)" for k
    by (simp add: opts_def object_or_empty_get)
  have parse_get: "obj_get parse k = Option.bind (obj_get opts (str ''parse'')) (\<lambda>v. value_get v k)" for k
    by (simp add: parse_def object_or_empty_get)
  have own_get: "obj_get own k = Option.bind (obj_get parse (str ''recover'')) (\<lambda>v. value_get v k)" for k
    by (simp add: own_def object_or_empty_get)
  have wf_parse: "json_wf x" if "obj_get opts (str ''parse'') = Some x" for x
    using that assms json_wf_get by (auto simp: opts_get unwrap_or_def elim!: bind_SomeE)
  have "json_wf x" if "obj_get parse (str ''recover'') = Some x" for x
    using that wf_parse json_wf_get by (auto simp: parse_get elim!: bind_SomeE)
  then have distinct: "distinct (map fst own)"
    unfolding own_def by (rule object_or_empty_distinct)
  define base where "base = obj_extend (obj_insert [] (str ''enabled'') (JBool True)) own"
  have base_get: "obj_get base k = (case obj_get own k of Some v \<Rightarrow> Some v
      | None \<Rightarrow> if k = str ''enabled'' then Some (JBool True) else None)" for k
    unfolding base_def obj_get_extend [OF distinct] by (simp split: option.splits)
  define recover where "recover = (if contains_key own (str ''syncGroups'') then base
     else case en_sync_groups e of Some gs \<Rightarrow> obj_insert base (str ''syncGroups'') (JArr (map JStr gs)) | None \<Rightarrow> base)"
  have rec_get: "obj_get recover k = (if k = str ''syncGroups''
      then (case obj_get own k of Some v \<Rightarrow> Some v | None \<Rightarrow> map_option (\<lambda>gs. JArr (map JStr gs)) (en_sync_groups e))
      else obj_get base k)" for k
    by (auto simp: recover_def contains_key_def base_get split: option.splits)
  have io: "instance_options e = JObj (obj_insert opts (str ''parse'') (JObj (obj_insert parse (str ''recover'') (JObj recover))))"
    unfolding instance_options_def Let_def opts_def [symmetric] parse_def [symmetric] own_def [symmetric]
      base_def [symmetric] recover_def [symmetric] by (rule refl)
  have own_path: "Option.bind (foldl (\<lambda>v k. Option.bind v (\<lambda>v. value_get v k)) (en_options e) [str ''parse'', str ''recover'']) (\<lambda>v. value_get v k) = obj_get own k" for k
    by (simp add: own_get parse_get opts_get)
  have parse_path: "Option.bind (foldl (\<lambda>v k. Option.bind v (\<lambda>v. value_get v k)) (en_options e) [str ''parse'']) (\<lambda>v. value_get v k) = obj_get parse k" for k
    by (simp add: parse_get opts_get)
  show ?thesis
    unfolding io Let_def own_path parse_path
    by (intro exI [of _ "obj_insert opts (str ''parse'') (JObj (obj_insert parse (str ''recover'') (JObj recover)))"]
        exI [of _ "obj_insert parse (str ''recover'') (JObj recover)"] exI [of _ recover])
      (auto simp: rec_get base_get unwrap_or_def opts_get split: option.splits)
qed

theorem instance_options_merge_witness:
  "\<exists>opts parse recover. instance_options ((entry_new (str ''x''))\<lparr>en_options := Some (JObj [(str ''parse'',
       JObj [(str ''recover'', JObj [(str ''enabled'', JBool False)])])]), en_sync_groups := Some [str ''k'']\<rparr>) = JObj opts \<and>
     obj_get opts (str ''parse'') = Some (JObj parse) \<and> obj_get parse (str ''recover'') = Some (JObj recover) \<and>
     obj_get recover (str ''enabled'') = Some (JBool False) \<and>
     obj_get recover (str ''syncGroups'') = Some (JArr [JStr (str ''k'')])"
proof -
  let ?e = "(entry_new (str ''x''))\<lparr>en_options := Some (JObj [(str ''parse'',
       JObj [(str ''recover'', JObj [(str ''enabled'', JBool False)])])]), en_sync_groups := Some [str ''k'']\<rparr>"
  have wf: "json_wf (unwrap_or (en_options ?e) JNull)" by (simp add: unwrap_or_def)
  show ?thesis
    using instance_options_merge [of ?e, OF wf] unfolding Let_def
    by (elim exE conjE) (intro exI conjI, assumption+, simp_all add: value_get_def unwrap_or_def)
qed

end
