(* ===== verification/Workspace.thy ===== *)
theory Workspace
  imports Registry Paths
begin

text \<open>
  What the server reads from the outside to build its workspace tier (\<open>rs/src/server.rs\<close>):
  folder and file URIs as paths, a folder's manifest, the client's languages, and the entries
  stamped from them. POSIX (\<open>cfg!(windows)\<close> is false). Parameters: reading a file (\<open>rf\<close>, \<open>None\<close> when
  it cannot be read), the JSON reader (\<open>jp\<close>) and the text of serde's refusal of an entry (\<open>de\<close>).
\<close>

section \<open>Paths of URIs\<close>

text \<open>\<open>u8::from_str_radix(\<dots>, 16)\<close> of a two-byte slice: a leading plus is accepted.\<close>

definition radix16 :: "u8 \<Rightarrow> u8 \<Rightarrow> u8 option" where
  "radix16 a b =
     (if is_ascii_hexdigit a \<and> is_ascii_hexdigit b then Some (16 * hex_value a + hex_value b)
      else if a = 43 \<and> is_ascii_hexdigit b then Some (hex_value b)
      else None)"

fun percent_bytes :: "u8 list \<Rightarrow> u8 list option" where
  "percent_bytes [] = Some []"
| "percent_bytes (c # bs) =
     (if c = 37
      then (case bs of
          a # b # rest \<Rightarrow>
            (case radix16 a b of None \<Rightarrow> None | Some v \<Rightarrow> map_option (\<lambda>out. v # out) (percent_bytes rest))
        | _ \<Rightarrow> None)
      else map_option (\<lambda>out. c # out) (percent_bytes bs))"

definition percent_decode :: "rstr \<Rightarrow> rstr option" where
  "percent_decode src = Option.bind (percent_bytes (encode_utf8 src)) decode_utf8"

definition normalize_component :: "component list \<Rightarrow> component \<Rightarrow> component list" where
  "normalize_component out c = (case c of
      CurDir \<Rightarrow> out
    | ParentDir \<Rightarrow>
        (case path_pop out of
           Some out' \<Rightarrow> out'
         | None \<Rightarrow> if RootDir \<in> set out then out else out @ [ParentDir])
    | RootDir \<Rightarrow> [RootDir]
    | Normal s \<Rightarrow> out @ [Normal s])"

definition normalize :: "rstr \<Rightarrow> rstr" where
  "normalize p = path_text (foldl normalize_component [] (components p))"

fun contains_text :: "rstr \<Rightarrow> rstr \<Rightarrow> bool" where
  "contains_text pat [] \<longleftrightarrow> pat = []"
| "contains_text pat (c # s) \<longleftrightarrow> starts_with (c # s) pat \<or> contains_text pat s"

definition split_host :: "rstr \<Rightarrow> rstr \<times> rstr" where
  "split_host rest = (case strip_prefix rest (str ''//'') of
      Some after \<Rightarrow>
        (if 47 \<in> set after then (takeWhile (\<lambda>c. c \<noteq> 47) after, dropWhile (\<lambda>c. c \<noteq> 47) after)
         else (after, str ''/''))
    | None \<Rightarrow> ([], rest))"

definition file_url_to_path :: "rstr \<Rightarrow> rstr option" where
  "file_url_to_path rest =
     (let rest = takeWhile (\<lambda>c. c \<noteq> 63 \<and> c \<noteq> 35) rest;
          (host, path) = split_host rest;
          host = (if eq_ignore_ascii_case host (str ''localhost'') then [] else host)
      in if contains_text (str ''%2f'') (to_ascii_lowercase path) then None
         else case percent_decode path of
             None \<Rightarrow> None
           | Some decoded \<Rightarrow> if host \<noteq> [] then None else Some (normalize decoded))"

definition folder_path_of :: "rstr \<Rightarrow> rstr option" where
  "folder_path_of uri_or_path =
     (if uri_or_path = [] then None
      else case strip_prefix uri_or_path (str ''file:'') of
          Some rest \<Rightarrow> file_url_to_path rest
        | None \<Rightarrow> Some uri_or_path)"

section \<open>Entries of the workspace\<close>

definition WORKSPACE_MANIFEST :: rstr where
  "WORKSPACE_MANIFEST = str ''.tabnas/lsp.json''"

definition entry_from_fields :: "(json \<Rightarrow> rstr) \<Rightarrow> fields \<Rightarrow> rstr + entry" where
  "entry_from_fields de m =
     (let m' = (if obj_get m (str ''name'') = None \<or> obj_get m (str ''name'') = Some JNull
                then obj_insert m (str ''name'') (JStr []) else m)
      in case read_entry (JObj m') of Some e \<Rightarrow> Inr e | None \<Rightarrow> Inl (de (JObj m')))"

definition manifest_entry :: "(json \<Rightarrow> rstr) \<Rightarrow> rstr \<Rightarrow> rstr \<Rightarrow> nat \<Rightarrow> json \<Rightarrow> load_error + entry" where
  "manifest_entry de file folder i language =
     (let malformed = (\<lambda>msg. load_error_new (file @ str '': '' @ msg))
      in case language of
           JObj m \<Rightarrow>
             (let m1 = obj_insert m (str ''_source'') (JStr (str ''workspace''));
                  m2 = obj_insert m1 (str ''_dir'') (JStr folder)
              in case entry_from_fields de m2 of
                   Inr e \<Rightarrow> Inr e
                 | Inl err \<Rightarrow> Inl (malformed (str ''languages['' @ show_nat i @ str '']: '' @ err)))
         | _ \<Rightarrow> Inl (malformed (str ''languages['' @ show_nat i @ str ''] is not an object'')))"

text \<open>Collecting results: the first error ends it.\<close>

fun collect :: "(nat \<Rightarrow> 'a \<Rightarrow> 'e + 'b) \<Rightarrow> nat \<Rightarrow> 'a list \<Rightarrow> 'e + 'b list" where
  "collect f i [] = Inr []"
| "collect f i (x # xs) = (case f i x of
      Inl e \<Rightarrow> Inl e
    | Inr y \<Rightarrow> (case collect f (i + 1) xs of Inl e \<Rightarrow> Inl e | Inr ys \<Rightarrow> Inr (y # ys)))"

definition read_workspace_manifest ::
  "(rstr \<Rightarrow> rstr option) \<Rightarrow> (rstr \<Rightarrow> rstr + json) \<Rightarrow> (json \<Rightarrow> rstr) \<Rightarrow> rstr \<Rightarrow> load_error + entry list" where
  "read_workspace_manifest rf jp de folder =
     (let file = path_join folder WORKSPACE_MANIFEST
      in case rf file of
           None \<Rightarrow> Inr []
         | Some txt \<Rightarrow>
             (case jp txt of
                Inl err \<Rightarrow> Inl (load_error_new (file @ str '': '' @ err))
              | Inr manifest \<Rightarrow>
                  (case Option.bind (value_get manifest (str ''languages'')) as_array of
                     None \<Rightarrow> Inr []
                   | Some languages \<Rightarrow> collect (manifest_entry de file folder) 0 languages)))"

definition init_language_entry :: "(json \<Rightarrow> rstr) \<Rightarrow> json \<Rightarrow> rstr option \<Rightarrow> rstr + entry" where
  "init_language_entry de language default_dir = (case language of
      JObj own \<Rightarrow>
        (let m0 = obj_insert [] (str ''_source'') (JStr (str ''workspace''));
             m1 = obj_insert m0 (str ''_dir'') (case default_dir of None \<Rightarrow> JNull | Some dir \<Rightarrow> JStr dir);
             m2 = obj_extend m1 own;
             m3 = obj_insert m2 (str ''_scope'') JNull
         in entry_from_fields de m3)
    | _ \<Rightarrow> Inl (str ''not an object''))"

section \<open>Normal paths\<close>

definition rooted :: "component list \<Rightarrow> bool" where
  "rooted cs \<longleftrightarrow> (\<exists>ns. list_all plain_name ns \<and> cs = RootDir # map Normal ns)"

lemma rooted_resolved: "rooted cs \<Longrightarrow> resolved cs"
  by (auto simp: rooted_def resolved_def)

lemma normalize_component_rooted:
  "rooted out \<Longrightarrow> c \<noteq> RootDir \<Longrightarrow> (\<And>s. c = Normal s \<Longrightarrow> plain_name s) \<Longrightarrow> rooted (normalize_component out c)"
proof -
  assume out: "rooted out" and c: "c \<noteq> RootDir" "\<And>s. c = Normal s \<Longrightarrow> plain_name s"
  then obtain ns where ns: "list_all plain_name ns" "out = RootDir # map Normal ns" by (auto simp: rooted_def)
  show ?thesis
  proof (cases c)
    case (Normal s)
    with ns c(2) have "list_all plain_name (ns @ [s])" "out @ [Normal s] = RootDir # map Normal (ns @ [s])" by auto
    then show ?thesis unfolding rooted_def normalize_component_def Normal component.case using ns(2) by metis
  next
    case ParentDir
    show ?thesis
    proof (cases ns rule: rev_cases)
      case Nil
      then show ?thesis using out ns by (simp add: ParentDir normalize_component_def path_pop_def)
    next
      case (snoc ms m)
      then have "list_all plain_name ms" "normalize_component out c = RootDir # map Normal ms"
        using ns by (auto simp: ParentDir normalize_component_def path_pop_def butlast_append)
      then show ?thesis by (auto simp: rooted_def)
    qed
  qed (use out c in \<open>simp_all add: normalize_component_def\<close>)
qed

lemma foldl_normalize_rooted:
  "rooted out \<Longrightarrow> RootDir \<notin> set cs \<Longrightarrow> (\<And>s. Normal s \<in> set cs \<Longrightarrow> plain_name s) \<Longrightarrow>
    rooted (foldl normalize_component out cs)"
proof (induction cs arbitrary: out)
  case (Cons c cs)
  from Cons.prems have "rooted (normalize_component out c)"
    by (intro normalize_component_rooted) auto
  with Cons.prems show ?case by (simp add: Cons.IH)
qed simp

lemma normalized_rooted:
  assumes "has_root p" shows "rooted (foldl normalize_component [] (components p))"
proof -
  have "RootDir \<in> set (components p)" using assms by (simp add: components_def)
  then obtain cs where cs: "components p = RootDir # cs" "RootDir \<notin> set cs"
    using components_root by blast
  have start: "rooted (normalize_component [] RootDir)"
    by (auto simp: rooted_def normalize_component_def)
  show ?thesis
    unfolding cs(1) foldl_Cons
    by (rule foldl_normalize_rooted [OF start cs(2)]) (metis component_names cs(1) list.set_intros(2))
qed

lemma normalize_rooted: "has_root p \<Longrightarrow> rooted (components (normalize p))"
  using normalized_rooted [of p] by (simp add: normalize_def components_path_text rooted_resolved)

lemma foldl_normalize_names: "foldl normalize_component out (map Normal ns) = out @ map Normal ns"
  by (induction ns arbitrary: out) (simp_all add: normalize_component_def)

lemma normalize_fixed: "rooted (components p) \<Longrightarrow> normalize p = path_text (components p)"
  by (auto simp: normalize_def rooted_def foldl_normalize_names)
    (simp add: normalize_component_def foldl_normalize_names)

lemma normalize_idem: "has_root p \<Longrightarrow> normalize (normalize p) = normalize p"
  using normalize_fixed [OF normalize_rooted] rooted_resolved [OF normalized_rooted]
  by (simp add: normalize_def components_path_text)

section \<open>Stamps\<close>

lemma entry_from_fields_get:
  assumes "entry_from_fields de m = Inr e"
  obtains m' where "read_entry (JObj m') = Some e" "\<And>k. k \<noteq> str ''name'' \<Longrightarrow> obj_get m' k = obj_get m k"
  using assms by (auto simp: entry_from_fields_def Let_def split: option.splits if_splits)

lemma manifest_entry_stamps:
  assumes "manifest_entry de txt folder i v = Inr e"
  shows "is_workspace e \<and> en_dir e = Some folder"
proof -
  obtain m where "v = JObj m" "entry_from_fields de
      (obj_insert (obj_insert m (str ''_source'') (JStr (str ''workspace''))) (str ''_dir'') (JStr folder)) = Inr e"
    using assms by (auto simp: manifest_entry_def Let_def split: json.splits sum.splits)
  then obtain m' where m': "read_entry (JObj m') = Some e" "obj_get m' (str ''_source'') = Some (JStr (str ''workspace''))"
    "obj_get m' (str ''_dir'') = Some (JStr folder)"
    by (auto elim!: entry_from_fields_get simp: str_def)
  then have "entry_of_fields m' = Some e" by (simp add: read_entry_def)
  note entry_of_fields_source_scope_dir(1,2) [OF this]
  then show ?thesis
    using m'(2,3) by (auto simp: default_field_def opt_field_def read_source_def read_string_def as_str_def read_source_name_def
        is_workspace_def str_def split: option.splits if_splits)
qed

lemma collect_all:
  "collect f i xs = Inr ys \<Longrightarrow> (\<And>i x y. f i x = Inr y \<Longrightarrow> P y) \<Longrightarrow> list_all P ys"
  by (induction f i xs arbitrary: ys rule: collect.induct) (auto split: sum.splits)

lemma manifest_stamps:
  "read_workspace_manifest rf jp de folder = Inr es \<Longrightarrow> list_all (\<lambda>e. is_workspace e \<and> en_dir e = Some folder) es"
  using collect_all [where f = "manifest_entry de (path_join folder WORKSPACE_MANIFEST) folder"
      and P = "\<lambda>e. is_workspace e \<and> en_dir e = Some folder"]
  by (auto simp: read_workspace_manifest_def manifest_entry_stamps Let_def split: option.splits sum.splits)

section \<open>URIs of paths\<close>

lemma contains_text_skip: "c \<noteq> 37 \<Longrightarrow> contains_text (str ''%2f'') (c # s) = contains_text (str ''%2f'') s"
  by (simp add: starts_with_def str_def)

lemma lower_hex_digit: "n < 16 \<Longrightarrow> ascii_lower (hex_digit n) = (if n < 10 then 48 + n else 87 + n)"
  by (auto simp: hex_digit_def ascii_lower_def)

lemma lower_unescaped: "unreserved b \<Longrightarrow> ascii_lower b \<noteq> 37"
  by (auto simp: unreserved_def ascii_lower_def is_ascii_alphanumeric_def is_ascii_alphabetic_def is_ascii_digit_def)

lemma escaped:
  "unreserved b \<Longrightarrow> escape_byte b = [b]"
  "\<not> unreserved b \<Longrightarrow> escape_byte b = [37, hex_digit (b div 16), hex_digit (b mod 16)]"
  by (simp_all add: escape_byte_def)

lemma no_escaped_slash:
  "\<forall>b\<in>set bs. b < 256 \<Longrightarrow> \<not> contains_text (str ''%2f'') (map ascii_lower (concat (map escape_byte bs)))"
proof (induction bs)
  case (Cons b bs)
  let ?rest = "map ascii_lower (concat (map escape_byte bs))"
  have ih: "\<not> contains_text (str ''%2f'') ?rest" using Cons by simp
  show ?case
  proof (cases "unreserved b")
    case True
    then show ?thesis using ih by (simp add: escaped lower_unescaped contains_text_skip del: contains_text.simps)
  next
    case False
    let ?h = "ascii_lower (hex_digit (b div 16))" and ?l = "ascii_lower (hex_digit (b mod 16))"
    have "b < 256" using Cons.prems by simp
    then have b: "b div 16 < 16" "b mod 16 < 16" by simp_all
    have h: "?h \<noteq> 37" "?l \<noteq> 37" using b by (simp_all add: lower_hex_digit)
    have "b \<noteq> 47" using False by (auto simp: unreserved_def)
    then have "\<not> (?h = 50 \<and> ?l = 102)" using b by (simp add: lower_hex_digit split: if_splits) presburger
    then have "\<not> starts_with (37 # ?h # ?l # ?rest) (str ''%2f'')" by (simp add: starts_with_def str_def)
    moreover have "\<not> contains_text (str ''%2f'') (?h # ?l # ?rest)" using ih h by (simp only: contains_text_skip not_False_eq_True)
    ultimately have "\<not> contains_text (str ''%2f'') (37 # ?h # ?l # ?rest)" by (simp only: contains_text.simps) simp
    moreover have "ascii_lower 37 = 37" by (simp add: ascii_lower_def)
    ultimately show ?thesis using False by (simp add: escaped del: contains_text.simps)
  qed
qed (simp add: str_def)

lemma percent_bytes_escaped:
  "\<forall>b\<in>set bs. b < 256 \<Longrightarrow> percent_bytes (concat (map escape_byte bs)) = Some bs"
proof (induction bs)
  case (Cons b bs)
  then have ih: "percent_bytes (concat (map escape_byte bs)) = Some bs" and "b < 256" by auto
  then have b: "b div 16 < 16" "b mod 16 < 16" by simp_all
  show ?case
  proof (cases "unreserved b")
    case True
    with ih unreserved_ascii [OF True] show ?thesis by (simp add: escaped)
  next
    case False
    have "radix16 (hex_digit (b div 16)) (hex_digit (b mod 16)) = Some b"
      using hex_digit_value [OF b(1)] hex_digit_value [OF b(2)] by (simp add: radix16_def)
    with ih False show ?thesis by (simp add: escaped)
  qed
qed simp

lemma escaped_no_query: "b < 256 \<Longrightarrow> c \<in> set (escape_byte b) \<Longrightarrow> c \<noteq> 63 \<and> c \<noteq> 35"
proof -
  assume b: "b < 256" and c: "c \<in> set (escape_byte b)"
  have "hex_digit n \<noteq> 63 \<and> hex_digit n \<noteq> 35" if "n < 16" for n using that by (auto simp: hex_digit_def)
  moreover have "b \<noteq> 63 \<and> b \<noteq> 35" if "unreserved b"
    using that by (auto simp: unreserved_def is_ascii_alphanumeric_def is_ascii_alphabetic_def is_ascii_digit_def)
  ultimately show ?thesis using b c by (auto simp: escape_byte_def split: if_splits)
qed

lemma percent_decode_encode: "valid_text p \<Longrightarrow> percent_decode (percent_encode p) = Some p"
proof -
  assume valid: "valid_text p"
  note bytes = encode_utf8_bytes [OF this]
  have "\<forall>c\<in>set (percent_encode p). c < 128"
    using bytes escape_byte_ascii by (fastforce simp: percent_encode_def)
  then show ?thesis
    using percent_bytes_escaped [OF bytes]
    by (simp add: percent_decode_def encode_ascii percent_encode_def decode_encode_utf8 valid)
qed

lemma file_url_of_path:
  assumes "valid_text (47 # p)"
  shows "file_url_to_path (str ''//'' @ percent_encode (47 # p)) = Some (normalize (47 # p))"
proof -
  note bytes = encode_utf8_bytes [OF assms]
  let ?e = "percent_encode (47 # p)"
  have head: "?e = 47 # percent_encode p"
    by (simp add: percent_encode_def encode_char_def escape_byte_def unreserved_def)
  have "c \<noteq> 63 \<and> c \<noteq> 35" if "c \<in> set (str ''//'' @ ?e)" for c
  proof (cases "c \<in> set (str ''//'')")
    case False
    with that obtain b where "b \<in> set (encode_utf8 (47 # p))" "c \<in> set (escape_byte b)"
      by (auto simp: percent_encode_def)
    with bytes escaped_no_query show ?thesis by blast
  qed (auto simp: str_def)
  then have cut: "takeWhile (\<lambda>c. c \<noteq> 63 \<and> c \<noteq> 35) (str ''//'' @ ?e) = str ''//'' @ ?e"
    by (simp only: takeWhile_eq_all_conv) blast
  have split: "split_host (str ''//'' @ ?e) = ([], ?e)"
  proof -
    have "strip_prefix (str ''//'' @ ?e) (str ''//'') = Some ?e" by (simp only: strip_prefix_Some)
    then show ?thesis by (simp add: split_host_def head)
  qed
  have "\<not> contains_text (str ''%2f'') (to_ascii_lowercase ?e)"
    using no_escaped_slash [OF bytes] by (simp add: percent_encode_def to_ascii_lowercase_def)
  then show ?thesis
    unfolding file_url_to_path_def cut
    by (simp add: split percent_decode_encode [OF assms])
qed

section \<open>Properties\<close>

text \<open>
  C39: a workspace folder is the path its client's URI names. For every path, the URI an editor
  makes of it (\<open>file://\<close> and the percent-encoded path) reads as that path normalized: rooted,
  without \<open>.\<close>, \<open>..\<close> or empty components, and normal once and for all, so that a watched file
  and a folder's manifest compare equal whichever way they were written.
\<close>

theorem folder_uri_round_trip:
  assumes "valid_text p"
  shows "folder_path_of (str ''file://'' @ percent_encode (47 # p)) = Some (normalize (47 # p)) \<and>
    normalize (normalize (47 # p)) = normalize (47 # p) \<and> rooted (components (normalize (47 # p)))"
proof -
  have valid: "valid_text (47 # p)" using assms by (simp add: valid_text_def is_scalar_def)
  have "strip_prefix (str ''file:'' @ str ''//'' @ percent_encode (47 # p)) (str ''file:'') =
      Some (str ''//'' @ percent_encode (47 # p))"
    by (simp only: strip_prefix_Some)
  moreover have "str ''file://'' = str ''file:'' @ str ''//''" by (simp add: str_def)
  moreover have root: "has_root (47 # p)" by (simp add: has_root_def)
  ultimately show ?thesis
    using file_url_of_path [OF valid] normalize_idem [OF root] normalize_rooted [OF root]
    by (simp add: folder_path_of_def str_def)
qed

theorem folder_uri_round_trip_witness:
  "folder_path_of (str ''file://'' @ percent_encode (47 # str ''a/./b c/..'')) = Some (str ''/a'')"
proof -
  have valid: "valid_text (str ''a/./b c/..'')" by code_simp
  have "normalize (47 # str ''a/./b c/..'') = str ''/a''" by code_simp
  then show ?thesis using folder_uri_round_trip [OF valid] by simp
qed

text \<open>
  Every entry of a folder's manifest is the workspace's. Whatever the manifest says, its
  entries are stamped workspace-sourced with the folder as their sandbox: a manifest cannot
  pass for the bundled or the user tier, nor take another folder's files. One that cannot be
  read adds none.
\<close>

theorem manifest_entries_stamped:
  "case read_workspace_manifest rf jp de folder of
     Inl err \<Rightarrow> rf (path_join folder WORKSPACE_MANIFEST) \<noteq> None
   | Inr es \<Rightarrow> list_all (\<lambda>e. is_workspace e \<and> en_dir e = Some folder) es \<and>
       (if rf (path_join folder WORKSPACE_MANIFEST) = None then es = [] else True)"
  using manifest_stamps [of rf jp de folder]
  by (auto simp: read_workspace_manifest_def Let_def split: option.splits sum.splits)

section \<open>Divergences from the canonical path functions\<close>

text \<open>
  Two climbs above a relative start cancel each other instead of adding up, and a plus sign
  passes for a hexadecimal digit: \<open>path.normalize('../..')\<close> is \<open>'../..'\<close>, and
  \<open>decodeURIComponent('%+1')\<close> throws.
\<close>

theorem normalize_climbs_cancel: "normalize (str ''../..'') = [] \<and> normalize (str ''../../..'') = str ''..''"
  by code_simp

theorem percent_decode_takes_plus: "percent_decode (str ''a%+1'') = Some [97, 1]"
  by code_simp

end
