(* ===== verification/Protocol.thy ===== *)
theory Protocol
  imports Analyze Jsonrpc
begin

text \<open>
  The shapes of the protocol (\<open>rs/src/server.rs\<close> and the serde derives of \<open>types.rs\<close>,
  \<open>outline.rs\<close>, \<open>completion.rs\<close> and \<open>hover.rs\<close>): the params the handlers read, the results they
  answer with, the capabilities and the negotiated encoding. \<open>None\<close> of a reader is serde's
  refusal.
\<close>

section \<open>Reading params\<close>

text \<open>
  A derived \<open>Deserialize\<close> of a structure of \<open>n\<close> fields: an object by name, unknown keys
  ignored, or an array by position, refused when it is longer.
\<close>

definition struct_of :: "nat \<Rightarrow> ((nat \<Rightarrow> rstr \<Rightarrow> json option) \<Rightarrow> 'a option) \<Rightarrow> json \<Rightarrow> 'a option" where
  "struct_of n f v = (case v of
      JObj m \<Rightarrow> f (\<lambda>i k. obj_get m k)
    | JArr xs \<Rightarrow> if length xs \<le> n then f (\<lambda>i k. index xs i) else None
    | _ \<Rightarrow> None)"

definition required :: "(json \<Rightarrow> 'a option) \<Rightarrow> json option \<Rightarrow> 'a option" where
  "required f v = Option.bind v f"

definition read_u32 :: "json \<Rightarrow> u32 option" where
  "read_u32 v = (case v of
      JNum (NInt i) \<Rightarrow> if 0 \<le> i \<and> i < 2 ^ 32 then Some (of_int i) else None
    | _ \<Rightarrow> None)"

definition read_position :: "json \<Rightarrow> position option" where
  "read_position = struct_of 2 (\<lambda>fld. do {
     line \<leftarrow> required read_u32 (fld 0 (str ''line''));
     character \<leftarrow> required read_u32 (fld 1 (str ''character''));
     Some (Position line character)
   })"

definition read_range :: "json \<Rightarrow> lsp_range option" where
  "read_range = struct_of 2 (\<lambda>fld. do {
     start \<leftarrow> required read_position (fld 0 (str ''start''));
     fin \<leftarrow> required read_position (fld 1 (str ''end''));
     Some (Range start fin)
   })"

record text_document_item =
  ti_uri :: rstr
  ti_language_id :: rstr
  ti_version :: int
  ti_text :: rstr

definition read_text_document_item :: "json \<Rightarrow> text_document_item option" where
  "read_text_document_item = struct_of 4 (\<lambda>fld. do {
     uri \<leftarrow> required read_string (fld 0 (str ''uri''));
     lang \<leftarrow> required read_string (fld 1 (str ''languageId''));
     version \<leftarrow> required read_i64 (fld 2 (str ''version''));
     txt \<leftarrow> required read_string (fld 3 (str ''text''));
     Some \<lparr>ti_uri = uri, ti_language_id = lang, ti_version = version, ti_text = txt\<rparr>
   })"

definition read_did_open :: "json \<Rightarrow> text_document_item option" where
  "read_did_open = struct_of 1 (\<lambda>fld. required read_text_document_item (fld 0 (str ''textDocument'')))"

definition read_text_document_identifier :: "json \<Rightarrow> rstr option" where
  "read_text_document_identifier = struct_of 1 (\<lambda>fld. required read_string (fld 0 (str ''uri'')))"

definition read_versioned_identifier :: "json \<Rightarrow> (rstr \<times> int) option" where
  "read_versioned_identifier = struct_of 2 (\<lambda>fld. do {
     uri \<leftarrow> required read_string (fld 0 (str ''uri''));
     version \<leftarrow> required read_i64 (fld 1 (str ''version''));
     Some (uri, version)
   })"

definition read_content_change :: "json \<Rightarrow> (lsp_range option \<times> rstr) option" where
  "read_content_change = struct_of 2 (\<lambda>fld. do {
     rng \<leftarrow> optional_member read_range (fld 0 (str ''range''));
     txt \<leftarrow> required read_string (fld 1 (str ''text''));
     Some (rng, txt)
   })"

definition read_list :: "(json \<Rightarrow> 'a option) \<Rightarrow> json \<Rightarrow> 'a list option" where
  "read_list f v = (case v of JArr xs \<Rightarrow> read_all f xs | _ \<Rightarrow> None)"

record did_change_params =
  dc_uri :: rstr
  dc_version :: int
  dc_changes :: "(lsp_range option \<times> rstr) list"

definition read_did_change :: "json \<Rightarrow> did_change_params option" where
  "read_did_change = struct_of 2 (\<lambda>fld. do {
     (uri, version) \<leftarrow> required read_versioned_identifier (fld 0 (str ''textDocument''));
     changes \<leftarrow> required (read_list read_content_change) (fld 1 (str ''contentChanges''));
     Some \<lparr>dc_uri = uri, dc_version = version, dc_changes = changes\<rparr>
   })"

definition read_text_document_params :: "json \<Rightarrow> rstr option" where
  "read_text_document_params =
     struct_of 1 (\<lambda>fld. required read_text_document_identifier (fld 0 (str ''textDocument'')))"

record position_params =
  pp_uri :: rstr
  pp_position :: position

definition read_position_params :: "json \<Rightarrow> position_params option" where
  "read_position_params = struct_of 2 (\<lambda>fld. do {
     uri \<leftarrow> required read_text_document_identifier (fld 0 (str ''textDocument''));
     p \<leftarrow> required read_position (fld 1 (str ''position''));
     Some \<lparr>pp_uri = uri, pp_position = p\<rparr>
   })"

definition read_file_event :: "json \<Rightarrow> rstr option" where
  "read_file_event = struct_of 1 (\<lambda>fld. required read_string (fld 0 (str ''uri'')))"

definition read_watched_files :: "json \<Rightarrow> rstr list option" where
  "read_watched_files = struct_of 1 (\<lambda>fld. (case fld 0 (str ''changes'') of
      None \<Rightarrow> Some []
    | Some v \<Rightarrow> read_list read_file_event v))"

section \<open>Writing results\<close>

definition obj :: "(string \<times> json) list \<Rightarrow> json" where
  "obj fs = JObj (map (\<lambda>(k, v). (str k, v)) fs)"

definition num :: "u32 \<Rightarrow> json" where
  "num w = JNum (NInt (int (unat w)))"

definition position_to_json :: "position \<Rightarrow> json" where
  "position_to_json p = obj [(''line'', num (pos_line p)), (''character'', num (pos_character p))]"

definition range_to_json :: "lsp_range \<Rightarrow> json" where
  "range_to_json r = obj [(''start'', position_to_json (range_start r)), (''end'', position_to_json (range_end r))]"

definition optional :: "string \<Rightarrow> json option \<Rightarrow> (string \<times> json) list" where
  "optional k v = (case v of None \<Rightarrow> [] | Some x \<Rightarrow> [(k, x)])"

definition diagnostic_to_json :: "diagnostic \<Rightarrow> json" where
  "diagnostic_to_json g = obj ([(''range'', range_to_json (diag_range g)),
     (''severity'', JNum (NInt (int (diag_severity g))))] @
     optional ''code'' (map_option JStr (diag_code g)) @
     [(''source'', JStr (diag_source g)), (''message'', JStr (diag_message g))] @
     optional ''codeDescription'' (map_option (\<lambda>h. obj [(''href'', JStr h)]) (diag_href g)))"

fun symbol_to_json :: "document_symbol \<Rightarrow> json" where
  "symbol_to_json (Symbol name kind rng sel children) =
     obj [(''name'', JStr name), (''kind'', num kind), (''range'', range_to_json rng),
       (''selectionRange'', range_to_json sel), (''children'', JArr (map symbol_to_json children))]"

definition completion_item_to_json :: "completion_item \<Rightarrow> json" where
  "completion_item_to_json i = obj ([(''label'', JStr (ci_label i)), (''kind'', num (ci_kind i))] @
     optional ''detail'' (map_option JStr (ci_detail i)) @
     optional ''insertText'' (map_option JStr (ci_insert_text i)))"

definition hover_to_json :: "hover_result \<Rightarrow> json" where
  "hover_to_json h = obj ([(''contents'', obj [(''kind'', JStr (mc_kind (hv_contents h))),
       (''value'', JStr (mc_value (hv_contents h)))])] @
     optional ''range'' (map_option range_to_json (hv_range h)))"

section \<open>Capabilities\<close>

definition DEBOUNCE_MS :: nat where "DEBOUNCE_MS = 150"

definition WATCHED_GLOBS :: "rstr list" where
  "WATCHED_GLOBS = [str ''**/.tabnas/lsp.json'', str ''**/*.{abnf,ebnf,gbnf}'', str ''**/*.json'']"

definition WATCH_REGISTRATION_ID :: rstr where
  "WATCH_REGISTRATION_ID = str ''tabnas-lsp/watched-files''"

definition VERSION :: rstr where
  "VERSION = str ''0.1.7''"

definition capabilities :: "position_encoding \<Rightarrow> json" where
  "capabilities e = obj [
     (''positionEncoding'', JStr (enc_as_str e)),
     (''textDocumentSync'', obj [(''openClose'', JBool True), (''change'', JNum (NInt 2))]),
     (''completionProvider'', obj [(''triggerCharacters'', JArr (map JStr trigger_characters))]),
     (''documentSymbolProvider'', JBool True),
     (''semanticTokensProvider'', obj [
        (''legend'', obj [
           (''tokenTypes'', JArr (map (\<lambda>k. JStr (type_name k)) legend)),
           (''tokenModifiers'', JArr [])]),
        (''full'', JBool True)]),
     (''hoverProvider'', JBool True)]"

definition negotiate_encoding :: "json \<Rightarrow> position_encoding" where
  "negotiate_encoding client =
     (case Option.bind (Option.bind (value_get client (str ''general''))
             (\<lambda>g. value_get g (str ''positionEncodings''))) as_array of
        Some offered \<Rightarrow>
          if list_ex (\<lambda>n. n = enc_as_str Utf8) (List.map_filter as_str offered) then Utf8 else Utf16
      | None \<Rightarrow> Utf16)"

text \<open>The publication of a document's diagnostics; \<open>didClose\<close> stamps no version.\<close>

definition publish_params :: "rstr \<Rightarrow> int option \<Rightarrow> diagnostic list \<Rightarrow> json" where
  "publish_params uri version ds = obj ([(''uri'', JStr uri)] @
     optional ''version'' (map_option (\<lambda>v. JNum (NInt v)) version) @
     [(''diagnostics'', JArr (map diagnostic_to_json ds))])"

section \<open>Wire positions survive\<close>

lemma obj_get_obj [simp]: "obj_get (map (\<lambda>(k, v). (str k, v)) ((k', v') # fs)) k =
    (if str k' = k then Some v' else obj_get (map (\<lambda>(k, v). (str k, v)) fs) k)"
  by simp

lemma read_u32_num [simp]: "read_u32 (num w) = Some w"
proof -
  have "int (unat w) \<le> int (2 ^ 32 - 1)"
    using unat_u32_le [of w] unfolding u32_max_def by (simp only: of_nat_le_iff)
  then have "int (unat w) < 4294967296" by (simp only: of_nat_diff one_le_power) simp
  then show ?thesis by (simp add: read_u32_def num_def)
qed

lemma read_position_json [simp]: "read_position (position_to_json p) = Some p"
  by (cases p) (simp add: read_position_def position_to_json_def struct_of_def obj_def required_def)

lemma read_range_json [simp]: "read_range (range_to_json r) = Some r"
  by (cases r) (simp add: read_range_def range_to_json_def struct_of_def obj_def required_def)

lemma symbol_to_json_children:
  assumes "symbol_to_json s = JObj fs"
  shows "obj_get fs (str ''children'') = Some (JArr (map symbol_to_json (ds_children s)))"
    "obj_get fs (str ''name'') = Some (JStr (ds_name s))"
    "Option.bind (obj_get fs (str ''range'')) read_range = Some (ds_range s)"
    "Option.bind (obj_get fs (str ''selectionRange'')) read_range = Some (ds_selection s)"
  using assms by (cases s; auto simp: obj_def)+

end
