(* ===== verification/Server.thy ===== *)
theory Server
  imports Protocol Instances Loaders Workspace "HOL-Library.AList" "HOL-Library.List_Lexorder"
begin

text \<open>
  The protocol front-end (\<open>rs/src/server.rs\<close>): the server's state and its handlers.

  The state is the source's, with two additions: \<open>sv_open\<close> are the keys of the document store in
  the order a loop over it sees them (a \<open>HashMap\<close>'s order is unspecified), and \<open>sv_sent\<close> are
  the messages handed to the writer so far. A handler answers the source's \<open>Result<(), RpcError>\<close>
  as the error, if any, and the new state.

  Parameters, in the record \<open>host\<close>: the engine (one parse and the continuations, each with the
  budget check installed on the instance), how its errors serialize, the texts of serde's
  refusals, the JSON codec, Unicode lower-casing, the files as they are at a time, and the
  payload of a panic. Time is a number; a handler reads the clock once (\<open>now\<close>), a parse's \<open>k\<close>-th
  look at the clock is \<open>ho_look k\<close> after its start. The fill of a document's line index by a
  read is not tracked: filled or not, the index is the same (\<open>index_ok\<close>).
\<close>

section \<open>Configuration and host\<close>

text \<open>\<open>cf_make t n e\<close>: the host's \<open>MakeInstance\<close>, at its \<open>n\<close>-th call, with the shared trust flag.\<close>

record 'g config =
  cf_entries :: "entry list"
  cf_user_entries :: "entry list"
  cf_workspace_entries :: "entry list"
  cf_make :: "bool \<Rightarrow> nat \<Rightarrow> entry \<Rightarrow> 'g made"
  cf_trust :: bool
  cf_debounce :: nat
  cf_max_bytes :: "nat option"
  cf_deadline :: "nat option"
  cf_server_name :: rstr

definition config_new :: "(bool \<Rightarrow> nat \<Rightarrow> entry \<Rightarrow> 'g made) \<Rightarrow> 'g config" where
  "config_new mk = \<lparr>cf_entries = [], cf_user_entries = [], cf_workspace_entries = [], cf_make = mk,
     cf_trust = False, cf_debounce = DEBOUNCE_MS, cf_max_bytes = None, cf_deadline = None,
     cf_server_name = str ''tabnas-lsp''\<rparr>"

text \<open>A budget: how many steps pass between two looks, and whether the \<open>k\<close>-th look lets the parse go on.\<close>

type_synonym budget = "nat \<times> (nat \<Rightarrow> bool)"

record ('g, 'v, 'e, 'tin) host =
  ho_parse :: "'g \<Rightarrow> budget option \<Rightarrow> rstr \<Rightarrow> engine_event list \<times> ('v, 'e) parse_recovery option"
  ho_continuations :: "'g \<Rightarrow> budget option \<Rightarrow> rstr \<Rightarrow> engine_event list \<times> rstr list option"
  ho_tokens :: "'g \<Rightarrow> 'tin tokens_of_grammar"
  ho_error_json :: "'e \<Rightarrow> json option"
  ho_code :: "'e \<Rightarrow> rstr"
  ho_detail :: "'e \<Rightarrow> rstr"
  ho_panic :: "'g \<Rightarrow> rstr \<Rightarrow> rstr option"
  ho_unwound :: "message \<Rightarrow> rstr option"
  ho_look :: "nat \<Rightarrow> nat"
  ho_lower :: "rstr \<Rightarrow> rstr"
  ho_text :: "json \<Rightarrow> rstr"
  ho_hash :: "rstr \<Rightarrow> rstr"
  ho_files :: files
  ho_read :: "nat \<Rightarrow> rstr \<Rightarrow> rstr option"
  ho_json :: "rstr \<Rightarrow> rstr + json"
  ho_refusal :: "json \<Rightarrow> rstr"
  ho_bad_params :: "rstr \<Rightarrow> json \<Rightarrow> rstr"

section \<open>Gated instances\<close>

definition DEADLINE_CHECK_EVERY :: nat where "DEADLINE_CHECK_EVERY = 16"

text \<open>An instance and the budget check installed on it, if any.\<close>

record 'g gated =
  gt_engine :: 'g
  gt_budget :: "nat option"

definition refused_module :: "entry \<Rightarrow> rstr \<Rightarrow> load_error" where
  "refused_module e name = load_error_new (str ''workspace entry '' @ language_id e @ str '' loads module '' @
     name @ str '', which runs code from the workspace. Refused: set trustWorkspaceModules in '' @
     str ''initializationOptions to allow it.'')"

definition gated_make_instance ::
  "(bool \<Rightarrow> nat \<Rightarrow> entry \<Rightarrow> 'g made) \<Rightarrow> bool \<Rightarrow> nat option \<Rightarrow> nat \<Rightarrow> entry \<Rightarrow> 'g gated made" where
  "gated_make_instance inner trust deadline n e =
     (let made = (case inner trust n e of
            Made g \<Rightarrow> Made \<lparr>gt_engine = g, gt_budget = map_option (\<lambda>_. DEADLINE_CHECK_EVERY) deadline\<rparr>
          | MakeFailed err \<Rightarrow> MakeFailed err
          | MakePanicked p \<Rightarrow> MakePanicked p)
      in case entry_load e of
           LoadModule name \<Rightarrow> if is_workspace e \<and> \<not> trust then MakeFailed (refused_module e name) else made
         | _ \<Rightarrow> made)"

section \<open>The state\<close>

record ('g, 'v, 'e) server =
  sv_config :: "'g config"
  sv_conn :: connection
  sv_router :: router
  sv_docs :: document_store
  sv_open :: "rstr list"
  sv_instances :: "'g gated instances"
  sv_analyses :: "rstr \<rightharpoonup> int \<times> ('v, 'e) analysis"
  sv_pending :: "(rstr \<times> nat) list"
  sv_published :: "rstr set"
  sv_encoding :: position_encoding
  sv_folders :: "rstr list"
  sv_init_languages :: "entry list"
  sv_trust :: bool
  sv_slot :: "nat option"
  sv_next_id :: int
  sv_shutdown :: bool
  sv_exited :: bool
  sv_sent :: "message list"

definition server_with_trust :: "'g config \<Rightarrow> connection \<Rightarrow> bool \<Rightarrow> ('g, 'v, 'e) server option" where
  "server_with_trust cfg conn trust =
     map_option (\<lambda>router.
       \<lparr>sv_config = cfg, sv_conn = conn, sv_router = router, sv_docs = store_new, sv_open = [],
        sv_instances = instances_new, sv_analyses = (\<lambda>_. None), sv_pending = [], sv_published = {},
        sv_encoding = Utf16, sv_folders = [], sv_init_languages = [], sv_trust = (trust \<or> cf_trust cfg),
        sv_slot = None, sv_next_id = 1, sv_shutdown = False, sv_exited = False, sv_sent = []\<rparr>)
       (router_new (cf_entries cfg) (cf_workspace_entries cfg) (cf_user_entries cfg))"

definition server_new :: "'g config \<Rightarrow> connection \<Rightarrow> ('g, 'v, 'e) server option" where
  "server_new cfg conn = server_with_trust cfg conn False"

section \<open>Talking to the client\<close>

definition send_message :: "('g, 'v, 'e, 'tin) host \<Rightarrow> message \<Rightarrow> ('g, 'v, 'e) server \<Rightarrow> rpc_error option \<times> ('g, 'v, 'e) server" where
  "send_message h m s =
     (let (r, c) = send (ho_text h) m (sv_conn s) in (r, s\<lparr>sv_conn := c, sv_sent := sv_sent s @ [m]\<rparr>))"

definition LOG_ERROR :: int where "LOG_ERROR = 1"
definition LOG_WARNING :: int where "LOG_WARNING = 2"

text \<open>\<open>window/logMessage\<close>, best effort.\<close>

definition log_message :: "('g, 'v, 'e, 'tin) host \<Rightarrow> int \<Rightarrow> rstr \<Rightarrow> ('g, 'v, 'e) server \<Rightarrow> ('g, 'v, 'e) server" where
  "log_message h kind txt s = snd (send_message h
     (message_notification (str ''window/logMessage'')
       (Some (obj [(''type'', JNum (NInt kind)), (''message'', JStr txt)]))) s)"

definition answer_request :: "('g, 'v, 'e, 'tin) host \<Rightarrow> json option \<Rightarrow> json \<Rightarrow> ('g, 'v, 'e) server \<Rightarrow> rpc_error option \<times> ('g, 'v, 'e) server" where
  "answer_request h i result s = (case i of
      Some i' \<Rightarrow> send_message h (message_response i' result) s
    | None \<Rightarrow> (None, s))"

definition bad_params :: "('g, 'v, 'e, 'tin) host \<Rightarrow> json option \<Rightarrow> rstr \<Rightarrow> json \<Rightarrow> ('g, 'v, 'e) server \<Rightarrow> rpc_error option \<times> ('g, 'v, 'e) server" where
  "bad_params h i meth params s =
     (let txt = str ''invalid params for '' @ meth @ str '': '' @ ho_bad_params h meth params
      in case i of
           Some i' \<Rightarrow> send_message h (error_response i' INVALID_PARAMS txt) s
         | None \<Rightarrow> (None, log_message h LOG_ERROR (str ''tabnas-lsp: '' @ txt) s))"

definition publish :: "('g, 'v, 'e, 'tin) host \<Rightarrow> rstr \<Rightarrow> int option \<Rightarrow> diagnostic list \<Rightarrow> ('g, 'v, 'e) server \<Rightarrow> rpc_error option \<times> ('g, 'v, 'e) server" where
  "publish h uri version ds s = send_message h
     (message_notification (str ''textDocument/publishDiagnostics'') (Some (publish_params uri version ds))) s"

section \<open>Scheduling\<close>

definition schedule :: "nat \<Rightarrow> rstr \<Rightarrow> ('g, 'v, 'e) server \<Rightarrow> ('g, 'v, 'e) server" where
  "schedule now uri s = s\<lparr>sv_pending := AList.update uri (now + cf_debounce (sv_config s)) (sv_pending s)\<rparr>"

definition next_deadline :: "('g, 'v, 'e) server \<Rightarrow> nat option" where
  "next_deadline s = (case map snd (sv_pending s) of [] \<Rightarrow> None | t # ts \<Rightarrow> Some (foldl min t ts))"

definition forget_analysis :: "rstr \<Rightarrow> ('g, 'v, 'e) server \<Rightarrow> ('g, 'v, 'e) server" where
  "forget_analysis uri s = s\<lparr>sv_analyses := (sv_analyses s)(uri := None)\<rparr>"

definition route :: "('g, 'v, 'e, 'tin) host \<Rightarrow> ('g, 'v, 'e) server \<Rightarrow> doc \<Rightarrow> entry option" where
  "route h s d = rs_entry (resolve (ho_lower h) (sv_router s) (doc_language_id d) (doc_uri d))"

section \<open>Instances\<close>

definition get_instance :: "('g, 'v, 'e, 'tin) host \<Rightarrow> entry \<Rightarrow> ('g, 'v, 'e) server \<Rightarrow>
    (load_error + 'g gated parser option) \<times> ('g, 'v, 'e) server" where
  "get_instance h e s =
     (let mk = gated_make_instance (cf_make (sv_config s)) (sv_trust s) (cf_deadline (sv_config s));
          (got, insts) = instances_get (ho_text h) (ho_hash h) mk e None (sv_instances s)
      in (got, s\<lparr>sv_instances := insts\<rparr>))"

definition invalidate_entry :: "('g, 'v, 'e, 'tin) host \<Rightarrow> entry \<Rightarrow> ('g, 'v, 'e) server \<Rightarrow> ('g, 'v, 'e) server" where
  "invalidate_entry h e s = s\<lparr>sv_instances := invalidate (ho_text h) (ho_hash h) e (sv_instances s)\<rparr>"

text \<open>The check installed on an instance: the slot is read at each look.\<close>

definition budget_of :: "('g, 'v, 'e, 'tin) host \<Rightarrow> nat \<Rightarrow> nat option \<Rightarrow> 'g gated \<Rightarrow> budget option" where
  "budget_of h now slot g = map_option
     (\<lambda>every. (every, \<lambda>k. case slot of None \<Rightarrow> True | Some at \<Rightarrow> now + ho_look h k < at)) (gt_budget g)"

text \<open>\<open>None\<close> of \<open>f\<close> is an unwinding that passes \<open>with_deadline\<close>, which then leaves the slot set.\<close>

definition with_deadline :: "nat \<Rightarrow> (('g, 'v, 'e) server \<Rightarrow> 'a option \<times> ('g, 'v, 'e) server) \<Rightarrow>
    ('g, 'v, 'e) server \<Rightarrow> 'a option \<times> ('g, 'v, 'e) server" where
  "with_deadline now f s = (case cf_deadline (sv_config s) of
      None \<Rightarrow> f s
    | Some limit \<Rightarrow>
        (case f (s\<lparr>sv_slot := Some (now + limit)\<rparr>) of
           (None, s') \<Rightarrow> (None, s')
         | (Some out, s') \<Rightarrow> (Some out, s'\<lparr>sv_slot := None\<rparr>)))"

section \<open>Analysis\<close>

definition internal_failure :: "('g, 'v, 'e, 'tin) host \<Rightarrow> ('v, 'e) analysis \<Rightarrow> rstr option" where
  "internal_failure h a = map_option
     (\<lambda>e. if ho_detail h e = [] then str ''internal error'' else ho_detail h e)
     (find (\<lambda>e. ho_code h e = str ''internal'') (an_errors a))"

definition oversized :: "entry \<Rightarrow> nat \<Rightarrow> nat \<Rightarrow> diagnostic" where
  "oversized e n limit =
     \<lparr>diag_range = range_empty (Position 0 0), diag_severity = severity_error, diag_code = None,
      diag_source = str ''tabnas:'' @ language_id e,
      diag_message = str ''document is '' @ show_nat n @ str '' bytes, larger than the '' @
        show_nat limit @ str ''-byte limit: not analyzed'',
      diag_href = None\<rparr>"

definition over_limit :: "('g, 'v, 'e) server \<Rightarrow> doc \<Rightarrow> nat option" where
  "over_limit s d = (case cf_max_bytes (sv_config s) of
      Some limit \<Rightarrow> if limit < byte_len (doc_text d) then Some limit else None
    | None \<Rightarrow> None)"

text \<open>\<open>catch_unwind(analyze(\<dots>))\<close>: the inner \<open>None\<close> is the caught panic.\<close>

definition analyze_caught :: "('g, 'v, 'e, 'tin) host \<Rightarrow> nat \<Rightarrow> 'g gated parser \<Rightarrow> entry \<Rightarrow> doc \<Rightarrow> ('g, 'v, 'e) server \<Rightarrow>
    ('v, 'e) analysis option option \<times> ('g, 'v, 'e) server" where
  "analyze_caught h now inst e d s =
     (let engine = (\<lambda>g src. ho_parse h (gt_engine g) (budget_of h now (sv_slot s) g) src);
          (parsed, insts) = instances_parse engine inst (doc_text d) (sv_instances s);
          a = Option.bind parsed (\<lambda>answer. analyze (ho_error_json h) (\<lambda>_. answer) e d)
      in (Some a, s\<lparr>sv_instances := insts\<rparr>))"

definition failure_of :: "('g, 'v, 'e, 'tin) host \<Rightarrow> 'g gated parser \<Rightarrow> doc \<Rightarrow> ('v, 'e) analysis option \<Rightarrow> rstr option" where
  "failure_of h inst d a = (case a of
      None \<Rightarrow> Some (panic_message (ho_panic h (gt_engine (ps_engine inst)) (doc_text d)))
    | Some a' \<Rightarrow> internal_failure h a')"

text \<open>The end of \<open>run_analysis\<close>: publish, then keep the analysis unless the parse failed.\<close>

definition publish_analysis :: "('g, 'v, 'e, 'tin) host \<Rightarrow> rstr \<Rightarrow> int \<Rightarrow> ('v, 'e) analysis \<Rightarrow> ('g, 'v, 'e) server \<Rightarrow> rpc_error option \<times> ('g, 'v, 'e) server" where
  "publish_analysis h uri version a s =
     (let s1 = s\<lparr>sv_published :=
            (if an_diagnostics a = [] then sv_published s - {uri} else insert uri (sv_published s))\<rparr>
      in case publish h uri (Some version) (an_diagnostics a) s1 of
           (Some err, s2) \<Rightarrow> (Some err, s2)
         | (None, s2) \<Rightarrow>
             (None, if an_failed a then s2
                    else s2\<lparr>sv_analyses := (sv_analyses s2)(uri \<mapsto> (version, a))\<rparr>))"

definition analyze_document :: "('g, 'v, 'e, 'tin) host \<Rightarrow> nat \<Rightarrow> rstr \<Rightarrow> 'g gated parser \<Rightarrow> entry \<Rightarrow> doc \<Rightarrow> ('g, 'v, 'e) server \<Rightarrow> rpc_error option \<times> ('g, 'v, 'e) server" where
  "analyze_document h now uri inst e d s =
     (case with_deadline now (analyze_caught h now inst e d) s of
        (out, s1) \<Rightarrow>
          (let a = Option.bind out id in
           case failure_of h inst d a of
             Some failure \<Rightarrow>
               (let s2 = s1\<lparr>sv_instances := record_failure (ho_text h) (ho_hash h) e None (sv_instances s1)\<rparr>
                in (None, log_message h LOG_ERROR (str ''tabnas-lsp: analysis failed ('' @ language_id e @
                     str ''): '' @ failure) s2))
           | None \<Rightarrow>
               (case a of
                  None \<Rightarrow> (None, s1)
                | Some a' \<Rightarrow> publish_analysis h uri (doc_version d) a' s1)))"

definition run_analysis :: "('g, 'v, 'e, 'tin) host \<Rightarrow> nat \<Rightarrow> rstr \<Rightarrow> ('g, 'v, 'e) server \<Rightarrow> rpc_error option \<times> ('g, 'v, 'e) server" where
  "run_analysis h now uri s = (case store_get (sv_docs s) uri of
      None \<Rightarrow> (None, s)
    | Some d \<Rightarrow>
      (case route h s d of
         None \<Rightarrow>
           if uri \<in> sv_published s
           then publish h uri (Some (doc_version d)) [] (s\<lparr>sv_published := sv_published s - {uri}\<rparr>)
           else (None, s)
       | Some e \<Rightarrow>
         (case over_limit s d of
            Some limit \<Rightarrow>
              publish h uri (Some (doc_version d)) [oversized e (byte_len (doc_text d)) limit]
                ((forget_analysis uri s)\<lparr>sv_published := insert uri (sv_published s)\<rparr>)
          | None \<Rightarrow>
            (case get_instance h e s of
               (Inr (Some inst), s1) \<Rightarrow> analyze_document h now uri inst e d s1
             | (Inr None, s1) \<Rightarrow> (None, s1)
             | (Inl err, s1) \<Rightarrow>
                 (None, log_message h LOG_ERROR
                    (str ''tabnas-lsp: grammar load failed: '' @ load_error_text err) s1)))))"

text \<open>The loop over the due documents, which a failing write ends.\<close>

fun analyze_each :: "('g, 'v, 'e, 'tin) host \<Rightarrow> nat \<Rightarrow> rstr list \<Rightarrow> ('g, 'v, 'e) server \<Rightarrow> rpc_error option \<times> ('g, 'v, 'e) server" where
  "analyze_each h now [] s = (None, s)"
| "analyze_each h now (uri # uris) s =
     (case run_analysis h now uri (s\<lparr>sv_pending := AList.delete uri (sv_pending s)\<rparr>) of
        (Some err, s') \<Rightarrow> (Some err, s')
      | (None, s') \<Rightarrow> analyze_each h now uris s')"

text \<open>Strings order by their UTF-8 bytes, which is the order of their scalars.\<close>

definition in_order :: "(rstr \<times> nat) list \<Rightarrow> rstr list" where
  "in_order due = map snd (sort (map (\<lambda>(uri, at). (at, uri)) due))"

definition analyze_due :: "('g, 'v, 'e, 'tin) host \<Rightarrow> nat \<Rightarrow> ('g, 'v, 'e) server \<Rightarrow> rpc_error option \<times> ('g, 'v, 'e) server" where
  "analyze_due h now s = analyze_each h now (in_order (filter (\<lambda>(uri, at). at \<le> now) (sv_pending s))) s"

definition flush :: "('g, 'v, 'e, 'tin) host \<Rightarrow> nat \<Rightarrow> ('g, 'v, 'e) server \<Rightarrow> rpc_error option \<times> ('g, 'v, 'e) server" where
  "flush h now s = analyze_each h now (in_order (sv_pending s)) (s\<lparr>sv_pending := []\<rparr>)"

section \<open>Views of the current analysis\<close>

definition current_analysis :: "('g, 'v, 'e) server \<Rightarrow> rstr \<Rightarrow> ('v, 'e) analysis option" where
  "current_analysis s uri = Option.bind (store_get (sv_docs s) uri) (\<lambda>d.
     case sv_analyses s uri of
       Some (version, a) \<Rightarrow> if version = doc_version d then Some a else None
     | None \<Rightarrow> None)"

definition document_symbols :: "('g, 'v, 'e) server \<Rightarrow> rstr \<Rightarrow> json" where
  "document_symbols s uri = (case current_analysis s uri of
      Some a \<Rightarrow> JArr (map symbol_to_json (an_outline a)) | None \<Rightarrow> JArr [])"

definition semantic_tokens_full :: "('g, 'v, 'e) server \<Rightarrow> rstr \<Rightarrow> json" where
  "semantic_tokens_full s uri = obj [(''data'',
     (case Option.bind (current_analysis s uri) an_semantic_tokens of
        None \<Rightarrow> JArr [] | Some tokens \<Rightarrow> JArr (map num (stk_data tokens))))]"

text \<open>
  The query of \<open>completion\<close> under the parse lock: no collector is active, so the events of its
  internal parse reach none, and the slot is what it was (\<open>without_collector_slot\<close>). The
  inner \<open>None\<close> is the panic caught inside the lock.
\<close>

definition continuations_query :: "('g, 'v, 'e, 'tin) host \<Rightarrow> nat \<Rightarrow> 'g gated parser \<Rightarrow> ('g, 'v, 'e) server \<Rightarrow> rstr \<Rightarrow> rstr list option" where
  "continuations_query h now inst s src =
     (let g = ps_engine inst;
          query = (\<lambda>slot.
            let (events, names) = ho_continuations h (gt_engine g) (budget_of h now (sv_slot s) g) src
            in (Some names, foldl (deliver inst) slot events))
      in Option.bind (fst (with_parse_lock query (sv_instances s))) id)"

text \<open>The outer option of \<open>hover_at\<close> and \<open>complete\<close> is a panic.\<close>

definition hover_at :: "('g, 'v, 'e, 'tin) host \<Rightarrow> position_params \<Rightarrow> ('g, 'v, 'e) server \<Rightarrow> json option" where
  "hover_at h p s = (case (store_get (sv_docs s) (pp_uri p), current_analysis s (pp_uri p)) of
      (Some d, Some a) \<Rightarrow>
        (case route h s d of
           None \<Rightarrow> Some JNull
         | Some e \<Rightarrow> map_option (\<lambda>r. case r of None \<Rightarrow> JNull | Some hv \<Rightarrow> hover_to_json hv)
             (hover a e d (pp_position p)))
    | _ \<Rightarrow> Some JNull)"

definition complete :: "('g, 'v, 'e, 'tin) host \<Rightarrow> nat \<Rightarrow> position_params \<Rightarrow> ('g, 'v, 'e) server \<Rightarrow> json option \<times> ('g, 'v, 'e) server" where
  "complete h now p s = (case store_get (sv_docs s) (pp_uri p) of
      None \<Rightarrow> (Some (JArr []), s)
    | Some d \<Rightarrow>
      (case route h s d of
         None \<Rightarrow> (Some (JArr []), s)
       | Some e \<Rightarrow>
         if over_limit s d \<noteq> None then (Some (JArr []), s)
         else (case get_instance h e s of
             (Inr (Some inst), s1) \<Rightarrow>
               (case with_deadline now (\<lambda>s2.
                    (completion (continuations_query h now inst s2)
                       (ho_tokens h (gt_engine (ps_engine inst))) d (pp_position p), s2)) s1 of
                  (items, s3) \<Rightarrow> (map_option (\<lambda>is. JArr (map completion_item_to_json is)) items, s3))
           | (Inr None, s1) \<Rightarrow> (Some (JArr []), s1)
           | (Inl err, s1) \<Rightarrow>
               (Some (JArr []), log_message h LOG_ERROR (str ''tabnas-lsp: grammar load failed ('' @
                  language_id e @ str ''): '' @ load_error_text err) s1))))"

definition status :: "('g, 'v, 'e, 'tin) host \<Rightarrow> ('g, 'v, 'e) server \<Rightarrow> json" where
  "status h s = obj [(''languages'', JArr (map (\<lambda>e. obj [
       (''languageId'', JStr (language_id e)),
       (''enabled'', JBool (is_enabled e)),
       (''source'', JStr (source_as_str (en_source e))),
       (''quarantined'', JBool (quarantined (ho_text h) (ho_hash h) (sv_instances s) e None)),
       (''lexStream'', JStr (lex_stream e))]) (router_all (sv_router s))))]"

section \<open>The workspace tier\<close>

definition workspace_of :: "('g, 'v, 'e) server \<Rightarrow> entry list" where
  "workspace_of s = filter is_workspace (router_all (sv_router s))"

definition invalidate_workspace :: "('g, 'v, 'e, 'tin) host \<Rightarrow> ('g, 'v, 'e) server \<Rightarrow> ('g, 'v, 'e) server" where
  "invalidate_workspace h s = foldl (\<lambda>s e. invalidate_entry h e s) s (workspace_of s)"

definition folder_entries :: "('g, 'v, 'e, 'tin) host \<Rightarrow> nat \<Rightarrow> entry list \<times> ('g, 'v, 'e) server \<Rightarrow> rstr \<Rightarrow>
    entry list \<times> ('g, 'v, 'e) server" where
  "folder_entries h now st folder = (case st of (workspace, s) \<Rightarrow>
     (case read_workspace_manifest (ho_read h now) (ho_json h) (ho_refusal h) folder of
        Inr entries \<Rightarrow> (workspace @ entries, s)
      | Inl err \<Rightarrow> (workspace, log_message h LOG_WARNING
          (str ''tabnas-lsp: workspace manifest ignored: '' @ load_error_text err) s)))"

definition rebuild_registry :: "('g, 'v, 'e, 'tin) host \<Rightarrow> nat \<Rightarrow> ('g, 'v, 'e) server \<Rightarrow> ('g, 'v, 'e) server" where
  "rebuild_registry h now s =
     (let s1 = invalidate_workspace h s;
          (workspace, s2) = foldl (folder_entries h now)
            (cf_workspace_entries (sv_config s1) @ sv_init_languages s1, s1) (sv_folders s1)
      in invalidate_workspace h (s2\<lparr>sv_router := set_workspace (sv_router s2) workspace\<rparr>))"

section \<open>Initialization\<close>

definition folders_of :: "json \<Rightarrow> rstr list" where
  "folders_of params =
     (let listed = (case Option.bind (value_get params (str ''workspaceFolders'')) as_array of
            Some folders \<Rightarrow> List.map_filter folder_path_of
              (List.map_filter (\<lambda>f. Option.bind (value_get f (str ''uri'')) as_str) folders)
          | None \<Rightarrow> [])
      in if listed \<noteq> [] then listed
         else case Option.bind (Option.bind (value_get params (str ''rootUri'')) as_str) folder_path_of of
             Some root \<Rightarrow> [root]
           | None \<Rightarrow> [])"

definition take_language :: "('g, 'v, 'e, 'tin) host \<Rightarrow> rstr option \<Rightarrow> ('g, 'v, 'e) server \<Rightarrow> nat \<times> json \<Rightarrow> ('g, 'v, 'e) server" where
  "take_language h dir s x = (case init_language_entry (ho_refusal h) (snd x) dir of
      Inr e \<Rightarrow> s\<lparr>sv_init_languages := sv_init_languages s @ [e]\<rparr>
    | Inl err \<Rightarrow> log_message h LOG_WARNING (str ''tabnas-lsp: initializationOptions.languages['' @
        show_nat (fst x) @ str ''] ignored: '' @ err) s)"

definition init_options :: "json \<Rightarrow> json" where
  "init_options params = (case value_get params (str ''initializationOptions'') of
      Some init \<Rightarrow> if is_object init then init else JObj []
    | None \<Rightarrow> JObj [])"

definition initialize :: "('g, 'v, 'e, 'tin) host \<Rightarrow> nat \<Rightarrow> json \<Rightarrow> ('g, 'v, 'e) server \<Rightarrow> json \<times> ('g, 'v, 'e) server" where
  "initialize h now params s =
     (let init = init_options params;
          s1 = (if value_get init (str ''trustWorkspaceModules'') = Some (JBool True)
                then s\<lparr>sv_trust := True\<rparr> else s);
          s2 = s1\<lparr>sv_folders := folders_of params\<rparr>;
          dir = (case sv_folders s2 of f # _ \<Rightarrow> Some f | [] \<Rightarrow> fl_cwd (ho_files h));
          languages = unwrap_or (Option.bind (value_get init (str ''languages'')) as_array) [];
          s3 = foldl (take_language h dir) (s2\<lparr>sv_init_languages := []\<rparr>) (List.enumerate 0 languages);
          e = negotiate_encoding (unwrap_or (value_get params (str ''capabilities'')) JNull);
          s4 = s3\<lparr>sv_encoding := e, sv_docs := store_set_encoding (sv_docs s3) e\<rparr>;
          s5 = rebuild_registry h now s4
      in (obj [(''capabilities'', capabilities (sv_encoding s5)),
            (''serverInfo'', obj [(''name'', JStr (cf_server_name (sv_config s5))), (''version'', JStr VERSION)])], s5))"

definition registration :: "int \<Rightarrow> message" where
  "registration i = message_request (JNum (NInt i)) (str ''client/registerCapability'') (Some (obj [
     (''registrations'', JArr [obj [
        (''id'', JStr WATCH_REGISTRATION_ID),
        (''method'', JStr (str ''workspace/didChangeWatchedFiles'')),
        (''registerOptions'', obj [
           (''watchers'', JArr (map (\<lambda>g. obj [(''globPattern'', JStr g)]) WATCHED_GLOBS))])]])]))"

definition initialized :: "('g, 'v, 'e, 'tin) host \<Rightarrow> ('g, 'v, 'e) server \<Rightarrow> rpc_error option \<times> ('g, 'v, 'e) server" where
  "initialized h s =
     (if sv_folders s = [] then (None, s)
      else send_message h (registration (sv_next_id s)) (s\<lparr>sv_next_id := sv_next_id s + 1\<rparr>))"

section \<open>Documents\<close>

definition did_open :: "nat \<Rightarrow> text_document_item \<Rightarrow> ('g, 'v, 'e) server \<Rightarrow> ('g, 'v, 'e) server" where
  "did_open now p s = schedule now (ti_uri p)
     (s\<lparr>sv_docs := store_open (sv_docs s) (ti_uri p) (ti_language_id p) (ti_version p) (ti_text p),
        sv_open := List.insert (ti_uri p) (sv_open s)\<rparr>)"

text \<open>\<open>None\<close> is a panic of \<open>apply_changes\<close>.\<close>

definition did_change :: "nat \<Rightarrow> did_change_params \<Rightarrow> ('g, 'v, 'e) server \<Rightarrow> ('g, 'v, 'e) server option" where
  "did_change now p s = (case store_get (sv_docs s) (dc_uri p) of
      None \<Rightarrow> Some s
    | Some d \<Rightarrow> map_option (\<lambda>d'. schedule now (dc_uri p) (forget_analysis (dc_uri p)
          (s\<lparr>sv_docs := store_put (sv_docs s) (dc_uri p) d'\<rparr>)))
        (apply_changes d (dc_changes p) (dc_version p)))"

definition did_close :: "('g, 'v, 'e, 'tin) host \<Rightarrow> rstr \<Rightarrow> ('g, 'v, 'e) server \<Rightarrow> rpc_error option \<times> ('g, 'v, 'e) server" where
  "did_close h uri s = publish h uri None []
     (s\<lparr>sv_docs := store_close (sv_docs s) uri, sv_open := List.remove1 uri (sv_open s),
        sv_analyses := (sv_analyses s)(uri := None), sv_pending := AList.delete uri (sv_pending s),
        sv_published := sv_published s - {uri}\<rparr>)"

definition same_path :: "rstr \<Rightarrow> rstr \<Rightarrow> bool" where
  "same_path p q \<longleftrightarrow> components p = components q"

text \<open>
  The source compares the served entry with the reloaded one by address. Here they are compared
  by their watched file: entries with the same one are reloaded together, so the loop over all
  of them picks the same documents.
\<close>

definition same_watched :: "('g, 'v, 'e, 'tin) host \<Rightarrow> entry \<Rightarrow> entry \<Rightarrow> bool" where
  "same_watched h a b \<longleftrightarrow> (case (watched_file (ho_files h) a, watched_file (ho_files h) b) of
      (Some f, Some g) \<Rightarrow> same_path f g | _ \<Rightarrow> False)"

definition serves :: "('g, 'v, 'e, 'tin) host \<Rightarrow> ('g, 'v, 'e) server \<Rightarrow> entry \<Rightarrow> rstr \<Rightarrow> bool" where
  "serves h s e uri \<longleftrightarrow> (case Option.bind (store_get (sv_docs s) uri) (route h s) of
      None \<Rightarrow> False | Some served \<Rightarrow> same_watched h served e)"

definition reload_entry :: "('g, 'v, 'e, 'tin) host \<Rightarrow> ('g, 'v, 'e) server \<times> rstr list \<Rightarrow> entry \<Rightarrow>
    ('g, 'v, 'e) server \<times> rstr list" where
  "reload_entry h st e = (case st of (s, due) \<Rightarrow>
     (invalidate_entry h e s, due @ filter (serves h s e) (sv_open s)))"

definition did_change_watched_files :: "('g, 'v, 'e, 'tin) host \<Rightarrow> nat \<Rightarrow> rstr list \<Rightarrow> ('g, 'v, 'e) server \<Rightarrow> ('g, 'v, 'e) server" where
  "did_change_watched_files h now uris s =
     (let changed = map normalize (List.map_filter folder_path_of uris)
      in if changed = [] then s
         else if list_ex (\<lambda>f. list_ex (same_path (normalize (path_join f WORKSPACE_MANIFEST))) changed) (sv_folders s)
         then (let s1 = rebuild_registry h now s
               in foldl (\<lambda>s uri. schedule now uri (forget_analysis uri s)) s1 (sv_open s1))
         else (let (s1, due) = foldl (reload_entry h) (s, [])
                     (reloaded_by (watched_file (ho_files h)) (sv_router s) changed)
               in foldl (\<lambda>s uri. schedule now uri s) s1 due))"

section \<open>Dispatch\<close>

text \<open>A handler that reads its params, or refuses them.\<close>

definition with_params :: "('g, 'v, 'e, 'tin) host \<Rightarrow> (json \<Rightarrow> 'p option) \<Rightarrow> json option \<Rightarrow> rstr \<Rightarrow> json \<Rightarrow>
    ('p \<Rightarrow> ('g, 'v, 'e) server \<Rightarrow> rpc_error option option \<times> ('g, 'v, 'e) server) \<Rightarrow>
    ('g, 'v, 'e) server \<Rightarrow> rpc_error option option \<times> ('g, 'v, 'e) server" where
  "with_params h rd i meth params f s = (case rd params of
      Some p \<Rightarrow> f p s
    | None \<Rightarrow> (let (r, s') = bad_params h i meth params s in (Some r, s')))"

definition returning :: "rpc_error option \<times> ('g, 'v, 'e) server \<Rightarrow> rpc_error option option \<times> ('g, 'v, 'e) server" where
  "returning x = (Some (fst x), snd x)"

text \<open>Answer with a value, or unwind without one.\<close>

definition answer_with :: "('g, 'v, 'e, 'tin) host \<Rightarrow> json option \<Rightarrow> json option \<times> ('g, 'v, 'e) server \<Rightarrow>
    rpc_error option option \<times> ('g, 'v, 'e) server" where
  "answer_with h i x = (case x of (None, s) \<Rightarrow> (None, s) | (Some v, s) \<Rightarrow> returning (answer_request h i v s))"

definition dispatch :: "('g, 'v, 'e, 'tin) host \<Rightarrow> nat \<Rightarrow> rstr \<Rightarrow> json option \<Rightarrow> json \<Rightarrow> ('g, 'v, 'e) server \<Rightarrow>
    rpc_error option option \<times> ('g, 'v, 'e) server" where
  "dispatch h now meth i params s =
     (if meth = str ''initialize'' then
        (let (v, s') = initialize h now params s in returning (answer_request h i v s'))
      else if meth = str ''initialized'' then returning (initialized h s)
      else if meth = str ''shutdown'' then returning (answer_request h i JNull (s\<lparr>sv_shutdown := True\<rparr>))
      else if meth = str ''exit'' then (Some None, s\<lparr>sv_exited := True\<rparr>)
      else if meth = str ''textDocument/didOpen'' then
        with_params h read_did_open i meth params (\<lambda>p s. (Some None, did_open now p s)) s
      else if meth = str ''textDocument/didChange'' then
        with_params h read_did_change i meth params (\<lambda>p s. case did_change now p s of
            None \<Rightarrow> (None, s) | Some s' \<Rightarrow> (Some None, s')) s
      else if meth = str ''textDocument/didClose'' then
        with_params h read_text_document_params i meth params (\<lambda>uri s. returning (did_close h uri s)) s
      else if meth = str ''workspace/didChangeWatchedFiles'' then
        with_params h read_watched_files i meth params
          (\<lambda>uris s. (Some None, did_change_watched_files h now uris s)) s
      else if meth = str ''textDocument/completion'' then
        with_params h read_position_params i meth params (\<lambda>p s. answer_with h i (complete h now p s)) s
      else if meth = str ''textDocument/documentSymbol'' then
        with_params h read_text_document_params i meth params
          (\<lambda>uri s. returning (answer_request h i (document_symbols s uri) s)) s
      else if meth = str ''textDocument/semanticTokens/full'' then
        with_params h read_text_document_params i meth params
          (\<lambda>uri s. returning (answer_request h i (semantic_tokens_full s uri) s)) s
      else if meth = str ''textDocument/hover'' then
        with_params h read_position_params i meth params (\<lambda>p s. answer_with h i (hover_at h p s, s)) s
      else if meth = str ''tabnas/status'' then returning (answer_request h i (status h s) s)
      else (case i of
          Some i' \<Rightarrow> returning (send_message h (error_response i' METHOD_NOT_FOUND (str ''Unhandled method '' @ meth)) s)
        | None \<Rightarrow> (Some None, s)))"

definition handle :: "('g, 'v, 'e, 'tin) host \<Rightarrow> nat \<Rightarrow> message \<Rightarrow> ('g, 'v, 'e) server \<Rightarrow>
    rpc_error option option \<times> ('g, 'v, 'e) server" where
  "handle h now m s = (case ms_method m of
      None \<Rightarrow>
        (case ms_id m of
           Some i \<Rightarrow>
             if \<not> is_response m
             then returning (send_message h (error_response i INVALID_REQUEST
                    (str ''Invalid request: a message needs a method, a result or an error'')) s)
             else (Some None, s)
         | None \<Rightarrow> (Some None, s))
    | Some meth \<Rightarrow> dispatch h now meth (ms_id m) (unwrap_or (ms_params m) JNull) s)"

definition handle_contained :: "('g, 'v, 'e, 'tin) host \<Rightarrow> nat \<Rightarrow> message \<Rightarrow> ('g, 'v, 'e) server \<Rightarrow>
    rpc_error option \<times> ('g, 'v, 'e) server" where
  "handle_contained h now m s = (case handle h now m s of
      (Some r, s') \<Rightarrow> (r, s')
    | (None, s') \<Rightarrow>
        (let meth = unwrap_or (ms_method m) []; why = panic_message (ho_unwound h m)
         in case ms_id m of
              Some i \<Rightarrow> send_message h (error_response i INTERNAL_ERROR
                (str ''Request '' @ meth @ str '' failed with message: '' @ why)) s'
            | None \<Rightarrow> (None, log_message h LOG_ERROR (str ''Notification handler '' @ [39] @ meth @ [39] @
                str '' failed with message: '' @ why) s')))"

definition reject :: "('g, 'v, 'e, 'tin) host \<Rightarrow> rpc_error \<Rightarrow> ('g, 'v, 'e) server \<Rightarrow> rpc_error option \<times> ('g, 'v, 'e) server" where
  "reject h err s = (case error_answer err of
      Some m \<Rightarrow> send_message h m s
    | None \<Rightarrow> (None, log_message h LOG_ERROR (str ''tabnas-lsp: '' @ rpc_error_text err) s))"

end
