(* ===== verification/Handlers.thy ===== *)
theory Handlers
  imports Server
begin

text \<open>
  The facts about the handlers of \<open>Server\<close>: what each sends, what each changes, and that each
  keeps the state well-formed (\<open>server_ok\<close>), the cached views of the documents they are stamped
  with (\<open>views_ok\<close>) and the client's picture of the diagnostics in step (\<open>tidy\<close>).
\<close>

section \<open>What a message sent changes\<close>

lemma send_message_fields [simp]:
  "sv_config (snd (send_message h m s)) = sv_config s" "sv_router (snd (send_message h m s)) = sv_router s"
  "sv_docs (snd (send_message h m s)) = sv_docs s" "sv_open (snd (send_message h m s)) = sv_open s"
  "sv_instances (snd (send_message h m s)) = sv_instances s" "sv_analyses (snd (send_message h m s)) = sv_analyses s"
  "sv_pending (snd (send_message h m s)) = sv_pending s" "sv_published (snd (send_message h m s)) = sv_published s"
  "sv_encoding (snd (send_message h m s)) = sv_encoding s" "sv_folders (snd (send_message h m s)) = sv_folders s"
  "sv_init_languages (snd (send_message h m s)) = sv_init_languages s" "sv_trust (snd (send_message h m s)) = sv_trust s"
  "sv_slot (snd (send_message h m s)) = sv_slot s" "sv_next_id (snd (send_message h m s)) = sv_next_id s"
  "sv_shutdown (snd (send_message h m s)) = sv_shutdown s" "sv_exited (snd (send_message h m s)) = sv_exited s"
  "sv_sent (snd (send_message h m s)) = sv_sent s @ [m]"
  by (simp_all add: send_message_def case_prod_unfold Let_def)

text \<open>Messages that answer no request: notifications and the server's own requests.\<close>

definition unsolicited :: "message \<Rightarrow> bool" where
  "unsolicited m \<longleftrightarrow> ms_method m \<noteq> None"

text \<open>
  What a handler did to the connection: it sent \<open>ms\<close>, in this order, took nothing from the
  incoming messages, and, unless the writer fails, what it sent is on the wire, frame by frame.
\<close>

definition written :: "(json \<Rightarrow> rstr) \<Rightarrow> connection \<Rightarrow> message list \<Rightarrow> connection \<Rightarrow> bool" where
  "written jt c ms c' \<longleftrightarrow> cn_incoming c' = cn_incoming c \<and> sk_flush (cn_writer c') = sk_flush (cn_writer c) \<and>
     (sk_fault (cn_writer c) = None \<longrightarrow> sk_fault (cn_writer c') = None \<and>
        sk_out (cn_writer c') = sk_out (cn_writer c) @ concat (map (frame_of jt) ms))"

definition sends :: "('g, 'v, 'e, 'tin) host \<Rightarrow> ('g, 'v, 'e) server \<Rightarrow> message list \<Rightarrow> ('g, 'v, 'e) server \<Rightarrow> bool" where
  "sends h s ms s' \<longleftrightarrow> sv_sent s' = sv_sent s @ ms \<and> written (ho_text h) (sv_conn s) ms (sv_conn s')"

lemma sends_nothing: "sv_sent s' = sv_sent s \<Longrightarrow> sv_conn s' = sv_conn s \<Longrightarrow> sends h s [] s'"
  by (simp add: sends_def written_def)

lemma sends_trans: "sends h s ms t \<Longrightarrow> sends h t ns u \<Longrightarrow> sends h s (ms @ ns) u"
  by (simp add: sends_def written_def)

lemma sends_one:
  "sv_sent s1 = sv_sent s \<Longrightarrow> sv_conn s1 = sv_conn s \<Longrightarrow> sends h s [m] (snd (send_message h m s1))"
  by (auto simp: sends_def written_def send_message_def send_def write_message_def write_all_def
      case_prod_unfold Let_def split: option.splits prod.splits)

definition quiet :: "('g, 'v, 'e, 'tin) host \<Rightarrow> ('g, 'v, 'e) server \<Rightarrow> ('g, 'v, 'e) server \<Rightarrow> bool" where
  "quiet h s s' \<longleftrightarrow> (\<exists>ms. sends h s ms s' \<and> list_all unsolicited ms)"

lemma quiet_trans: "quiet h s t \<Longrightarrow> quiet h t u \<Longrightarrow> quiet h s u"
  unfolding quiet_def by (metis sends_trans list_all_append)

lemma quiet_same: "sv_sent s' = sv_sent s \<Longrightarrow> sv_conn s' = sv_conn s \<Longrightarrow> quiet h s s'"
  unfolding quiet_def by (rule exI [of _ "[]"]) (simp add: sends_nothing)

lemma quiet_refl [simp, intro]: "quiet h s s"
  by (simp add: quiet_same)

lemma quiet_send: "unsolicited m \<Longrightarrow> sv_sent s1 = sv_sent s \<Longrightarrow> sv_conn s1 = sv_conn s \<Longrightarrow>
    quiet h s (snd (send_message h m s1))"
  unfolding quiet_def by (rule exI [of _ "[m]"]) (simp add: sends_one)

lemma unsolicited_simps [simp]:
  "unsolicited (message_notification meth p)" "unsolicited (message_request i meth p)"
  "\<not> unsolicited (message_response i v)" "\<not> unsolicited (error_response i c txt)"
  by (simp_all add: unsolicited_def message_notification_def message_request_def message_response_def
      error_response_def message_blank_def)

section \<open>What the client shows\<close>

text \<open>The diagnostics a message publishes, and those last published for a document.\<close>

definition publication :: "message \<Rightarrow> (rstr \<times> json list) option" where
  "publication m = (if ms_method m = Some (str ''textDocument/publishDiagnostics'') then do {
       p \<leftarrow> ms_params m;
       uri \<leftarrow> Option.bind (value_get p (str ''uri'')) as_str;
       ds \<leftarrow> Option.bind (value_get p (str ''diagnostics'')) as_array;
       Some (uri, ds)
     } else None)"

definition shown :: "message list \<Rightarrow> rstr \<Rightarrow> json list" where
  "shown ms uri = foldl (\<lambda>acc m. case publication m of
      Some (u, ds) \<Rightarrow> if u = uri then ds else acc | None \<Rightarrow> acc) [] ms"

lemma shown_snoc: "shown (ms @ [m]) uri = (case publication m of
    Some (u, ds) \<Rightarrow> if u = uri then ds else shown ms uri | None \<Rightarrow> shown ms uri)"
  unfolding shown_def by simp

lemma publication_publish:
  "publication (message_notification (str ''textDocument/publishDiagnostics'') (Some (publish_params uri v ds))) =
    Some (uri, map diagnostic_to_json ds)"
  by (cases v) (simp_all add: publication_def message_notification_def message_blank_def publish_params_def obj_def
      optional_def value_get_def as_str_def as_array_def)

lemma publication_other [simp]:
  "publication (message_response i v) = None" "publication (error_response i c txt) = None"
  "publication (message_notification (str ''window/logMessage'') p) = None"
  "publication (registration n) = None"
  by (simp_all add: publication_def message_response_def error_response_def message_notification_def
      message_blank_def registration_def message_request_def)

text \<open>Every document that shows diagnostics is among those to be cleared.\<close>

definition tidy :: "('g, 'v, 'e) server \<Rightarrow> bool" where
  "tidy s \<longleftrightarrow> (\<forall>uri. shown (sv_sent s) uri \<noteq> [] \<longrightarrow> uri \<in> sv_published s)"

lemma tidy_same: "sv_sent s' = sv_sent s \<Longrightarrow> sv_published s' = sv_published s \<Longrightarrow> tidy s \<longrightarrow> tidy s'"
  by (simp add: tidy_def)

lemma tidy_send: "publication m = None \<Longrightarrow> sv_sent s1 = sv_sent s \<Longrightarrow> sv_published s1 = sv_published s \<Longrightarrow>
    tidy s \<longrightarrow> tidy (snd (send_message h m s1))"
  by (simp add: tidy_def shown_snoc)

lemma tidy_log: "sv_sent s1 = sv_sent s \<Longrightarrow> sv_published s1 = sv_published s \<Longrightarrow>
    tidy s \<longrightarrow> tidy (log_message h k txt s1)"
  unfolding log_message_def by (rule tidy_send) simp_all

lemma sent_fields [simp]:
  "tidy (s\<lparr>sv_analyses := an\<rparr>) = tidy s" "quiet h s0 (s\<lparr>sv_analyses := an\<rparr>) = quiet h s0 s"
  "tidy (s\<lparr>sv_pending := p\<rparr>) = tidy s" "quiet h (s\<lparr>sv_pending := p\<rparr>) s0 = quiet h s s0"
  by (simp_all add: tidy_def quiet_def sends_def)

lemma tidy_publish:
  assumes "tidy s" "sv_sent s1 = sv_sent s" "sv_published s1 - {uri} = sv_published s - {uri}"
    and "ds \<noteq> [] \<Longrightarrow> uri \<in> sv_published s1"
  shows "tidy (snd (publish h uri v ds s1))"
  using assms by (auto simp: tidy_def publish_def shown_snoc publication_publish)

section \<open>What an analysis changes\<close>

text \<open>
  The fields no analysis and no log line touches, and the per-document ones, which only change
  at the document's own URI.
\<close>

definition desk :: "('g, 'v, 'e) server \<Rightarrow> 'g config \<times> router \<times> document_store \<times> rstr list \<times> (rstr \<times> nat) list \<times>
    position_encoding \<times> rstr list \<times> entry list \<times> bool \<times> int \<times> bool \<times> bool" where
  "desk s = (sv_config s, sv_router s, sv_docs s, sv_open s, sv_pending s, sv_encoding s, sv_folders s,
     sv_init_languages s, sv_trust s, sv_next_id s, sv_shutdown s, sv_exited s)"

lemma desk_eq_iff: "desk s = desk s' \<longleftrightarrow> sv_config s = sv_config s' \<and> sv_router s = sv_router s' \<and>
    sv_docs s = sv_docs s' \<and> sv_open s = sv_open s' \<and> sv_pending s = sv_pending s' \<and>
    sv_encoding s = sv_encoding s' \<and> sv_folders s = sv_folders s' \<and> sv_init_languages s = sv_init_languages s' \<and>
    sv_trust s = sv_trust s' \<and> sv_next_id s = sv_next_id s' \<and> sv_shutdown s = sv_shutdown s' \<and>
    sv_exited s = sv_exited s'"
  by (auto simp: desk_def)

lemma desk_simps [simp]:
  "desk (snd (send_message h m s)) = desk s" "desk (log_message h k txt s) = desk s"
  "desk (s\<lparr>sv_instances := i\<rparr>) = desk s" "desk (s\<lparr>sv_analyses := an\<rparr>) = desk s"
  "desk (s\<lparr>sv_published := p\<rparr>) = desk s" "desk (s\<lparr>sv_slot := sl\<rparr>) = desk s"
  "desk (forget_analysis uri s) = desk s"
  by (simp_all add: desk_def log_message_def forget_analysis_def)

lemma log_message_fields [simp]:
  "sv_instances (log_message h k txt s) = sv_instances s" "sv_analyses (log_message h k txt s) = sv_analyses s"
  "sv_published (log_message h k txt s) = sv_published s" "sv_slot (log_message h k txt s) = sv_slot s"
  "sv_docs (log_message h k txt s) = sv_docs s" "sv_open (log_message h k txt s) = sv_open s"
  "sv_pending (log_message h k txt s) = sv_pending s" "sv_router (log_message h k txt s) = sv_router s"
  "sv_encoding (log_message h k txt s) = sv_encoding s" "sv_trust (log_message h k txt s) = sv_trust s"
  "sv_config (log_message h k txt s) = sv_config s" "sv_folders (log_message h k txt s) = sv_folders s"
  "sv_init_languages (log_message h k txt s) = sv_init_languages s"
  "sv_shutdown (log_message h k txt s) = sv_shutdown s" "sv_exited (log_message h k txt s) = sv_exited s"
  by (simp_all add: log_message_def)

lemma quiet_log: "sv_sent s1 = sv_sent s \<Longrightarrow> sv_conn s1 = sv_conn s \<Longrightarrow> quiet h s (log_message h k txt s1)"
  by (simp add: log_message_def quiet_send)

lemma quiet_publish: "sv_sent s1 = sv_sent s \<Longrightarrow> sv_conn s1 = sv_conn s \<Longrightarrow> quiet h s (snd (publish h uri v ds s1))"
  by (simp add: publish_def quiet_send)

lemma publish_fields [simp]:
  "desk (snd (publish h uri v ds s)) = desk s" "sv_instances (snd (publish h uri v ds s)) = sv_instances s"
  "sv_analyses (snd (publish h uri v ds s)) = sv_analyses s" "sv_slot (snd (publish h uri v ds s)) = sv_slot s"
  "sv_published (snd (publish h uri v ds s)) = sv_published s"
  by (simp_all add: publish_def)

lemma get_instance_fields [simp]:
  "desk (snd (get_instance h e s)) = desk s" "sv_analyses (snd (get_instance h e s)) = sv_analyses s"
  "sv_published (snd (get_instance h e s)) = sv_published s" "sv_slot (snd (get_instance h e s)) = sv_slot s"
  "sv_sent (snd (get_instance h e s)) = sv_sent s" "sv_conn (snd (get_instance h e s)) = sv_conn s"
  by (simp_all add: get_instance_def case_prod_unfold Let_def)

lemma get_instance_ok:
  "instances_ok (sv_instances s) \<Longrightarrow> instances_ok (sv_instances (snd (get_instance h e s)))"
  by (simp add: get_instance_def case_prod_unfold Let_def instances_get_ok)

lemma instances_get_pairs:
  "instances_ok s \<Longrightarrow> fst (instances_get jt ih mk e folder s) = Inr (Some p) \<Longrightarrow> ps_pairs p = 1"
  unfolding instances_get_def Let_def
  by (auto simp: instances_ok_def install_def ran_def split: if_splits option.splits sum.splits)

lemma get_instance_pairs:
  "instances_ok (sv_instances s) \<Longrightarrow> get_instance h e s = (Inr (Some p), s') \<Longrightarrow> ps_pairs p = 1"
  by (auto simp: get_instance_def case_prod_unfold Let_def intro: instances_get_pairs [unfolded One_nat_def])


text \<open>An analysis of a document: of one parse of its text, with exactly that parse's events.\<close>

definition analysis_of :: "('g, 'v, 'e, 'tin) host \<Rightarrow> doc \<Rightarrow> ('v, 'e) analysis \<Rightarrow> bool" where
  "analysis_of h d a \<longleftrightarrow> (\<exists>g b e recovery events.
     ho_parse h g b (doc_text d) = (events, Some recovery) \<and>
     analyze (ho_error_json h) (\<lambda>_. (recovery, recorded events)) e d = Some a)"

lemma analyze_caught_facts:
  assumes "instances_ok (sv_instances s)" "ps_pairs inst = 1"
  obtains a insts where "analyze_caught h now inst e d s = (Some a, s\<lparr>sv_instances := insts\<rparr>)"
    "instances_ok insts" "\<And>a'. a = Some a' \<Longrightarrow> analysis_of h d a'"
proof -
  let ?run = "\<lambda>g src. ho_parse h (gt_engine g) (budget_of h now (sv_slot s) g) src"
  let ?r = "instances_parse ?run inst (doc_text d) (sv_instances s)"
  let ?a = "Option.bind (fst ?r) (\<lambda>answer. analyze (ho_error_json h) (\<lambda>_. answer) e d)"
  have r: "fst ?r = map_option (\<lambda>r. (r, recorded (fst (?run (ps_engine inst) (doc_text d)))))
      (snd (?run (ps_engine inst) (doc_text d)))"
    using assms(2) by (simp add: instances_parse_result mux_parse_collects)
  have ok: "instances_ok (snd ?r)"
    using assms(1) by (simp add: instances_ok_def instances_parse_slot instances_parse_cache)
  have of_doc: "analysis_of h d a'" if "?a = Some a'" for a'
  proof -
    obtain events answer where run: "?run (ps_engine inst) (doc_text d) = (events, answer)" by force
    with that r obtain recovery where "answer = Some recovery"
      "analyze (ho_error_json h) (\<lambda>_. (recovery, recorded events)) e d = Some a'"
      by (cases answer) auto
    with run show ?thesis unfolding analysis_of_def by blast
  qed
  show thesis
    by (rule that [of ?a "snd ?r"]) (use ok of_doc in \<open>simp_all add: analyze_caught_def case_prod_unfold Let_def\<close>)
qed

lemma timed_analysis_facts:
  assumes "instances_ok (sv_instances s)" "ps_pairs inst = 1" "sv_slot s = None"
  obtains a insts where "with_deadline now (analyze_caught h now inst e d) s = (Some a, s\<lparr>sv_instances := insts\<rparr>)"
    "instances_ok insts" "\<And>a'. a = Some a' \<Longrightarrow> analysis_of h d a'"
proof (cases "cf_deadline (sv_config s)")
  case None
  obtain a insts where a: "analyze_caught h now inst e d s = (Some a, s\<lparr>sv_instances := insts\<rparr>)"
    "instances_ok insts" "\<And>a'. a = Some a' \<Longrightarrow> analysis_of h d a'"
    using analyze_caught_facts [OF assms(1,2), of h now e d] by blast
  show thesis by (rule that [of a insts]) (use a None in \<open>simp_all add: with_deadline_def\<close>)
next
  case (Some limit)
  let ?s = "s\<lparr>sv_slot := Some (now + limit)\<rparr>"
  obtain a insts where a: "analyze_caught h now inst e d ?s = (Some a, ?s\<lparr>sv_instances := insts\<rparr>)"
    "instances_ok insts" "\<And>a'. a = Some a' \<Longrightarrow> analysis_of h d a'"
    using analyze_caught_facts [of ?s inst h now e d] assms by auto
  have "?s\<lparr>sv_instances := insts, sv_slot := None\<rparr> = s\<lparr>sv_instances := insts\<rparr>"
    using assms(3) by simp
  with a that [of a insts] Some show thesis by (simp add: with_deadline_def)
qed

text \<open>
  What one run of the analysis may do: nothing to the desk, unsolicited messages only, and the
  per-document state of its own URI, which must be open; an analysis it keeps is of the document
  as it is, stamped with its version.
\<close>

definition analyzed :: "('g, 'v, 'e, 'tin) host \<Rightarrow> rstr \<Rightarrow> ('g, 'v, 'e) server \<Rightarrow> ('g, 'v, 'e) server \<Rightarrow> bool" where
  "analyzed h uri s s' \<longleftrightarrow> desk s' = desk s \<and> quiet h s s' \<and> sv_slot s' = None \<and> instances_ok (sv_instances s') \<and>
     (\<forall>u. u \<noteq> uri \<longrightarrow> sv_analyses s' u = sv_analyses s u) \<and>
     sv_published s' - {uri} = sv_published s - {uri} \<and>
     (store_get (sv_docs s) uri = None \<longrightarrow> s' = s) \<and> (tidy s \<longrightarrow> tidy s') \<and>
     (sv_analyses s' uri \<noteq> sv_analyses s uri \<longrightarrow> sv_analyses s' uri = None \<or>
        (\<exists>d a. store_get (sv_docs s) uri = Some d \<and> sv_analyses s' uri = Some (doc_version d, a) \<and>
           \<not> an_failed a \<and> analysis_of h d a))"

lemma analyzed_publish:
  assumes "store_get (sv_docs s) uri = Some d" "sv_slot s = None" "instances_ok (sv_instances s)"
    "desk t = desk s" "sv_sent t = sv_sent s" "sv_conn t = sv_conn s" "sv_slot t = None" "instances_ok (sv_instances t)"
    "\<forall>u. u \<noteq> uri \<longrightarrow> sv_analyses t u = sv_analyses s u" "sv_published t - {uri} = sv_published s - {uri}"
    "sv_analyses t uri = sv_analyses s uri \<or> sv_analyses t uri = None" "ds \<noteq> [] \<Longrightarrow> uri \<in> sv_published t"
  shows "analyzed h uri s (snd (publish h uri v ds t))"
  using assms by (auto simp: analyzed_def quiet_publish intro: tidy_publish)

lemma record_failure_ok: "instances_ok s \<Longrightarrow> instances_ok (record_failure jt ih e folder s)"
  by (simp add: record_failure_def instances_ok_def)

lemma publish_analysis_analyzed:
  assumes "store_get (sv_docs s) uri = Some d" "sv_slot s = None" "instances_ok (sv_instances s)"
    "desk t = desk s" "sv_sent t = sv_sent s" "sv_conn t = sv_conn s" "sv_slot t = None" "instances_ok (sv_instances t)"
    "sv_analyses t = sv_analyses s" "sv_published t = sv_published s" "analysis_of h d a"
  shows "analyzed h uri s (snd (publish_analysis h uri (doc_version d) a t))"
proof -
  let ?t = "t\<lparr>sv_published := (if an_diagnostics a = [] then sv_published t - {uri} else insert uri (sv_published t))\<rparr>"
  have pub: "analyzed h uri s (snd (publish h uri (Some (doc_version d)) (an_diagnostics a) ?t))"
    by (rule analyzed_publish) (use assms in auto)
  obtain r u where u: "publish h uri (Some (doc_version d)) (an_diagnostics a) ?t = (r, u)" by force
  with pub have ru: "analyzed h uri s u" by simp
  have "sv_analyses u = sv_analyses s"
    using publish_fields(3) [of h uri "Some (doc_version d)" "an_diagnostics a" ?t] assms(9) by (simp add: u)
  with ru assms(1,11) show ?thesis
    unfolding publish_analysis_def Let_def u prod.case
    by (cases r) (auto simp: analyzed_def)
qed

lemma run_analysis_analyzed:
  assumes "sv_slot s = None" "instances_ok (sv_instances s)"
  shows "analyzed h uri s (snd (run_analysis h now uri s))"
proof (cases "store_get (sv_docs s) uri")
  case None
  with assms show ?thesis by (simp add: run_analysis_def analyzed_def)
next
  case d: (Some d)
  show ?thesis
  proof (cases "route h s d")
    case None
    have "analyzed h uri s s" using assms d by (simp add: analyzed_def)
    moreover have "analyzed h uri s (snd (publish h uri (Some (doc_version d)) [] (s\<lparr>sv_published := sv_published s - {uri}\<rparr>)))"
      by (rule analyzed_publish) (use assms d in auto)
    ultimately show ?thesis by (simp add: run_analysis_def d None)
  next
    case e: (Some e)
    show ?thesis
    proof (cases "over_limit s d")
      case (Some limit)
      have "analyzed h uri s (snd (publish h uri (Some (doc_version d)) [oversized e (byte_len (doc_text d)) limit]
          ((forget_analysis uri s)\<lparr>sv_published := insert uri (sv_published s)\<rparr>)))"
        by (rule analyzed_publish) (use assms d in \<open>auto simp: forget_analysis_def\<close>)
      then show ?thesis by (simp add: run_analysis_def d e Some)
    next
      case None
      obtain got s1 where s1: "get_instance h e s = (got, s1)" by force
      have s1': "s1 = snd (get_instance h e s)" by (simp add: s1)
      have ok1: "instances_ok (sv_instances s1)" using get_instance_ok [OF assms(2)] by (simp add: s1')
      have ran1: "analyzed h uri s s1" using assms ok1 d by (simp add: analyzed_def s1' quiet_same tidy_same)
      show ?thesis
      proof (cases got)
        case (Inl err)
        have "analyzed h uri s (log_message h LOG_ERROR line s1)" for line
          using ran1 ok1 d by (auto simp: analyzed_def s1' quiet_log tidy_log)
        then show ?thesis by (simp add: run_analysis_def d e None s1 Inl)
      next
        case (Inr r)
        show ?thesis
        proof (cases r)
          case n: None
          with ran1 show ?thesis by (simp add: run_analysis_def d e None s1 Inr n)
        next
          case (Some inst)
          have pairs: "ps_pairs inst = 1"
            using get_instance_pairs [OF assms(2)] s1 Inr Some by metis
          obtain a insts where a: "with_deadline now (analyze_caught h now inst e d) s1 = (Some a, s1\<lparr>sv_instances := insts\<rparr>)"
            "instances_ok insts" "\<And>a'. a = Some a' \<Longrightarrow> analysis_of h d a'"
            using timed_analysis_facts [OF ok1 pairs, of now h e d] assms(1) by (auto simp: s1')
          let ?s2 = "s1\<lparr>sv_instances := insts\<rparr>"
          have res: "run_analysis h now uri s = analyze_document h now uri inst e d s1"
            by (simp add: run_analysis_def d e None s1 Inr Some)
          show ?thesis
          proof (cases "failure_of h inst d a")
            case (Some failure)
            have "analyzed h uri s (log_message h LOG_ERROR line
                (?s2\<lparr>sv_instances := record_failure (ho_text h) (ho_hash h) e None (sv_instances ?s2)\<rparr>))" for line
              using assms d a(2) by (auto simp: analyzed_def s1' quiet_log tidy_log record_failure_ok)
            then show ?thesis by (simp add: res analyze_document_def a(1) Some)
          next
            case None
            then obtain a' where a': "a = Some a'" by (cases a) (simp_all add: failure_of_def)
            have "analyzed h uri s (snd (publish_analysis h uri (doc_version d) a' ?s2))"
              by (rule publish_analysis_analyzed) (use assms d a(2) a(3) [OF a'] in \<open>simp_all add: s1'\<close>)
            then show ?thesis using None by (simp add: res analyze_document_def a(1) a')
          qed
        qed
      qed
    qed
  qed
qed


section \<open>The state a session keeps\<close>

definition server_ok :: "('g, 'v, 'e) server \<Rightarrow> bool" where
  "server_ok s \<longleftrightarrow>
     (\<forall>uri d. store_get (sv_docs s) uri = Some d \<longrightarrow> index_ok d \<and> doc_uri d = uri) \<and>
     distinct (sv_open s) \<and> set (sv_open s) = dom (store_get (sv_docs s)) \<and>
     distinct (map fst (sv_pending s)) \<and> fst ` set (sv_pending s) \<subseteq> set (sv_open s) \<and>
     dom (sv_analyses s) \<subseteq> set (sv_open s) \<and> sv_published s \<subseteq> set (sv_open s) \<and>
     router_ok (sv_router s) \<and> instances_ok (sv_instances s) \<and> sv_slot s = None \<and>
     st_encoding (sv_docs s) = sv_encoding s"

text \<open>What is cached for a document's version is an analysis of the document.\<close>

definition views_ok :: "('g, 'v, 'e, 'tin) host \<Rightarrow> ('g, 'v, 'e) server \<Rightarrow> bool" where
  "views_ok h s \<longleftrightarrow> (\<forall>uri d a. store_get (sv_docs s) uri = Some d \<longrightarrow>
     sv_analyses s uri = Some (doc_version d, a) \<longrightarrow> \<not> an_failed a \<and> analysis_of h d a)"

lemma server_ok_desk:
  assumes "server_ok s" "desk s' = desk s" "dom (sv_analyses s') \<subseteq> set (sv_open s)"
    "sv_published s' \<subseteq> set (sv_open s)" "instances_ok (sv_instances s')" "sv_slot s' = None"
  shows "server_ok s'"
  using assms unfolding server_ok_def desk_eq_iff by (elim conjE, intro conjI) simp_all

lemma server_okD:
  assumes "server_ok s"
  shows "set (sv_open s) = dom (store_get (sv_docs s))" "distinct (sv_open s)"
    "distinct (map fst (sv_pending s))" "fst ` set (sv_pending s) \<subseteq> set (sv_open s)"
    "dom (sv_analyses s) \<subseteq> set (sv_open s)" "sv_published s \<subseteq> set (sv_open s)"
    "router_ok (sv_router s)" "instances_ok (sv_instances s)" "sv_slot s = None"
    "st_encoding (sv_docs s) = sv_encoding s"
    "store_get (sv_docs s) uri = Some d \<Longrightarrow> index_ok d \<and> doc_uri d = uri"
  using assms unfolding server_ok_def by blast+

lemma server_ok_open: "server_ok s \<Longrightarrow> uri \<in> set (sv_open s) \<longleftrightarrow> (\<exists>d. store_get (sv_docs s) uri = Some d)"
  by (auto simp: server_ok_def)

lemma analyzed_ok:
  assumes ok: "server_ok s" and ran: "analyzed h uri s s'"
  shows "server_ok s'"
proof (cases "store_get (sv_docs s) uri")
  case None
  with ran ok show ?thesis by (simp add: analyzed_def)
next
  case (Some d)
  then have uri: "uri \<in> set (sv_open s)" using server_ok_open [OF ok] by blast
  show ?thesis
  proof (rule server_ok_desk [OF ok])
    show "dom (sv_analyses s') \<subseteq> set (sv_open s)"
    proof
      fix u assume "u \<in> dom (sv_analyses s')"
      then have "u = uri \<or> u \<in> dom (sv_analyses s)"
        using ran by (cases "u = uri") (simp_all add: analyzed_def dom_def)
      then show "u \<in> set (sv_open s)" using uri server_okD(5) [OF ok] by blast
    qed
    have "sv_published s' \<subseteq> insert uri (sv_published s)" using ran unfolding analyzed_def by blast
    then show "sv_published s' \<subseteq> set (sv_open s)" using uri server_okD(6) [OF ok] by blast
  qed (use ran in \<open>simp_all add: analyzed_def\<close>)
qed

lemma analyzed_views:
  assumes views: "views_ok h s" and ran: "analyzed h uri s s'"
  shows "views_ok h s'"
proof -
  have docs: "sv_docs s' = sv_docs s" using ran by (simp add: analyzed_def desk_eq_iff)
  have "\<not> an_failed a \<and> analysis_of h d a"
    if "store_get (sv_docs s) u = Some d" "sv_analyses s' u = Some (doc_version d, a)" for u d a
  proof (cases "sv_analyses s' u = sv_analyses s u")
    case True
    with that views show ?thesis by (simp add: views_ok_def)
  next
    case False
    with ran have "u = uri" by (auto simp: analyzed_def)
    with False that ran show ?thesis by (auto simp: analyzed_def)
  qed
  then show ?thesis by (simp add: views_ok_def docs)
qed

lemma server_ok_pending:
  assumes "server_ok s" "distinct (map fst p)" "fst ` set p \<subseteq> set (sv_open s)"
  shows "server_ok (s\<lparr>sv_pending := p\<rparr>)"
  using assms unfolding server_ok_def by (elim conjE, intro conjI) simp_all

lemma server_ok_delete:
  assumes "server_ok s" shows "server_ok (s\<lparr>sv_pending := AList.delete uri (sv_pending s)\<rparr>)"
  by (rule server_ok_pending [OF assms distinct_delete [OF server_okD(3) [OF assms]]])
    (rule subset_trans [OF dom_delete_subset server_okD(4) [OF assms]])

lemma views_ok_pending [simp]: "views_ok h (s\<lparr>sv_pending := p\<rparr>) = views_ok h s"
  by (simp add: views_ok_def)

lemma server_ok_schedule:
  assumes "server_ok s" "uri \<in> set (sv_open s)"
  shows "server_ok (schedule now uri s)"
  unfolding schedule_def
  by (rule server_ok_pending [OF assms(1) distinct_update [OF server_okD(3) [OF assms(1)]]])
    (use assms server_okD(4) [OF assms(1)] in \<open>simp add: dom_update\<close>)

lemma schedule_fields [simp]:
  "sv_docs (schedule now uri s) = sv_docs s" "sv_open (schedule now uri s) = sv_open s"
  "sv_analyses (schedule now uri s) = sv_analyses s" "sv_sent (schedule now uri s) = sv_sent s"
  "sv_published (schedule now uri s) = sv_published s" "sv_instances (schedule now uri s) = sv_instances s"
  "sv_shutdown (schedule now uri s) = sv_shutdown s" "sv_exited (schedule now uri s) = sv_exited s"
  "sv_router (schedule now uri s) = sv_router s" "sv_conn (schedule now uri s) = sv_conn s"
  "sv_config (schedule now uri s) = sv_config s" "sv_folders (schedule now uri s) = sv_folders s"
  by (simp_all add: schedule_def)

lemma views_ok_schedule [simp]: "views_ok h (schedule now uri s) = views_ok h s"
  by (simp add: views_ok_def)

lemma analyze_each_keeps:
  "server_ok s \<Longrightarrow> server_ok (snd (analyze_each h now uris s)) \<and>
    quiet h s (snd (analyze_each h now uris s)) \<and> (tidy s \<longrightarrow> tidy (snd (analyze_each h now uris s))) \<and>
    (views_ok h s \<longrightarrow> views_ok h (snd (analyze_each h now uris s)))"
proof (induction uris arbitrary: s)
  case (Cons uri uris)
  let ?s = "s\<lparr>sv_pending := AList.delete uri (sv_pending s)\<rparr>"
  obtain r t where t: "run_analysis h now uri ?s = (r, t)" by force
  have ok: "server_ok ?s" by (rule server_ok_delete [OF Cons.prems])
  then have ran: "analyzed h uri ?s t"
    using run_analysis_analyzed [of ?s h uri now] by (simp add: t server_ok_def)
  then have "quiet h s t" "tidy s \<Longrightarrow> tidy t" by (simp_all add: analyzed_def)
  moreover have "server_ok t" by (rule analyzed_ok [OF ok ran])
  moreover have "views_ok h s \<Longrightarrow> views_ok h t" using analyzed_views [OF _ ran] by simp
  ultimately show ?case
    using Cons.IH [of t] quiet_trans [of h s t] by (cases r) (auto simp: t)
qed simp


section \<open>The handlers keep it\<close>

definition flags :: "('g, 'v, 'e) server \<Rightarrow> bool \<times> bool" where
  "flags s = (sv_shutdown s, sv_exited s)"

definition keeps :: "('g, 'v, 'e, 'tin) host \<Rightarrow> ('g, 'v, 'e) server \<Rightarrow> ('g, 'v, 'e) server \<Rightarrow> bool" where
  "keeps h s s' \<longleftrightarrow> server_ok s' \<and> quiet h s s' \<and> flags s' = flags s \<and>
     (tidy s \<longrightarrow> tidy s') \<and> (views_ok h s \<longrightarrow> views_ok h s')"

lemma keeps_refl: "server_ok s \<Longrightarrow> keeps h s s"
  by (simp add: keeps_def)

lemma keeps_trans: "keeps h s t \<Longrightarrow> keeps h t u \<Longrightarrow> keeps h s u"
  by (auto simp: keeps_def intro: quiet_trans)

lemma keepsD: "keeps h s t \<Longrightarrow> server_ok t"
  by (simp add: keeps_def)

lemma keeps_foldl:
  "(\<And>s x. x \<in> set xs \<Longrightarrow> server_ok s \<Longrightarrow> P s \<Longrightarrow> keeps h s (f s x) \<and> P (f s x)) \<Longrightarrow> server_ok s \<Longrightarrow> P s \<Longrightarrow>
    keeps h s (foldl f s xs) \<and> P (foldl f s xs)"
proof (induction xs arbitrary: s)
  case (Cons x xs)
  then have step: "keeps h s (f s x)" "P (f s x)" by simp_all
  have "keeps h (f s x) (foldl f (f s x) xs) \<and> P (foldl f (f s x) xs)"
    using Cons.prems keepsD [OF step(1)] step(2) by (intro Cons.IH) simp_all
  with keeps_trans [OF step(1)] show ?case by simp
qed (simp add: keeps_refl)

lemma keeps_desk:
  assumes "server_ok s" "desk s' = desk s" "sv_analyses s' = sv_analyses s" "sv_published s' = sv_published s"
    "instances_ok (sv_instances s')" "sv_slot s' = None" "quiet h s s'" "tidy s \<longrightarrow> tidy s'"
  shows "keeps h s s'"
proof -
  have "server_ok s'"
    using server_ok_desk [OF assms(1,2)] assms server_okD(5,6) [OF assms(1)] by simp
  moreover have "sv_docs s' = sv_docs s" using assms(2) by (simp add: desk_eq_iff)
  moreover have "flags s' = flags s" using assms(2) by (simp add: desk_eq_iff flags_def)
  ultimately show ?thesis using assms by (simp add: keeps_def views_ok_def)
qed

lemma keeps_log: "server_ok s \<Longrightarrow> keeps h s (log_message h k txt s)"
  by (rule keeps_desk) (simp_all add: server_okD quiet_log tidy_log)

lemma keeps_send: "server_ok s \<Longrightarrow> unsolicited m \<Longrightarrow> publication m = None \<Longrightarrow> keeps h s (snd (send_message h m s))"
  by (rule keeps_desk) (simp_all add: server_okD quiet_send tidy_send)

lemma keeps_get: "server_ok s \<Longrightarrow> keeps h s (snd (get_instance h e s))"
  by (rule keeps_desk) (simp_all add: server_okD quiet_same tidy_same flags_def get_instance_ok)

lemma keeps_schedule: "server_ok s \<Longrightarrow> uri \<in> set (sv_open s) \<Longrightarrow> keeps h s (schedule now uri s)"
  by (simp add: keeps_def server_ok_schedule quiet_same tidy_same flags_def)

lemma keeps_forget: "server_ok s \<Longrightarrow> keeps h s (forget_analysis uri s)"
proof -
  assume ok: "server_ok s"
  have "server_ok (forget_analysis uri s)"
    by (rule server_ok_desk [OF ok])
      (use server_okD [OF ok] in \<open>auto simp: forget_analysis_def\<close>)
  then show ?thesis by (simp add: keeps_def views_ok_def forget_analysis_def quiet_same tidy_same flags_def)
qed

lemma invalidate_ok: "instances_ok s \<Longrightarrow> instances_ok (invalidate jt ih e s)"
  using cache_runs.step_inv [of s jt ih "\<lambda>_ _. MakePanicked None" "\<lambda>_ _. ([], None)" "OpInvalidate e"] by (simp add: instances_step_def)

lemma invalidate_entry_fields [simp]:
  "desk (invalidate_entry h e s) = desk s" "sv_analyses (invalidate_entry h e s) = sv_analyses s"
  "sv_published (invalidate_entry h e s) = sv_published s" "sv_slot (invalidate_entry h e s) = sv_slot s"
  "sv_sent (invalidate_entry h e s) = sv_sent s" "sv_conn (invalidate_entry h e s) = sv_conn s" "sv_docs (invalidate_entry h e s) = sv_docs s"
  "sv_open (invalidate_entry h e s) = sv_open s" "sv_router (invalidate_entry h e s) = sv_router s"
  "sv_pending (invalidate_entry h e s) = sv_pending s"
  by (simp_all add: invalidate_entry_def desk_def)

lemma keeps_invalidate: "server_ok s \<Longrightarrow> keeps h s (invalidate_entry h e s)"
  by (rule keeps_desk) (simp_all add: server_okD quiet_same tidy_same flags_def invalidate_ok invalidate_entry_def [of h e s])

lemma invalidate_workspace_fields:
  "server_ok s \<Longrightarrow> keeps h s (invalidate_workspace h s) \<and> desk (invalidate_workspace h s) = desk s"
  unfolding invalidate_workspace_def by (rule keeps_foldl) (simp_all add: keeps_invalidate)

lemma keeps_set_router:
  "server_ok s \<Longrightarrow> keeps h s (s\<lparr>sv_router := set_workspace (sv_router s) w\<rparr>)"
  by (auto simp: keeps_def server_ok_def views_ok_def quiet_same tidy_same flags_def set_workspace_def router_ok_def)

lemma folder_entries_keeps:
  "server_ok s \<Longrightarrow> keeps h s (snd (foldl (folder_entries h now) (w, s) folders)) \<and>
    desk (snd (foldl (folder_entries h now) (w, s) folders)) = desk s"
proof (induction folders arbitrary: w s)
  case (Cons f folders)
  obtain w1 s1 where s1: "folder_entries h now (w, s) f = (w1, s1)" by force
  then have "keeps h s s1 \<and> desk s1 = desk s"
    using Cons.prems by (auto simp: folder_entries_def keeps_refl keeps_log split: sum.splits)
  with Cons.IH [of s1 w1] show ?case using s1 by (auto intro: keeps_trans dest: keepsD)
qed (simp add: keeps_refl)

lemma rebuild_keeps:
  assumes "server_ok s" shows "keeps h s (rebuild_registry h now s)"
    "sv_open (rebuild_registry h now s) = sv_open s" "sv_docs (rebuild_registry h now s) = sv_docs s"
    "sv_encoding (rebuild_registry h now s) = sv_encoding s" "sv_shutdown (rebuild_registry h now s) = sv_shutdown s"
    "sv_exited (rebuild_registry h now s) = sv_exited s" "sv_pending (rebuild_registry h now s) = sv_pending s"
    "sv_config (rebuild_registry h now s) = sv_config s" "sv_folders (rebuild_registry h now s) = sv_folders s"
    "sv_trust (rebuild_registry h now s) = sv_trust s"
proof -
  let ?s1 = "invalidate_workspace h s"
  have k1: "keeps h s ?s1" "desk ?s1 = desk s" using invalidate_workspace_fields [OF assms] by auto
  obtain w s2 where s2: "foldl (folder_entries h now)
      (cf_workspace_entries (sv_config ?s1) @ sv_init_languages ?s1, ?s1) (sv_folders ?s1) = (w, s2)" by force
  have k2: "keeps h ?s1 s2" "desk s2 = desk ?s1"
    using folder_entries_keeps [OF keepsD [OF k1(1)]] s2 by (metis snd_conv)+
  let ?s3 = "s2\<lparr>sv_router := set_workspace (sv_router s2) w\<rparr>"
  have k3: "keeps h s2 ?s3" by (rule keeps_set_router [OF keepsD [OF k2(1)]])
  have k4: "keeps h ?s3 (invalidate_workspace h ?s3)" "desk (invalidate_workspace h ?s3) = desk ?s3"
    using invalidate_workspace_fields [OF keepsD [OF k3]] by auto
  have eq: "rebuild_registry h now s = invalidate_workspace h ?s3"
    by (simp add: rebuild_registry_def s2 Let_def)
  show "keeps h s (rebuild_registry h now s)"
    unfolding eq by (rule keeps_trans [OF k1(1) keeps_trans [OF k2(1) keeps_trans [OF k3 k4(1)]]])
  show "sv_open (rebuild_registry h now s) = sv_open s" "sv_docs (rebuild_registry h now s) = sv_docs s"
    "sv_encoding (rebuild_registry h now s) = sv_encoding s" "sv_shutdown (rebuild_registry h now s) = sv_shutdown s"
    "sv_exited (rebuild_registry h now s) = sv_exited s" "sv_pending (rebuild_registry h now s) = sv_pending s"
    "sv_config (rebuild_registry h now s) = sv_config s" "sv_folders (rebuild_registry h now s) = sv_folders s"
    "sv_trust (rebuild_registry h now s) = sv_trust s"
    using k1(2) k2(2) k4(2) unfolding eq by (simp_all add: desk_eq_iff)
qed


lemma store_get_open [simp]:
  "store_get (store_open st u l v txt) x =
    (if x = u then Some (with_encoding (doc_new u l v txt) (st_encoding st)) else store_get st x)"
  and store_get_put [simp]: "store_get (store_put st u d) x = (if x = u then Some d else store_get st x)"
  and store_get_close [simp]: "store_get (store_close st u) x = (if x = u then None else store_get st x)"
  and store_get_encoding [simp]: "store_get (store_set_encoding st e) x = store_get st x"
  by (simp_all add: store_open_def store_put_def store_close_def store_set_encoding_def store_get_def Let_def)

lemma server_ok_docs:
  assumes "server_ok s" "sv_pending t = sv_pending s" "dom (sv_analyses t) \<subseteq> dom (sv_analyses s)"
    "sv_published t = sv_published s" "sv_router t = sv_router s" "sv_instances t = sv_instances s"
    "sv_slot t = sv_slot s" "\<forall>u d. store_get (sv_docs t) u = Some d \<longrightarrow> index_ok d \<and> doc_uri d = u"
    "distinct (sv_open t)" "set (sv_open t) = dom (store_get (sv_docs t))" "set (sv_open s) \<subseteq> set (sv_open t)"
    "st_encoding (sv_docs t) = sv_encoding t"
  shows "server_ok t"
proof -
  note ok = server_okD [OF assms(1)]
  have "fst ` set (sv_pending t) \<subseteq> set (sv_open t)" "dom (sv_analyses t) \<subseteq> set (sv_open t)"
    "sv_published t \<subseteq> set (sv_open t)"
    using ok(4-6) assms(2-4,11) by auto
  moreover have "distinct (map fst (sv_pending t))" "router_ok (sv_router t)" "instances_ok (sv_instances t)"
    "sv_slot t = None"
    using ok(3,7-9) assms(2,5-7) by simp_all
  ultimately show ?thesis
    unfolding server_ok_def using assms(8-10,12) by blast
qed

lemma server_ok_same:
  assumes "server_ok s" "sv_pending t = sv_pending s" "sv_analyses t = sv_analyses s"
    "sv_published t = sv_published s" "sv_router t = sv_router s" "sv_instances t = sv_instances s"
    "sv_slot t = sv_slot s" "sv_docs t = sv_docs s" "sv_open t = sv_open s" "sv_encoding t = sv_encoding s"
  shows "server_ok t" "views_ok h s \<longrightarrow> views_ok h t"
proof -
  show "server_ok t"
    by (rule server_ok_docs [OF assms(1)]) (use assms(2-) server_okD [OF assms(1)] in simp_all)
  show "views_ok h s \<longrightarrow> views_ok h t" using assms by (simp add: views_ok_def)
qed

lemma take_language_keeps:
  fixes s :: "('a, 'b, 'c) server"
  assumes "server_ok s"
  shows "keeps h s (foldl (take_language h dir) s xs) \<and> sv_open (foldl (take_language h dir) s xs) = sv_open s \<and>
    sv_shutdown (foldl (take_language h dir) s xs) = sv_shutdown s \<and>
    sv_exited (foldl (take_language h dir) s xs) = sv_exited s \<and>
    sv_docs (foldl (take_language h dir) s xs) = sv_docs s"
proof (rule keeps_foldl [where P = "\<lambda>t. sv_open t = sv_open s \<and> sv_shutdown t = sv_shutdown s \<and>
    sv_exited t = sv_exited s \<and> sv_docs t = sv_docs s"])
  fix t :: "('a, 'b, 'c) server" and x assume t: "server_ok t"
    "sv_open t = sv_open s \<and> sv_shutdown t = sv_shutdown s \<and> sv_exited t = sv_exited s \<and> sv_docs t = sv_docs s"
  have "keeps h t (t\<lparr>sv_init_languages := ls\<rparr>)" for ls
    by (simp add: keeps_def quiet_same tidy_same flags_def server_ok_same(1) [OF t(1)]) (simp add: views_ok_def)
  then show "keeps h t (take_language h dir t x) \<and> sv_open (take_language h dir t x) = sv_open s \<and>
      sv_shutdown (take_language h dir t x) = sv_shutdown s \<and> sv_exited (take_language h dir t x) = sv_exited s \<and>
      sv_docs (take_language h dir t x) = sv_docs s"
    using t by (auto simp: take_language_def keeps_log split: sum.splits)
qed (use assms in simp_all)

lemma initialize_keeps:
  assumes "server_ok s"
  shows "keeps h s (snd (initialize h now params s))"
    "sv_open (snd (initialize h now params s)) = sv_open s"
    "sv_shutdown (snd (initialize h now params s)) = sv_shutdown s"
    "sv_exited (snd (initialize h now params s)) = sv_exited s"
proof -
  let ?init = "init_options params"
  define s1 where "s1 = (if value_get ?init (str ''trustWorkspaceModules'') = Some (JBool True)
    then s\<lparr>sv_trust := True\<rparr> else s)"
  define s2 where "s2 = s1\<lparr>sv_folders := folders_of params\<rparr>"
  define dir where "dir = (case sv_folders s2 of f # _ \<Rightarrow> Some f | [] \<Rightarrow> fl_cwd (ho_files h))"
  let ?ls = "List.enumerate 0 (unwrap_or (Option.bind (value_get ?init (str ''languages'')) as_array) [])"
  define s3 where "s3 = foldl (take_language h dir) (s2\<lparr>sv_init_languages := []\<rparr>) ?ls"
  define e where "e = negotiate_encoding (unwrap_or (value_get params (str ''capabilities'')) JNull)"
  define s4 where "s4 = s3\<lparr>sv_encoding := e, sv_docs := store_set_encoding (sv_docs s3) e\<rparr>"
  have k2: "keeps h s (s2\<lparr>sv_init_languages := []\<rparr>)"
    using assms by (auto simp: s2_def s1_def keeps_def server_ok_def views_ok_def quiet_same tidy_same flags_def)
  have k3: "keeps h (s2\<lparr>sv_init_languages := []\<rparr>) s3" "sv_open s3 = sv_open s" "sv_shutdown s3 = sv_shutdown s"
    "sv_exited s3 = sv_exited s"
    using take_language_keeps [OF keepsD [OF k2], of h dir ?ls] by (simp_all add: s3_def) (simp_all add: s2_def s1_def)
  have get: "store_get (sv_docs s4) = store_get (sv_docs s3)"
    by (intro ext) (simp add: s4_def store_set_encoding_def store_get_def)
  have "server_ok s4"
    by (rule server_ok_docs [OF keepsD [OF k3(1)]])
      (use server_okD [OF keepsD [OF k3(1)]] get in \<open>simp_all add: s4_def store_set_encoding_def\<close>)
  then have k4: "keeps h s3 s4"
    using get by (simp add: keeps_def views_ok_def quiet_same tidy_same flags_def) (simp add: s4_def quiet_same tidy_same flags_def)
  note k5 = rebuild_keeps [OF keepsD [OF k4], of h now]
  have eq: "snd (initialize h now params s) = rebuild_registry h now s4"
    by (simp add: initialize_def Let_def s4_def s3_def s2_def s1_def dir_def e_def)
  show "keeps h s (snd (initialize h now params s))"
    unfolding eq by (rule keeps_trans [OF k2 keeps_trans [OF k3(1) keeps_trans [OF k4 k5(1)]]])
  show "sv_open (snd (initialize h now params s)) = sv_open s"
    "sv_shutdown (snd (initialize h now params s)) = sv_shutdown s"
    "sv_exited (snd (initialize h now params s)) = sv_exited s"
    using k3 unfolding eq k5(2,5,6) by (simp_all add: s4_def)
qed

lemma unsolicited_registration [simp]: "unsolicited (registration n)"
  by (simp add: registration_def)

lemma initialized_keeps:
  assumes "server_ok s" shows "keeps h s (snd (initialized h s))"
proof (cases "sv_folders s = []")
  case True
  with assms show ?thesis by (simp add: initialized_def keeps_refl)
next
  case False
  let ?t = "s\<lparr>sv_next_id := sv_next_id s + 1\<rparr>"
  have t: "server_ok ?t" "views_ok h s \<longrightarrow> views_ok h ?t" by (rule server_ok_same [OF assms], simp_all)+
  then have "keeps h s ?t" by (simp add: keeps_def quiet_same tidy_same flags_def)
  from keeps_trans [OF this keeps_send [OF t(1)]] False show ?thesis by (simp add: initialized_def)
qed

lemma did_open_keeps:
  assumes "server_ok s"
  shows "server_ok (did_open now p s)" "quiet h s (did_open now p s)"
    "tidy s \<longrightarrow> tidy (did_open now p s)" "views_ok h s \<Longrightarrow> ti_uri p \<notin> set (sv_open s) \<Longrightarrow> views_ok h (did_open now p s)"
proof -
  let ?t = "s\<lparr>sv_docs := store_open (sv_docs s) (ti_uri p) (ti_language_id p) (ti_version p) (ti_text p),
      sv_open := List.insert (ti_uri p) (sv_open s)\<rparr>"
  have "dom (store_get (sv_docs ?t)) = insert (ti_uri p) (dom (store_get (sv_docs s)))"
    by (auto simp: dom_def)
  moreover have "\<forall>u d. store_get (sv_docs ?t) u = Some d \<longrightarrow> index_ok d \<and> doc_uri d = u"
    using server_okD(11) [OF assms] by (simp add: with_encoding_def doc_new_def index_ok_def)
  moreover have "st_encoding (sv_docs ?t) = sv_encoding ?t"
    using server_okD(10) [OF assms] by (simp add: store_open_def Let_def)
  ultimately have t: "server_ok ?t"
    using server_okD(1,2) [OF assms] by (intro server_ok_docs [OF assms]) (simp_all add: subset_insertI)
  then show "server_ok (did_open now p s)" by (simp add: did_open_def server_ok_schedule)
  show "quiet h s (did_open now p s)" "tidy s \<longrightarrow> tidy (did_open now p s)"
    by (simp_all add: did_open_def quiet_same tidy_same flags_def)
  show "views_ok h (did_open now p s)" if "views_ok h s" "ti_uri p \<notin> set (sv_open s)"
  proof -
    have "sv_analyses s (ti_uri p) = None" using server_okD(5) [OF assms] that(2) by blast
    with that(1) show ?thesis by (auto simp: did_open_def views_ok_def split: if_splits)
  qed
qed

lemma did_change_keeps:
  assumes "server_ok s"
  obtains s' where "did_change now p s = Some s'" "keeps h s s'"
proof (cases "store_get (sv_docs s) (dc_uri p)")
  case None
  with assms that show thesis by (simp add: did_change_def keeps_refl)
next
  case (Some d)
  obtain d' where d': "apply_changes d (dc_changes p) (dc_version p) = Some d'" "index_ok d'"
    using apply_changes_total server_okD(11) [OF assms Some] by blast
  have uri: "doc_uri d' = dc_uri p" using apply_changes_frame [OF d'(1)] server_okD(11) [OF assms Some] by simp
  have opened: "dc_uri p \<in> set (sv_open s)" using Some server_ok_open [OF assms] by blast
  let ?t = "forget_analysis (dc_uri p) (s\<lparr>sv_docs := store_put (sv_docs s) (dc_uri p) d'\<rparr>)"
  have same: "sv_open ?t = sv_open s" "sv_pending ?t = sv_pending s" "sv_published ?t = sv_published s"
    "sv_router ?t = sv_router s" "sv_instances ?t = sv_instances s" "sv_slot ?t = sv_slot s"
    "sv_encoding ?t = sv_encoding s" "st_encoding (sv_docs ?t) = st_encoding (sv_docs s)"
    "sv_analyses ?t = (sv_analyses s)(dc_uri p := None)"
    by (simp_all add: forget_analysis_def store_put_def)
  have get: "store_get (sv_docs ?t) u = (if u = dc_uri p then Some d' else store_get (sv_docs s) u)" for u
    by (simp add: forget_analysis_def)
  have "dom (store_get (sv_docs ?t)) = dom (store_get (sv_docs s))"
    using Some by (auto simp: dom_def forget_analysis_def)
  then have "server_ok ?t"
    using server_okD [OF assms] d'(2) uri
    by (intro server_ok_docs [OF assms]) (auto simp: same get simp del: store_get_put split: if_splits)
  moreover have "views_ok h s \<longrightarrow> views_ok h ?t"
    by (auto simp: views_ok_def forget_analysis_def split: if_splits)
  moreover have "sv_open ?t = sv_open s" "quiet h s ?t" "tidy s \<longrightarrow> tidy ?t" by (simp_all add: forget_analysis_def quiet_same tidy_same flags_def)
  moreover have "flags ?t = flags s" by (simp add: forget_analysis_def flags_def)
  ultimately have k: "keeps h s ?t" by (simp add: keeps_def)
  have "keeps h s (schedule now (dc_uri p) ?t)"
    by (rule keeps_trans [OF k keeps_schedule [OF keepsD [OF k]]]) (use opened same in simp)
  with that show thesis by (simp add: did_change_def Some d'(1))
qed


lemma did_close_keeps:
  assumes "server_ok s" shows "keeps h s (snd (did_close h uri s))"
proof -
  let ?t = "s\<lparr>sv_docs := store_close (sv_docs s) uri, sv_open := List.remove1 uri (sv_open s),
      sv_analyses := (sv_analyses s)(uri := None), sv_pending := AList.delete uri (sv_pending s),
      sv_published := sv_published s - {uri}\<rparr>"
  note ok = server_okD [OF assms]
  have "set (remove1 uri (sv_open s)) = set (sv_open s) - {uri}" using ok(2) by (rule set_remove1_eq)
  moreover have "dom (store_get (store_close (sv_docs s) uri)) = dom (store_get (sv_docs s)) - {uri}"
    by (auto simp: dom_def)
  moreover have "fst ` set (AList.delete uri (sv_pending s)) \<subseteq> set (sv_open s) - {uri}"
    using ok(4) dom_delete_subset [of uri "sv_pending s"] delete_notin_dom [of uri "sv_pending s"] by blast
  moreover have "dom ((sv_analyses s)(uri := None)) \<subseteq> set (sv_open s) - {uri}" using ok(5) by auto
  moreover have "sv_published s - {uri} \<subseteq> set (sv_open s) - {uri}" using ok(6) by blast
  moreover have "st_encoding (store_close (sv_docs s) uri) = sv_encoding s" using ok(10) by (simp add: store_close_def)
  ultimately have "server_ok ?t"
    unfolding server_ok_def using ok(1,2,7-9) ok(11) distinct_delete [OF ok(3)]
    by (intro conjI) simp_all
  then have "server_ok (snd (publish h uri None [] ?t))"
    by (rule server_ok_same(1)) (simp_all add: publish_def)
  moreover have "quiet h s (snd (publish h uri None [] ?t))" by (simp add: quiet_publish)
  moreover have "tidy s \<longrightarrow> tidy (snd (publish h uri None [] ?t))" by (auto intro: tidy_publish)
  moreover have "views_ok h s \<longrightarrow> views_ok h (snd (publish h uri None [] ?t))"
    by (simp add: views_ok_def publish_def)
  ultimately show ?thesis by (simp add: keeps_def did_close_def flags_def publish_def)
qed

lemma schedule_all_keeps:
  assumes "server_ok s" "set uris \<subseteq> set (sv_open s)"
  shows "keeps h s (foldl (\<lambda>s uri. schedule now uri s) s uris)"
    "keeps h s (foldl (\<lambda>s uri. schedule now uri (forget_analysis uri s)) s uris)"
proof -
  have "keeps h s (foldl (\<lambda>s uri. schedule now uri s) s uris) \<and>
      sv_open (foldl (\<lambda>s uri. schedule now uri s) s uris) = sv_open s"
    by (rule keeps_foldl [where P = "\<lambda>t. sv_open t = sv_open s"]) (use assms in \<open>auto simp: keeps_schedule\<close>)
  then show "keeps h s (foldl (\<lambda>s uri. schedule now uri s) s uris)" by blast
  have step: "keeps h t (schedule now uri (forget_analysis uri t))" "sv_open (forget_analysis uri t) = sv_open t"
    if "server_ok t" "uri \<in> set (sv_open t)" for uri and t :: "('a, 'b, 'c) server"
  proof -
    show "sv_open (forget_analysis uri t) = sv_open t" by (simp add: forget_analysis_def)
    then have "keeps h (forget_analysis uri t) (schedule now uri (forget_analysis uri t))"
      using that by (intro keeps_schedule keepsD [OF keeps_forget]) simp_all
    then show "keeps h t (schedule now uri (forget_analysis uri t))"
      by (rule keeps_trans [OF keeps_forget [OF that(1)]])
  qed
  have "keeps h s (foldl (\<lambda>s uri. schedule now uri (forget_analysis uri s)) s uris) \<and>
      sv_open (foldl (\<lambda>s uri. schedule now uri (forget_analysis uri s)) s uris) = sv_open s"
    by (rule keeps_foldl [where P = "\<lambda>t. sv_open t = sv_open s"])
      (use assms in \<open>auto simp: step\<close>)
  then show "keeps h s (foldl (\<lambda>s uri. schedule now uri (forget_analysis uri s)) s uris)" by blast
qed

lemma reload_entries_keep:
  "server_ok s \<Longrightarrow> set due \<subseteq> set (sv_open s) \<Longrightarrow> foldl (reload_entry h) (s, due) es = (s', due') \<Longrightarrow>
    keeps h s s' \<and> desk s' = desk s \<and> set due' \<subseteq> set (sv_open s)"
proof (induction es arbitrary: s due)
  case (Cons e es)
  let ?s = "invalidate_entry h e s"
  obtain d where d: "reload_entry h (s, due) e = (?s, d)" "set d \<subseteq> set (sv_open s)"
    using Cons.prems(2) by (auto simp: reload_entry_def)
  have k: "keeps h s ?s" by (rule keeps_invalidate [OF Cons.prems(1)])
  have "keeps h ?s s' \<and> desk s' = desk ?s \<and> set due' \<subseteq> set (sv_open ?s)"
    by (rule Cons.IH [OF keepsD [OF k]]) (use Cons.prems(3) d in simp_all)
  with keeps_trans [OF k] show ?case by simp
qed (simp add: keeps_refl)

lemma watched_files_keeps:
  assumes "server_ok s" shows "keeps h s (did_change_watched_files h now uris s)"
proof -
  let ?changed = "map normalize (List.map_filter folder_path_of uris)"
  obtain s1 due where s1: "foldl (reload_entry h) (s, [])
      (reloaded_by (watched_file (ho_files h)) (sv_router s) ?changed) = (s1, due)" by force
  have k: "keeps h s s1" "desk s1 = desk s" "set due \<subseteq> set (sv_open s)"
    using reload_entries_keep [OF assms _ s1] by auto
  have "keeps h s (foldl (\<lambda>s uri. schedule now uri s) s1 due)"
    using keeps_trans [OF k(1) schedule_all_keeps(1) [OF keepsD [OF k(1)]]] k by (simp add: desk_eq_iff)
  moreover have "keeps h s (foldl (\<lambda>s uri. schedule now uri (forget_analysis uri s)) (rebuild_registry h now s)
      (sv_open (rebuild_registry h now s)))"
    by (rule keeps_trans [OF rebuild_keeps(1) [OF assms] schedule_all_keeps(2) [OF keepsD [OF rebuild_keeps(1) [OF assms]]]]) simp
  ultimately show ?thesis
    by (simp only: did_change_watched_files_def Let_def s1 prod.case) (simp add: keeps_refl [OF assms])
qed

lemma hover_none: "index_ok d \<Longrightarrow> hover a e d p = Some None"
proof -
  assume "index_ok d"
  then obtain k where "offset_at d p = Some k" using offset_at_total by blast
  then obtain t where "token_at (an_reconciled a) d p = Some t" by (simp add: token_at_def)
  then show ?thesis by (cases t) (simp_all add: hover_def describe_def)
qed

lemma hover_at_null: "server_ok s \<Longrightarrow> hover_at h p s = Some JNull"
  by (auto simp: hover_at_def hover_none server_okD(11) split: option.splits)

lemma completion_total: "index_ok d \<Longrightarrow> \<exists>items. completion c g d p = Some items"
proof -
  assume ok: "index_ok d"
  then obtain k where k: "offset_at d p = Some k" using offset_at_total by blast
  obtain pre where "slice_to (doc_text d) k = Some pre"
    using offset_at_boundary [OF ok k] by (auto simp: is_char_boundary_iff slice_to_Some)
  with k show ?thesis by (simp add: completion_def)
qed

lemma complete_keeps:
  assumes "server_ok s"
  obtains v where "fst (complete h now p s) = Some v" "keeps h s (snd (complete h now p s))"
proof (cases "store_get (sv_docs s) (pp_uri p)")
  case None
  with assms that show thesis by (simp add: complete_def keeps_refl)
next
  case d: (Some d)
  show thesis
  proof (cases "route h s d = None \<or> over_limit s d \<noteq> None")
    case True
    then have "complete h now p s = (Some (JArr []), s)"
      by (cases "route h s d") (simp_all add: complete_def d)
    with assms that show thesis by (simp add: keeps_refl)
  next
    case False
    then obtain e where e: "route h s d = Some e" "over_limit s d = None" by auto
    obtain got s1 where s1: "get_instance h e s = (got, s1)" by force
    have k: "keeps h s s1" using keeps_get [OF assms, of h e] by (simp add: s1)
    note ok1 = keepsD [OF k]
    show thesis
    proof (cases got)
      case (Inl err)
      with d e s1 that show thesis by (auto simp: complete_def intro: keeps_trans [OF k] keeps_log [OF ok1])
    next
      case (Inr r)
      show thesis
      proof (cases r)
        case None
        with d e s1 Inr that k show thesis by (auto simp: complete_def)
      next
        case (Some inst)
        let ?f = "\<lambda>s2. (completion (continuations_query h now inst s2) (ho_tokens h (gt_engine (ps_engine inst))) d
            (pp_position p), s2)"
        have idx: "index_ok d" using server_okD(11) [OF assms d] by simp
        obtain items where items: "with_deadline now ?f s1 = (Some items, s1)"
        proof (cases "cf_deadline (sv_config s1)")
          case None
          with that show thesis using completion_total [OF idx] by (fastforce simp: with_deadline_def)
        next
          case (Some limit)
          obtain items where "completion (continuations_query h now inst (s1\<lparr>sv_slot := Some (now + limit)\<rparr>))
              (ho_tokens h (gt_engine (ps_engine inst))) d (pp_position p) = Some items"
            using completion_total [OF idx] by blast
          moreover have "s1\<lparr>sv_slot := None\<rparr> = s1" using server_okD(9) [OF ok1] by simp
          ultimately show thesis using Some by (intro that [of items]) (simp add: with_deadline_def)
        qed
        show thesis
          by (rule that [of "JArr (map completion_item_to_json items)"])
            (use d e s1 Inr Some items k in \<open>simp_all add: complete_def\<close>)
      qed
    qed
  qed
qed


section \<open>What is answered\<close>

text \<open>The answers among the messages sent between two states, in order.\<close>

definition replied :: "('g, 'v, 'e, 'tin) host \<Rightarrow> ('g, 'v, 'e) server \<Rightarrow> ('g, 'v, 'e) server \<Rightarrow> message list \<Rightarrow> bool" where
  "replied h s s' rs \<longleftrightarrow> (\<exists>ms. sends h s ms s' \<and> filter (\<lambda>m. \<not> unsolicited m) ms = rs)"

lemma quiet_replied: "quiet h s s' \<longleftrightarrow> replied h s s' []"
  by (simp add: quiet_def replied_def filter_empty_conv list_all_iff)

lemma replied_trans: "replied h s t rs \<Longrightarrow> replied h t u qs \<Longrightarrow> replied h s u (rs @ qs)"
  unfolding replied_def by (metis sends_trans filter_append)

lemma replied_send: "\<not> unsolicited m \<Longrightarrow> replied h s (snd (send_message h m s)) [m]"
  unfolding replied_def by (rule exI [of _ "[m]"]) (simp add: sends_one)

text \<open>
  The answers a message is due: one for a request, unless its kind is a notification's and its
  params are that notification's (or it takes none), one for an id without anything else, none
  otherwise.
\<close>

definition takes_no_answer :: "rstr \<Rightarrow> json \<Rightarrow> bool" where
  "takes_no_answer meth params \<longleftrightarrow>
     meth = str ''initialized'' \<or> meth = str ''exit'' \<or>
     (meth = str ''textDocument/didOpen'' \<and> read_did_open params \<noteq> None) \<or>
     (meth = str ''textDocument/didChange'' \<and> read_did_change params \<noteq> None) \<or>
     (meth = str ''textDocument/didClose'' \<and> read_text_document_params params \<noteq> None) \<or>
     (meth = str ''workspace/didChangeWatchedFiles'' \<and> read_watched_files params \<noteq> None)"

definition answers_due :: "message \<Rightarrow> nat" where
  "answers_due m = (case ms_id m of
      None \<Rightarrow> 0
    | Some i \<Rightarrow>
        (case ms_method m of
           None \<Rightarrow> if is_response m then 0 else 1
         | Some meth \<Rightarrow> if takes_no_answer meth (unwrap_or (ms_params m) JNull) then 0 else 1))"

definition opens_new :: "message \<Rightarrow> ('g, 'v, 'e) server \<Rightarrow> bool" where
  "opens_new m s \<longleftrightarrow> (if ms_method m = Some (str ''textDocument/didOpen'')
     then (case read_did_open (unwrap_or (ms_params m) JNull) of
         Some p \<Rightarrow> ti_uri p \<notin> set (sv_open s) | None \<Rightarrow> True)
     else True)"

text \<open>
  One handled message: no unwinding, \<open>n\<close> answers to the id \<open>i\<close>, the state kept, and the two
  flags set as \<open>f\<close> says and not otherwise.
\<close>

definition answered :: "('g, 'v, 'e, 'tin) host \<Rightarrow> bool \<Rightarrow> bool \<times> bool \<Rightarrow> nat \<Rightarrow> json option \<Rightarrow> ('g, 'v, 'e) server \<Rightarrow>
    rpc_error option option \<times> ('g, 'v, 'e) server \<Rightarrow> bool" where
  "answered h fresh f n i s x \<longleftrightarrow> fst x \<noteq> None \<and> server_ok (snd x) \<and> (tidy s \<longrightarrow> tidy (snd x)) \<and>
     (fresh \<longrightarrow> views_ok h s \<longrightarrow> views_ok h (snd x)) \<and>
     flags (snd x) = (sv_shutdown s \<or> fst f, sv_exited s \<or> snd f) \<and>
     (\<exists>rs. replied h s (snd x) rs \<and> map ms_id rs = replicate n i)"

abbreviation no_flags :: "bool \<times> bool" where
  "no_flags \<equiv> (False, False)"

lemma answered_keeps: "keeps h s t \<Longrightarrow> answered h fresh no_flags 0 i s (Some r, t)"
  by (auto simp: answered_def keeps_def quiet_replied flags_def)

lemma answered_returning_keeps: "keeps h s (snd x) \<Longrightarrow> answered h fresh no_flags 0 i s (returning x)"
  by (auto simp: answered_def returning_def keeps_def quiet_replied flags_def)

lemma answered_reply:
  assumes "keeps h s t" "\<not> unsolicited m" "publication m = None" "ms_id m = i"
  shows "answered h fresh no_flags 1 i s (Some (fst (send_message h m t)), snd (send_message h m t))"
proof -
  have "server_ok (snd (send_message h m t))"
    by (rule server_ok_same(1) [OF keepsD [OF assms(1)]]) simp_all
  moreover have "views_ok h t \<Longrightarrow> views_ok h (snd (send_message h m t))" by (simp add: views_ok_def)
  moreover have "replied h s (snd (send_message h m t)) [m]"
    using replied_trans [OF _ replied_send [OF assms(2)]] assms(1) by (fastforce simp: keeps_def quiet_replied)
  moreover have "tidy t \<longrightarrow> tidy (snd (send_message h m t))" by (rule tidy_send) (simp_all add: assms(3))
  ultimately show ?thesis using assms(1,4) by (auto simp: answered_def keeps_def flags_def)
qed

lemma answer_ids [simp]:
  "ms_id (message_response i v) = Some i" "ms_id (error_response i c txt) = Some i"
  by (simp_all add: message_response_def error_response_def message_blank_def)

lemma answered_request:
  "keeps h s t \<Longrightarrow> answered h fresh no_flags (if i = None then 0 else 1) i s (returning (answer_request h i v t))"
  using answered_reply [of h s t "message_response (the i) v" i fresh] answered_keeps [of h s t fresh i]
  by (cases i) (simp_all add: answer_request_def returning_def)

lemma answered_bad_params:
  assumes "server_ok s"
  shows "answered h fresh no_flags (if i = None then 0 else 1) i s
    (let (r, s') = bad_params h i meth params s in (Some r, s'))"
proof (cases i)
  case None
  then show ?thesis by (simp add: bad_params_def Let_def answered_keeps keeps_log assms)
next
  case (Some i')
  then show ?thesis
    by (simp add: bad_params_def Let_def case_prod_unfold del: One_nat_def)
      (rule answered_reply [OF keeps_refl [OF assms]], simp_all)
qed

lemma answered_with_params:
  assumes "server_ok s" "\<And>p. rd params = Some p \<Longrightarrow> answered h fresh g n i s (f p s)"
    and "rd params = None \<Longrightarrow> n = (if i = None then 0 else 1) \<and> g = no_flags"
  shows "answered h fresh g n i s (with_params h rd i meth params f s)"
  using assms answered_bad_params [OF assms(1), of h fresh i meth params]
  by (cases "rd params") (simp_all add: with_params_def)

lemma answered_views:
  "answered h True g n i s x \<Longrightarrow> answered h fresh g n i s x"
  by (simp add: answered_def)


definition answers_for :: "rstr \<Rightarrow> json option \<Rightarrow> json \<Rightarrow> nat" where
  "answers_for meth i params = (if i = None \<or> takes_no_answer meth params then 0 else 1)"

definition fresh_open :: "rstr \<Rightarrow> json \<Rightarrow> ('g, 'v, 'e) server \<Rightarrow> bool" where
  "fresh_open meth params s \<longleftrightarrow> (if meth = str ''textDocument/didOpen''
     then (case read_did_open params of Some p \<Rightarrow> ti_uri p \<notin> set (sv_open s) | None \<Rightarrow> True) else True)"

lemma dispatch_lifecycle:
  assumes ok: "server_ok s"
    and meth: "meth \<in> {str ''initialize'', str ''initialized'', str ''shutdown'', str ''exit'', str ''tabnas/status''}"
  shows "answered h True (meth = str ''shutdown'', meth = str ''exit'') (answers_for meth i params) i s (dispatch h now meth i params s)"
proof -
  consider "meth = str ''initialize''" | "meth = str ''initialized''" | "meth = str ''shutdown''"
    | "meth = str ''exit''" | "meth = str ''tabnas/status''"
    using meth by blast
  then show ?thesis
  proof cases
    case 1
    then show ?thesis
      using answered_request [OF initialize_keeps(1) [OF ok], of h True i]
      by (simp add: dispatch_def answers_for_def takes_no_answer_def case_prod_unfold Let_def)
  next
    case 2
    then show ?thesis
      using answered_returning_keeps [OF initialized_keeps [OF ok]]
      by (simp add: dispatch_def answers_for_def takes_no_answer_def)
  next
    case 3
    let ?t = "s\<lparr>sv_shutdown := True\<rparr>"
    have t: "server_ok ?t" "views_ok h s \<longrightarrow> views_ok h ?t" "tidy s \<longrightarrow> tidy ?t" "quiet h s ?t"
      by (rule server_ok_same [OF ok] tidy_same quiet_same, simp_all)+
    have "answered h True no_flags (if i = None then 0 else 1) i ?t (returning (answer_request h i JNull ?t))"
      by (rule answered_request [OF keeps_refl [OF t(1)]])
    then have "answered h True (True, False) (if i = None then 0 else 1) i s (returning (answer_request h i JNull ?t))"
      using t(2-4) replied_trans [of h s ?t "[]"] by (fastforce simp: answered_def quiet_replied)
    then show ?thesis by (simp add: dispatch_def answers_for_def takes_no_answer_def 3)
  next
    case 4
    let ?t = "s\<lparr>sv_exited := True\<rparr>"
    have t: "server_ok ?t" "views_ok h s \<longrightarrow> views_ok h ?t" "tidy s \<longrightarrow> tidy ?t" "quiet h s ?t"
      by (rule server_ok_same [OF ok] tidy_same quiet_same, simp_all)+
    then have "answered h True (False, True) 0 i s (Some None, ?t)"
      by (simp add: answered_def quiet_replied flags_def)
    then show ?thesis by (simp add: dispatch_def answers_for_def takes_no_answer_def 4)
  next
    case 5
    then show ?thesis
      using answered_request [OF keeps_refl [OF ok], of h True i] by (simp add: dispatch_def answers_for_def takes_no_answer_def)
  qed
qed

lemma dispatch_sync:
  assumes ok: "server_ok s"
    and meth: "meth \<in> {str ''textDocument/didOpen'', str ''textDocument/didChange'', str ''textDocument/didClose'',
      str ''workspace/didChangeWatchedFiles''}"
  shows "answered h (fresh_open meth params s) no_flags (answers_for meth i params) i s (dispatch h now meth i params s)"
proof -
  consider "meth = str ''textDocument/didOpen''" | "meth = str ''textDocument/didChange''"
    | "meth = str ''textDocument/didClose''" | "meth = str ''workspace/didChangeWatchedFiles''"
    using meth by blast
  then show ?thesis
  proof cases
    case 1
    have d: "dispatch h now meth i params s = with_params h read_did_open i meth params
        (\<lambda>p s. (Some None, did_open now p s)) s"
      by (simp add: dispatch_def 1)
    show ?thesis unfolding d
    proof (rule answered_with_params [OF ok])
      fix p assume p: "read_did_open params = Some p"
      have "fresh_open meth params s \<Longrightarrow> views_ok h s \<Longrightarrow> views_ok h (did_open now p s)"
        using did_open_keeps(4) [OF ok] by (simp add: fresh_open_def 1 p)
      then show "answered h (fresh_open meth params s) no_flags (answers_for meth i params) i s (Some None, did_open now p s)"
        using did_open_keeps(1-3) [OF ok]
        by (auto simp: answered_def answers_for_def takes_no_answer_def 1 p quiet_replied flags_def did_open_def)
    qed (simp add: answers_for_def takes_no_answer_def 1)
  next
    case 2
    have d: "dispatch h now meth i params s = with_params h read_did_change i meth params
        (\<lambda>p s. case did_change now p s of None \<Rightarrow> (None, s) | Some s' \<Rightarrow> (Some None, s')) s"
      by (simp add: dispatch_def 2)
    show ?thesis unfolding d
    proof (rule answered_with_params [OF ok])
      fix p assume p: "read_did_change params = Some p"
      obtain s' where "did_change now p s = Some s'" "keeps h s s'" by (rule did_change_keeps [OF ok])
      then show "answered h (fresh_open meth params s) no_flags (answers_for meth i params) i s
          (case did_change now p s of None \<Rightarrow> (None, s) | Some s' \<Rightarrow> (Some None, s'))"
        by (simp add: answered_keeps answers_for_def takes_no_answer_def 2 p)
    qed (simp add: answers_for_def takes_no_answer_def 2)
  next
    case 3
    have d: "dispatch h now meth i params s = with_params h read_text_document_params i meth params
        (\<lambda>uri s. returning (did_close h uri s)) s"
      by (simp add: dispatch_def 3)
    show ?thesis unfolding d
      by (rule answered_with_params [OF ok])
        (use answered_returning_keeps [OF did_close_keeps [OF ok]] in \<open>simp_all add: answers_for_def takes_no_answer_def 3\<close>)
  next
    case 4
    have d: "dispatch h now meth i params s = with_params h read_watched_files i meth params
        (\<lambda>uris s. (Some None, did_change_watched_files h now uris s)) s"
      by (simp add: dispatch_def 4)
    show ?thesis unfolding d
      by (rule answered_with_params [OF ok])
        (use answered_keeps [OF watched_files_keeps [OF ok]] in \<open>simp_all add: answers_for_def takes_no_answer_def 4\<close>)
  qed
qed

lemma dispatch_views:
  assumes ok: "server_ok s"
    and meth: "meth \<in> {str ''textDocument/completion'', str ''textDocument/documentSymbol'',
      str ''textDocument/semanticTokens/full'', str ''textDocument/hover''}"
  shows "answered h True no_flags (answers_for meth i params) i s (dispatch h now meth i params s)"
proof -
  have one: "answers_for meth i params = (if i = None then 0 else 1)"
    using meth by (auto simp: answers_for_def takes_no_answer_def)
  have self: "answered h True no_flags (if i = None then 0 else 1) i s (returning (answer_request h i v s))" for v
    by (rule answered_request [OF keeps_refl [OF ok]])
  consider "meth = str ''textDocument/completion''" | "meth = str ''textDocument/documentSymbol''"
    | "meth = str ''textDocument/semanticTokens/full''" | "meth = str ''textDocument/hover''"
    using meth by blast
  then show ?thesis
  proof cases
    case 1
    have d: "dispatch h now meth i params s = with_params h read_position_params i meth params
        (\<lambda>p s. answer_with h i (complete h now p s)) s"
      by (simp add: dispatch_def 1)
    show ?thesis unfolding d one
    proof (rule answered_with_params [OF ok])
      fix p
      obtain v where "fst (complete h now p s) = Some v" "keeps h s (snd (complete h now p s))"
        by (rule complete_keeps [OF ok])
      then show "answered h True no_flags (if i = None then 0 else 1) i s (answer_with h i (complete h now p s))"
        using answered_request [of h s "snd (complete h now p s)" True i v]
        by (cases "complete h now p s") (simp add: answer_with_def)
    qed simp
  next
    case 2
    have d: "dispatch h now meth i params s = with_params h read_text_document_params i meth params
        (\<lambda>uri s. returning (answer_request h i (document_symbols s uri) s)) s"
      by (simp add: dispatch_def 2)
    show ?thesis unfolding d one by (rule answered_with_params [OF ok]) (simp_all add: self)
  next
    case 3
    have d: "dispatch h now meth i params s = with_params h read_text_document_params i meth params
        (\<lambda>uri s. returning (answer_request h i (semantic_tokens_full s uri) s)) s"
      by (simp add: dispatch_def 3)
    show ?thesis unfolding d one by (rule answered_with_params [OF ok]) (simp_all add: self)
  next
    case 4
    have d: "dispatch h now meth i params s = with_params h read_position_params i meth params
        (\<lambda>p s. answer_with h i (hover_at h p s, s)) s"
      by (simp add: dispatch_def 4)
    show ?thesis unfolding d one
      by (rule answered_with_params [OF ok]) (simp_all add: answer_with_def hover_at_null [OF ok] self)
  qed
qed

definition known_kinds :: "rstr list" where
  "known_kinds = [str ''initialize'', str ''initialized'', str ''shutdown'', str ''exit'', str ''tabnas/status'',
     str ''textDocument/didOpen'', str ''textDocument/didChange'', str ''textDocument/didClose'',
     str ''workspace/didChangeWatchedFiles'', str ''textDocument/completion'', str ''textDocument/documentSymbol'',
     str ''textDocument/semanticTokens/full'', str ''textDocument/hover'']"

lemma dispatch_unknown:
  assumes "server_ok s" "meth \<notin> set known_kinds"
  shows "answered h True no_flags (answers_for meth i params) i s (dispatch h now meth i params s)"
proof -
  have "answers_for meth i params = (if i = None then 0 else 1)"
    "dispatch h now meth i params s = (case i of
          Some i' \<Rightarrow> returning (send_message h (error_response i' METHOD_NOT_FOUND (str ''Unhandled method '' @ meth)) s)
        | None \<Rightarrow> (Some None, s))"
    using assms(2) by (simp_all add: answers_for_def takes_no_answer_def dispatch_def known_kinds_def)
  then show ?thesis
    by (cases i)
      (simp_all add: returning_def answered_keeps keeps_refl assms(1) answered_reply [unfolded One_nat_def])
qed

lemma dispatch_answered:
  assumes "server_ok s"
  shows "answered h (fresh_open meth params s) (meth = str ''shutdown'', meth = str ''exit'') (answers_for meth i params) i s
    (dispatch h now meth i params s)"
proof (cases "meth \<in> set known_kinds")
  case False
  then have "(meth = str ''shutdown'', meth = str ''exit'') = no_flags" by (auto simp: known_kinds_def)
  then show ?thesis using answered_views [OF dispatch_unknown [OF assms False]] by simp
next
  case True
  then have "meth \<in> {str ''initialize'', str ''initialized'', str ''shutdown'', str ''exit'', str ''tabnas/status''} \<union>
      {str ''textDocument/didOpen'', str ''textDocument/didChange'', str ''textDocument/didClose'',
        str ''workspace/didChangeWatchedFiles''} \<union>
      {str ''textDocument/completion'', str ''textDocument/documentSymbol'',
        str ''textDocument/semanticTokens/full'', str ''textDocument/hover''}"
    unfolding known_kinds_def list.set Un_insert_left Un_empty_left .
  then show ?thesis
  proof (elim UnE)
    assume m: "meth \<in> {str ''initialize'', str ''initialized'', str ''shutdown'', str ''exit'', str ''tabnas/status''}"
    show ?thesis by (rule answered_views [OF dispatch_lifecycle [OF assms m]])
  next
    assume m: "meth \<in> {str ''textDocument/didOpen'', str ''textDocument/didChange'', str ''textDocument/didClose'',
        str ''workspace/didChangeWatchedFiles''}"
    then have "(meth = str ''shutdown'', meth = str ''exit'') = no_flags" by auto
    then show ?thesis using dispatch_sync [OF assms m] by simp
  next
    assume m: "meth \<in> {str ''textDocument/completion'', str ''textDocument/documentSymbol'',
        str ''textDocument/semanticTokens/full'', str ''textDocument/hover''}"
    then have "(meth = str ''shutdown'', meth = str ''exit'') = no_flags" by auto
    then show ?thesis using answered_views [OF dispatch_views [OF assms m]] by simp
  qed
qed

text \<open>One message, whatever it is.\<close>

lemma handle_answered:
  assumes "server_ok s"
  shows "answered h (opens_new m s) (ms_method m = Some (str ''shutdown''), ms_method m = Some (str ''exit''))
    (answers_due m) (ms_id m) s (handle h now m s)"
proof (cases "ms_method m")
  case None
  show ?thesis
  proof (cases "ms_id m")
    case n: None
    then show ?thesis
      by (simp add: handle_def None answers_due_def answered_keeps keeps_refl assms)
  next
    case (Some i)
    then show ?thesis
      using answered_reply [OF keeps_refl [OF assms], of "error_response i INVALID_REQUEST
          (str ''Invalid request: a message needs a method, a result or an error'')" "Some i" h]
      by (auto simp: handle_def None answers_due_def answered_keeps keeps_refl assms returning_def)
  qed
next
  case (Some meth)
  let ?params = "unwrap_or (ms_params m) JNull"
  have "opens_new m s = fresh_open meth ?params s" by (simp add: opens_new_def fresh_open_def Some)
  moreover have "answers_due m = answers_for meth (ms_id m) ?params"
    by (simp add: answers_due_def answers_for_def Some split: option.splits)
  ultimately show ?thesis
    using dispatch_answered [OF assms, where h = h and meth = meth and params = ?params and i = "ms_id m" and now = now] by (simp add: handle_def Some)
qed

lemma handle_contained_answered:
  assumes "server_ok s"
  shows "\<exists>r. handle h now m s = (Some r, snd (handle_contained h now m s)) \<and> fst (handle_contained h now m s) = r"
proof -
  obtain r s' where "handle h now m s = (Some r, s')"
    using handle_answered [OF assms, of h m now] by (cases "handle h now m s") (auto simp: answered_def)
  then show ?thesis by (simp add: handle_contained_def)
qed

end
