(* ===== verification/Answers.thy ===== *)
theory Answers
  imports Handlers
begin

text \<open>
  What the handlers of \<open>Server\<close> answer their caller: with a writer that does not fail, no error;
  and the deadlines a look for due documents leaves.
\<close>

section \<open>When the writer does not fail\<close>

definition healthy :: "('g, 'v, 'e) server \<Rightarrow> bool" where
  "healthy s \<longleftrightarrow> sk_fault (cn_writer (sv_conn s)) = None \<and> sk_flush (cn_writer (sv_conn s)) = None"

lemma healthy_same: "sv_conn s' = sv_conn s \<Longrightarrow> healthy s' \<longleftrightarrow> healthy s"
  by (simp add: healthy_def)

lemma healthy_sends: "sends h s ms t \<Longrightarrow> healthy s \<Longrightarrow> healthy t"
  by (simp add: sends_def written_def healthy_def)

lemma healthy_quiet: "quiet h s t \<Longrightarrow> healthy s \<Longrightarrow> healthy t"
  unfolding quiet_def by (blast intro: healthy_sends)

lemma healthy_keeps: "keeps h s t \<Longrightarrow> healthy s \<Longrightarrow> healthy t"
  unfolding keeps_def by (blast intro: healthy_quiet)

lemma send_succeeds: "healthy s \<Longrightarrow> fst (send_message h m s) = None"
  by (simp add: healthy_def send_message_def send_def write_message_def write_all_def)

lemma publish_succeeds: "healthy s \<Longrightarrow> fst (publish h uri v ds s) = None"
  by (simp add: publish_def send_succeeds)

lemma answer_request_succeeds: "healthy s \<Longrightarrow> fst (answer_request h i v s) = None"
  by (simp add: answer_request_def send_succeeds split: option.splits)

lemma bad_params_succeeds: "healthy s \<Longrightarrow> fst (bad_params h i meth params s) = None"
  by (simp add: bad_params_def send_succeeds Let_def split: option.splits)

lemma with_deadline_conn:
  assumes "\<And>s. sv_conn (snd (f s)) = sv_conn s"
  shows "sv_conn (snd (with_deadline now f s)) = sv_conn s"
  using assms [of s] assms [of "s\<lparr>sv_slot := Some (now + the (cf_deadline (sv_config s)))\<rparr>"]
  by (auto simp: with_deadline_def split: option.splits prod.splits)

lemma run_analysis_succeeds:
  assumes "healthy s"
  shows "fst (run_analysis h now uri s) = None"
proof -
  have pub: "fst (publish h u v ds t) = None" if "sv_conn t = sv_conn s" for u v ds t
    using that assms healthy_same publish_succeeds by blast
  have timed: "sv_conn (snd (with_deadline now (analyze_caught h now inst e d) t)) = sv_conn t" for inst e d t
    by (rule with_deadline_conn) (simp add: analyze_caught_def case_prod_unfold Let_def)
  have fin: "fst (publish_analysis h uri v a t) = None" if "sv_conn t = sv_conn s" for v a t
    using pub [of "t\<lparr>sv_published := p\<rparr>" for p] that
    by (auto simp: publish_analysis_def Let_def split: prod.splits option.splits) (metis fst_conv option.distinct(1) pub)+
  have doc: "fst (analyze_document h now uri inst e d t) = None" if "sv_conn t = sv_conn s" for inst e d t
    using timed [of inst e d t] that fin
    by (auto simp: analyze_document_def Let_def split: prod.splits option.splits)
  have got: "sv_conn s1 = sv_conn s" if "get_instance h e s = (r, s1)" for e r s1
    using get_instance_fields(6) [of h e s] that by simp
  show ?thesis
    by (auto simp: run_analysis_def forget_analysis_def pub doc got split: option.splits prod.splits sum.splits)
qed

lemma analyze_each_succeeds: "server_ok s \<Longrightarrow> healthy s \<Longrightarrow> fst (analyze_each h now uris s) = None"
proof (induction uris arbitrary: s)
  case (Cons uri uris)
  let ?s = "s\<lparr>sv_pending := AList.delete uri (sv_pending s)\<rparr>"
  have ok: "server_ok ?s" by (rule server_ok_delete [OF Cons.prems(1)])
  have ran: "analyzed h uri ?s (snd (run_analysis h now uri ?s))"
    using run_analysis_analyzed [of ?s h uri now] ok by (simp add: server_ok_def)
  have fine: "healthy ?s" using Cons.prems(2) by (simp add: healthy_same [of ?s s])
  with ran have "healthy (snd (run_analysis h now uri ?s))" unfolding analyzed_def by (blast intro: healthy_quiet)
  then show ?case
    using Cons.IH analyzed_ok [OF ok ran] run_analysis_succeeds [OF fine, of h now uri]
    by (cases "run_analysis h now uri ?s") simp
qed simp

text \<open>A look for due documents leaves the deadlines that were not due.\<close>

lemma analyze_each_pending:
  "server_ok s \<Longrightarrow> fst (analyze_each h now uris s) = None \<Longrightarrow>
    sv_pending (snd (analyze_each h now uris s)) = filter (\<lambda>(uri, at). uri \<notin> set uris) (sv_pending s)"
proof (induction uris arbitrary: s)
  case (Cons uri uris)
  let ?s = "s\<lparr>sv_pending := AList.delete uri (sv_pending s)\<rparr>"
  obtain r t where t: "run_analysis h now uri ?s = (r, t)" by force
  have ok: "server_ok ?s" by (rule server_ok_delete [OF Cons.prems(1)])
  have ran: "analyzed h uri ?s t"
    using run_analysis_analyzed [of ?s h uri now] ok by (simp add: server_ok_def t)
  from Cons.prems(2) have r: "r = None" by (cases r) (simp_all add: t)
  then have step: "analyze_each h now (uri # uris) s = analyze_each h now uris t" by (simp add: t)
  have "sv_pending t = filter (\<lambda>(u, at). uri \<noteq> u) (sv_pending s)"
    using ran by (simp add: analyzed_def desk_eq_iff AList.delete_eq)
  then have "filter (\<lambda>(u, at). u \<notin> set uris) (sv_pending t) = filter (\<lambda>(u, at). u \<notin> set (uri # uris)) (sv_pending s)"
    by (auto intro: filter_cong)
  then show ?case
    using Cons.IH [of t] analyzed_ok [OF ok ran] Cons.prems(2) unfolding step by simp
qed simp

lemma fst_in_order: "set (in_order ds) = fst ` set ds"
  by (force simp: in_order_def)

lemma analyze_due_pending:
  assumes "server_ok s" "fst (analyze_due h now s) = None"
  shows "sv_pending (snd (analyze_due h now s)) = filter (\<lambda>(uri, at). now < at) (sv_pending s)"
proof -
  let ?due = "filter (\<lambda>(uri, at). at \<le> now) (sv_pending s)"
  have inj: "inj_on fst (set (sv_pending s))" using server_okD(3) [OF assms(1)] by (simp add: distinct_map)
  have due: "set ?due \<subseteq> set (sv_pending s)" by auto
  have "fst p \<in> fst ` set ?due \<longleftrightarrow> p \<in> set ?due" if "p \<in> set (sv_pending s)" for p
    by (rule inj_on_image_mem_iff [OF inj that due])
  then have key: "fst p \<in> fst ` set ?due \<longleftrightarrow> snd p \<le> now" if "p \<in> set (sv_pending s)" for p
    using that by (simp only: set_filter mem_Collect_eq case_prod_unfold) simp
  have "filter (\<lambda>p. fst p \<notin> fst ` set ?due) (sv_pending s) = filter (\<lambda>p. now < snd p) (sv_pending s)"
    by (rule filter_cong [OF refl]) (simp only: key not_le)
  then show ?thesis
    using analyze_each_pending [OF assms(1), of h now "in_order ?due"] assms(2)
    by (simp only: analyze_due_def fst_in_order case_prod_unfold)
qed

lemma analyze_each_flags: "server_ok s \<Longrightarrow> flags (snd (analyze_each h now uris s)) = flags s"
proof (induction uris arbitrary: s)
  case (Cons uri uris)
  let ?s = "s\<lparr>sv_pending := AList.delete uri (sv_pending s)\<rparr>"
  obtain r t where t: "run_analysis h now uri ?s = (r, t)" by force
  have ok: "server_ok ?s" by (rule server_ok_delete [OF Cons.prems(1)])
  have ran: "analyzed h uri ?s t"
    using run_analysis_analyzed [of ?s h uri now] ok by (simp add: server_ok_def t)
  then have "flags t = flags s" by (simp add: analyzed_def desk_eq_iff flags_def)
  then show ?case using Cons.IH [OF analyzed_ok [OF ok ran]] by (simp add: t split: option.splits)
qed simp

lemma foldl_min: "foldl min (a :: nat) xs = Min (insert a (set xs))"
proof (induction xs arbitrary: a)
  case (Cons x xs)
  then show ?case by (cases "xs = []") (simp_all add: min.assoc)
qed simp

lemma next_deadline_Min:
  "next_deadline s = (if sv_pending s = [] then None else Some (Min (snd ` set (sv_pending s))))"
  by (cases "sv_pending s") (simp_all add: next_deadline_def foldl_min)

section \<open>The handlers answer no error of their own\<close>

definition untroubled :: "rpc_error option option \<times> ('g, 'v, 'e) server \<Rightarrow> bool" where
  "untroubled x \<longleftrightarrow> fst x \<in> {None, Some None}"

lemma untroubled_pair [simp]: "untroubled (None, s)" "untroubled (Some r, s) \<longleftrightarrow> r = None"
  by (simp_all add: untroubled_def)

lemma untroubled_returning: "fst x = None \<Longrightarrow> untroubled (returning x)"
  by (simp add: untroubled_def returning_def)

lemma untroubled_answer: "keeps h s t \<Longrightarrow> healthy s \<Longrightarrow> untroubled (returning (answer_request h i v t))"
  by (intro untroubled_returning answer_request_succeeds) (rule healthy_keeps)

lemma untroubled_with_params:
  "healthy s \<Longrightarrow> (\<And>p. untroubled (f p s)) \<Longrightarrow> untroubled (with_params h rd i meth params f s)"
  using bad_params_succeeds [of s h i meth params]
  by (auto simp: with_params_def Let_def split: option.splits prod.splits)

lemma dispatch_untroubled:
  assumes "server_ok s" "healthy s"
  shows "untroubled (dispatch h now meth i params s)"
proof -
  note refl = keeps_refl [OF assms(1), where h = h]
  have init: "untroubled (let (v, s') = initialize h now params s in returning (answer_request h i v s'))"
    using untroubled_answer [OF initialize_keeps(1) [OF assms(1)] assms(2)] by (simp add: case_prod_unfold Let_def)
  have initd: "untroubled (returning (initialized h s))"
    by (rule untroubled_returning)
      (simp add: initialized_def send_succeeds healthy_same [of "s\<lparr>sv_next_id := sv_next_id s + 1\<rparr>" s] assms(2))
  have shut: "untroubled (returning (answer_request h i JNull (s\<lparr>sv_shutdown := True\<rparr>)))"
    by (intro untroubled_returning answer_request_succeeds)
      (simp add: healthy_same [of "s\<lparr>sv_shutdown := True\<rparr>" s] assms(2))
  have close: "untroubled (returning (did_close h uri s))" for uri
    by (rule untroubled_returning) (simp add: did_close_def, rule publish_succeeds, use assms(2) in \<open>simp add: healthy_def\<close>)
  have compl: "untroubled (answer_with h i (complete h now p s))" for p
  proof -
    obtain v where "fst (complete h now p s) = Some v" "keeps h s (snd (complete h now p s))"
      by (rule complete_keeps [OF assms(1)])
    then show ?thesis
      using untroubled_answer [OF _ assms(2)] by (cases "complete h now p s") (simp add: answer_with_def)
  qed
  have answer: "untroubled (returning (answer_request h i v s))" for v
    by (rule untroubled_answer [OF refl assms(2)])
  have unknown: "untroubled (case i of
      Some i' \<Rightarrow> returning (send_message h (error_response i' METHOD_NOT_FOUND (str ''Unhandled method '' @ meth)) s)
    | None \<Rightarrow> (Some None, s))"
    by (simp add: untroubled_returning send_succeeds assms(2) split: option.splits)
  show ?thesis
    unfolding dispatch_def
    by (intro if_split [where P = untroubled, THEN iffD2] conjI impI init initd shut close compl answer unknown
        untroubled_with_params [OF assms(2)])
      (auto simp: hover_at_null [OF assms(1)] answer_with_def answer split: option.splits)
qed

lemma handle_contained_succeeds:
  assumes "server_ok s" "healthy s"
  shows "fst (handle_contained h now m s) = None" "healthy (snd (handle_contained h now m s))"
proof -
  have "untroubled (handle h now m s)"
    using dispatch_untroubled [OF assms] assms(2)
    by (auto simp: handle_def untroubled_returning send_succeeds split: option.splits)
  then show "fst (handle_contained h now m s) = None"
    using handle_contained_answered [OF assms(1), of h now m] by (auto simp: untroubled_def)
  show "healthy (snd (handle_contained h now m s))"
    using handle_answered [OF assms(1), of h m now] handle_contained_answered [OF assms(1), of h now m] assms(2)
    by (auto simp: answered_def replied_def dest: healthy_sends)
qed

lemma reject_succeeds:
  assumes "healthy s"
  shows "fst (reject h err s) = None" "healthy (snd (reject h err s))"
proof -
  show "fst (reject h err s) = None"
    using assms by (simp add: reject_def send_succeeds split: option.splits)
  have "\<exists>ms. sends h s ms (snd (reject h err s))"
    using quiet_log [of s s h] by (auto simp: reject_def quiet_def intro: sends_one split: option.splits)
  then show "healthy (snd (reject h err s))" using assms by (blast intro: healthy_sends)
qed

end
