(* ===== verification/Publications.thy ===== *)
theory Publications
  imports Answers
begin

text \<open>
  Which diagnostics are published: only by an analysis, stamped with the version of the open
  document it was made of, and by \<open>didClose\<close>, empty and for a document that is open no more.
\<close>

section \<open>The publications among the messages sent\<close>

definition is_push :: "message \<Rightarrow> bool" where
  "is_push m \<longleftrightarrow> ms_method m = Some (str ''textDocument/publishDiagnostics'')"

definition pubs :: "('g, 'v, 'e) server \<Rightarrow> message list" where
  "pubs s = filter is_push (sv_sent s)"

definition publishing :: "rstr \<Rightarrow> int option \<Rightarrow> diagnostic list \<Rightarrow> message" where
  "publishing uri v ds =
     message_notification (str ''textDocument/publishDiagnostics'') (Some (publish_params uri v ds))"

lemma is_push_simps [simp]:
  "is_push (publishing uri v ds)" "\<not> is_push (message_response i x)" "\<not> is_push (error_response i c txt)"
  "\<not> is_push (message_notification (str ''window/logMessage'') p)" "\<not> is_push (registration n)"
  by (simp_all add: is_push_def publishing_def message_response_def error_response_def message_notification_def
      message_blank_def registration_def message_request_def)

lemma publish_sends: "publish h uri v ds s = send_message h (publishing uri v ds) s"
  by (simp add: publish_def publishing_def)

lemma pubs_same: "sv_sent s' = sv_sent s \<Longrightarrow> pubs s' = pubs s"
  by (simp add: pubs_def)

lemma pubs_updates [simp]:
  "pubs (s\<lparr>sv_trust := b\<rparr>) = pubs s" "pubs (s\<lparr>sv_folders := fs\<rparr>) = pubs s"
  "pubs (s\<lparr>sv_init_languages := es\<rparr>) = pubs s" "pubs (s\<lparr>sv_encoding := enc\<rparr>) = pubs s"
  "pubs (s\<lparr>sv_docs := ds\<rparr>) = pubs s" "pubs (s\<lparr>sv_open := us\<rparr>) = pubs s"
  "pubs (s\<lparr>sv_next_id := i\<rparr>) = pubs s" "pubs (s\<lparr>sv_shutdown := b\<rparr>) = pubs s"
  "pubs (s\<lparr>sv_exited := b\<rparr>) = pubs s" "pubs (s\<lparr>sv_router := r\<rparr>) = pubs s"
  "pubs (s\<lparr>sv_slot := at\<rparr>) = pubs s" "pubs (s\<lparr>sv_pending := p\<rparr>) = pubs s"
  "pubs (s\<lparr>sv_published := u\<rparr>) = pubs s" "pubs (s\<lparr>sv_instances := insts\<rparr>) = pubs s"
  "pubs (s\<lparr>sv_analyses := a\<rparr>) = pubs s" "pubs (s\<lparr>sv_conn := c\<rparr>) = pubs s"
  by (simp_all add: pubs_def)

lemma pubs_send [simp]:
  "pubs (snd (send_message h m s)) = pubs s @ (if is_push m then [m] else [])"
  by (simp add: pubs_def)

lemma pubs_log [simp]: "pubs (log_message h k txt s) = pubs s"
  by (simp add: log_message_def)

lemma pubs_answer [simp]: "pubs (snd (answer_request h i v s)) = pubs s"
  by (simp add: answer_request_def split: option.splits)

lemma pubs_bad_params [simp]: "pubs (snd (bad_params h i meth params s)) = pubs s"
  by (simp add: bad_params_def Let_def split: option.splits)

lemma pubs_foldl: "(\<And>s x. pubs (f s x) = pubs s) \<Longrightarrow> pubs (foldl f s xs) = pubs s"
  by (induction xs arbitrary: s) simp_all

section \<open>The handlers that publish nothing\<close>

lemma pubs_schedule [simp]: "pubs (schedule now uri s) = pubs s"
  and pubs_forget [simp]: "pubs (forget_analysis uri s) = pubs s"
  and pubs_invalidate [simp]: "pubs (invalidate_entry h e s) = pubs s"
  and pubs_get [simp]: "pubs (snd (get_instance h e s)) = pubs s"
  by (rule pubs_same, simp add: schedule_def forget_analysis_def)+

lemma pubs_invalidate_workspace [simp]: "pubs (invalidate_workspace h s) = pubs s"
  unfolding invalidate_workspace_def by (rule pubs_foldl) simp

lemma pubs_folder_entries: "pubs (snd (foldl (folder_entries h now) (w, s) folders)) = pubs s"
proof (induction folders arbitrary: w s)
  case (Cons f folders)
  obtain w1 s1 where s1: "folder_entries h now (w, s) f = (w1, s1)" by force
  then have "pubs s1 = pubs s" by (auto simp: folder_entries_def split: sum.splits)
  with Cons.IH [of w1 s1] show ?case by (simp add: s1)
qed simp

lemma pubs_rebuild [simp]: "pubs (rebuild_registry h now s) = pubs s"
proof -
  let ?s1 = "invalidate_workspace h s"
  obtain w s2 where s2: "foldl (folder_entries h now)
      (cf_workspace_entries (sv_config ?s1) @ sv_init_languages ?s1, ?s1) (sv_folders ?s1) = (w, s2)" by force
  then have "pubs s2 = pubs s" using pubs_folder_entries [of h now _ ?s1] by (metis snd_conv pubs_invalidate_workspace)
  moreover have "pubs (s2\<lparr>sv_router := set_workspace (sv_router s2) w\<rparr>) = pubs s2" by (rule pubs_same) simp
  ultimately show ?thesis by (simp add: rebuild_registry_def s2 Let_def)
qed

lemma pubs_take_language: "pubs (take_language h dir s x) = pubs s"
  by (simp add: take_language_def split: sum.splits)

lemma pubs_initialize: "pubs (snd (initialize h now params s)) = pubs s"
  by (simp add: initialize_def Let_def pubs_foldl pubs_take_language)

lemma pubs_initialized: "pubs (snd (initialized h s)) = pubs s"
  by (simp add: initialized_def)

lemma pubs_reload: "foldl (reload_entry h) (s, due) es = (s', due') \<Longrightarrow> pubs s' = pubs s"
  by (induction es arbitrary: s due) (auto simp: reload_entry_def)

lemma pubs_watched: "pubs (did_change_watched_files h now uris s) = pubs s"
proof -
  obtain s1 due where s1: "foldl (reload_entry h) (s, [])
      (reloaded_by (watched_file (ho_files h)) (sv_router s) (map normalize (List.map_filter folder_path_of uris))) = (s1, due)"
    by force
  show ?thesis
    by (simp only: did_change_watched_files_def Let_def s1 prod.case) (simp add: pubs_foldl pubs_reload [OF s1])
qed

lemma pubs_did_open [simp]: "pubs (did_open now p s) = pubs s"
  by (simp add: did_open_def)

lemma pubs_did_change: "did_change now p s = Some s' \<Longrightarrow> pubs s' = pubs s"
  by (auto simp: did_change_def split: option.splits)

lemma pubs_complete: "pubs (snd (complete h now p s)) = pubs s"
proof -
  have got: "pubs s1 = pubs s" if "get_instance h e s = (r, s1)" for e r s1
    using pubs_get [of h e s] that by simp
  have timed: "pubs u = pubs t" if "with_deadline now (\<lambda>s2. (g s2, s2)) t = (r, u)" for g t r u
    using that by (auto simp: with_deadline_def split: option.splits)
  show ?thesis
    by (auto simp: complete_def dest!: got timed split: option.splits prod.splits sum.splits)
qed

definition no_publications :: "('g, 'v, 'e) server \<Rightarrow> 'a \<times> ('g, 'v, 'e) server \<Rightarrow> bool" where
  "no_publications s x \<longleftrightarrow> pubs (snd x) = pubs s"

lemma no_publications_params:
  "(\<And>p. rd params = Some p \<Longrightarrow> no_publications s (f p s)) \<Longrightarrow> no_publications s (with_params h rd i meth params f s)"
  by (auto simp: with_params_def Let_def no_publications_def case_prod_unfold split: option.splits)

lemma dispatch_publishes_nothing:
  assumes "server_ok s" "meth \<noteq> str ''textDocument/didClose''"
  shows "no_publications s (dispatch h now meth i params s)"
proof -
  have init: "no_publications s (let (v, s') = initialize h now params s in returning (answer_request h i v s'))"
    by (simp add: no_publications_def returning_def case_prod_unfold Let_def pubs_initialize)
  have rest: "no_publications s (returning (answer_request h i v t))" if "pubs t = pubs s" for v t
    using that by (simp add: no_publications_def returning_def)
  have compl: "no_publications s (answer_with h i (complete h now p s))" for p
    using pubs_complete [of h now p s] rest
    by (auto simp: answer_with_def no_publications_def split: prod.splits option.splits)
  have change: "no_publications s (case did_change now p s of None \<Rightarrow> (None, s) | Some s' \<Rightarrow> (Some None, s'))" for p
    by (auto simp: no_publications_def pubs_did_change split: option.splits)
  show ?thesis
    unfolding dispatch_def if_not_P [OF assms(2)]
    by (intro if_split [where P = "no_publications s", THEN iffD2] conjI impI init compl change no_publications_params)
      (auto simp: no_publications_def returning_def pubs_initialized pubs_watched hover_at_null [OF assms(1)] answer_with_def
        split: option.splits)
qed

section \<open>The publications of an analysis\<close>

definition stamped :: "document_store \<Rightarrow> message \<Rightarrow> bool" where
  "stamped docs m \<longleftrightarrow> (\<exists>uri d ds. store_get docs uri = Some d \<and> m = publishing uri (Some (doc_version d)) ds)"

definition publishes :: "document_store \<Rightarrow> ('g, 'v, 'e) server \<Rightarrow> ('g, 'v, 'e) server \<Rightarrow> bool" where
  "publishes docs s t \<longleftrightarrow> (\<exists>ms. pubs t = pubs s @ ms \<and> list_all (stamped docs) ms)"

lemma publishes_none: "pubs t = pubs s \<Longrightarrow> publishes docs s t"
  by (simp add: publishes_def)

lemma publishes_trans: "publishes docs s t \<Longrightarrow> publishes docs t u \<Longrightarrow> publishes docs s u"
  unfolding publishes_def by (metis append_assoc list_all_append)

lemma publishes_one:
  "store_get docs uri = Some d \<Longrightarrow> pubs t = pubs s \<Longrightarrow> publishes docs s (snd (publish h uri (Some (doc_version d)) ds t))"
  by (auto simp: publishes_def publish_sends stamped_def)

lemma publish_analysis_publishes:
  assumes "store_get docs uri = Some d" "pubs t = pubs s"
  shows "publishes docs s (snd (publish_analysis h uri (doc_version d) a t))"
proof -
  let ?t = "t\<lparr>sv_published := (if an_diagnostics a = [] then sv_published t - {uri} else insert uri (sv_published t))\<rparr>"
  obtain r u where u: "publish h uri (Some (doc_version d)) (an_diagnostics a) ?t = (r, u)" by force
  have "publishes docs s u"
    using publishes_one [OF assms(1), of ?t s h "an_diagnostics a"] assms(2) by (simp add: u)
  then show ?thesis
    unfolding publish_analysis_def Let_def u prod.case by (cases r) (simp_all add: publishes_def)
qed

lemma analyze_document_publishes:
  assumes "store_get docs uri = Some d" "pubs t = pubs s"
  shows "publishes docs s (snd (analyze_document h now uri inst e d t))"
proof -
  obtain out u where u: "with_deadline now (analyze_caught h now inst e d) t = (out, u)" by force
  then have "pubs u = pubs s"
    using assms(2) by (auto simp: with_deadline_def analyze_caught_def case_prod_unfold Let_def split: option.splits)
  then show ?thesis
    using publish_analysis_publishes [OF assms(1), of u s h]
    by (auto simp: analyze_document_def u Let_def publishes_none split: option.splits)
qed

lemma run_analysis_publishes: "publishes (sv_docs s) s (snd (run_analysis h now uri s))"
proof (cases "store_get (sv_docs s) uri")
  case None
  then show ?thesis by (simp add: run_analysis_def publishes_none)
next
  case (Some d)
  have got: "pubs s1 = pubs s" if "get_instance h e s = (r, s1)" for e r s1
    using pubs_get [of h e s] that by simp
  show ?thesis
    using Some
    by (auto simp: run_analysis_def publishes_none got intro: publishes_one analyze_document_publishes
        split: option.splits prod.splits sum.splits)
qed

lemma analyze_each_publishes:
  "server_ok s \<Longrightarrow> publishes (sv_docs s) s (snd (analyze_each h now uris s)) \<and>
    sv_docs (snd (analyze_each h now uris s)) = sv_docs s"
proof (induction uris arbitrary: s)
  case (Cons uri uris)
  let ?s = "s\<lparr>sv_pending := AList.delete uri (sv_pending s)\<rparr>"
  obtain r t where t: "run_analysis h now uri ?s = (r, t)" by force
  have ok: "server_ok ?s" by (rule server_ok_delete [OF Cons.prems(1)])
  have ran: "analyzed h uri ?s t"
    using run_analysis_analyzed [of ?s h uri now] ok by (simp add: server_ok_def t)
  then have docs: "sv_docs t = sv_docs s" by (simp add: analyzed_def desk_eq_iff)
  have "publishes (sv_docs s) s t"
    using run_analysis_publishes [of ?s h now uri] by (simp add: t publishes_def)
  then show ?case
    using Cons.IH [OF analyzed_ok [OF ok ran]] docs
    by (cases r) (auto simp: t intro: publishes_trans)
qed (simp add: publishes_none)

text \<open>One message: the publication of a \<open>didClose\<close>, or none.\<close>

lemma did_close_publishes: "pubs (snd (did_close h uri s)) = pubs s @ [publishing uri None []]"
  by (simp add: did_close_def publish_sends)

lemma store_get_close: "store_get (store_close st uri) uri = None"
  by (simp add: store_close_def store_get_def)

lemma handled_publishes:
  assumes "server_ok s"
  shows "pubs (snd (handle_contained h now m s)) = pubs s \<or>
    (\<exists>uri. store_get (sv_docs (snd (handle_contained h now m s))) uri = None \<and>
       pubs (snd (handle_contained h now m s)) = pubs s @ [publishing uri None []])"
proof -
  let ?t = "snd (handle h now m s)"
  have same: "snd (handle_contained h now m s) = ?t"
    using handle_contained_answered [OF assms, of h now m] by force
  show ?thesis
  proof (cases "ms_method m")
    case None
    then have "pubs ?t = pubs s" by (auto simp: handle_def returning_def split: option.splits)
    then show ?thesis by (simp add: same)
  next
    case (Some meth)
    let ?params = "unwrap_or (ms_params m) JNull"
    have t: "?t = snd (dispatch h now meth (ms_id m) ?params s)" by (simp add: handle_def Some)
    show ?thesis
    proof (cases "meth = str ''textDocument/didClose''")
      case False
      then have "pubs ?t = pubs s"
        using dispatch_publishes_nothing [OF assms False, of h now "ms_id m" ?params] by (simp add: t no_publications_def)
      then show ?thesis by (simp add: same)
    next
      case True
      have d: "dispatch h now meth (ms_id m) ?params s =
          with_params h read_text_document_params (ms_id m) meth ?params (\<lambda>uri s. returning (did_close h uri s)) s"
        by (simp add: dispatch_def True)
      have docs: "sv_docs (snd (did_close h uri s)) = store_close (sv_docs s) uri" for uri
        by (simp add: did_close_def publish_def)
      show ?thesis
        by (cases "read_text_document_params ?params")
          (auto simp: same t d with_params_def returning_def case_prod_unfold Let_def did_close_publishes docs
            intro: store_get_close)
    qed
  qed
qed

end
