(* ===== verification/Reload.thy ===== *)
theory Reload
  imports Answers
begin

text \<open>
  Hot reload (\<open>did_change_watched_files\<close> and \<open>rebuild_registry\<close> of \<open>rs/src/server.rs\<close>): which
  cached instances a change on disk drops, and which documents it puts up for analysis again.
\<close>

section \<open>Instances that are gone\<close>

text \<open>Nothing of an entry is left in the cache: no instance under any folder, and no failure counted.\<close>

definition gone :: "('g, 'v, 'e, 'tin) host \<Rightarrow> entry \<Rightarrow> 'g gated instances \<Rightarrow> bool" where
  "gone h e i \<longleftrightarrow> (\<forall>folder. in_cache i (key (ho_text h) (ho_hash h) e folder) = None \<and>
     in_failures i (key (ho_text h) (ho_hash h) e folder) = None)"

lemma gone_invalidate: "e' = e \<or> gone h e i \<Longrightarrow> gone h e (invalidate (ho_text h) (ho_hash h) e' i)"
  by (auto simp: gone_def invalidate_def Let_def retain_keys_def key_def starts_with_def)

lemma gone_invalidate_all:
  "e \<in> set es \<or> gone h e (sv_instances s) \<Longrightarrow>
    gone h e (sv_instances (foldl (\<lambda>s e. invalidate_entry h e s) s es))"
proof (induction es arbitrary: s)
  case (Cons e' es)
  have "e \<in> set es \<or> gone h e (sv_instances (invalidate_entry h e' s))"
    using Cons.prems gone_invalidate [of e' e h "sv_instances s"] by (auto simp: invalidate_entry_def)
  from Cons.IH [OF this] show ?case by simp
qed simp

lemma gone_folder_entries:
  "sv_instances (snd (foldl (folder_entries h now) (w, s) folders)) = sv_instances s"
proof (induction folders arbitrary: w s)
  case (Cons f folders)
  obtain w1 s1 where s1: "folder_entries h now (w, s) f = (w1, s1)" by force
  then have "sv_instances s1 = sv_instances s" by (auto simp: folder_entries_def split: sum.splits)
  with Cons.IH [of w1 s1] show ?case by (simp add: s1)
qed simp

text \<open>A rebuild drops the instances of the old tier.\<close>

lemma rebuild_gone:
  assumes "e \<in> set (workspace_of s)"
  shows "gone h e (sv_instances (rebuild_registry h now s))"
proof -
  let ?s1 = "invalidate_workspace h s"
  obtain w s2 where s2: "foldl (folder_entries h now)
      (cf_workspace_entries (sv_config ?s1) @ sv_init_languages ?s1, ?s1) (sv_folders ?s1) = (w, s2)" by force
  have "gone h e (sv_instances ?s1)"
    unfolding invalidate_workspace_def using assms by (intro gone_invalidate_all) simp
  moreover have "sv_instances s2 = sv_instances ?s1" using gone_folder_entries [of h now _ ?s1] s2 by (metis snd_conv)
  ultimately have "gone h e (sv_instances (s2\<lparr>sv_router := set_workspace (sv_router s2) w\<rparr>))" by simp
  then have "gone h e (sv_instances (invalidate_workspace h (s2\<lparr>sv_router := set_workspace (sv_router s2) w\<rparr>)))"
    unfolding invalidate_workspace_def by (intro gone_invalidate_all) simp
  then show ?thesis by (simp add: rebuild_registry_def s2 Let_def)
qed

section \<open>Documents put up again\<close>

lemma schedule_all:
  "sv_instances (foldl (\<lambda>s uri. schedule now uri s) s uris) = sv_instances s"
  "map_of (sv_pending (foldl (\<lambda>s uri. schedule now uri s) s uris)) u =
    (if u \<in> set uris then Some (now + cf_debounce (sv_config s)) else map_of (sv_pending s) u)"
proof -
  have "sv_instances (foldl (\<lambda>s uri. schedule now uri s) s uris) = sv_instances s \<and>
    map_of (sv_pending (foldl (\<lambda>s uri. schedule now uri s) s uris)) u =
    (if u \<in> set uris then Some (now + cf_debounce (sv_config s)) else map_of (sv_pending s) u)"
    by (induction uris arbitrary: s) (simp_all add: schedule_def update_conv')
  then show "sv_instances (foldl (\<lambda>s uri. schedule now uri s) s uris) = sv_instances s"
    "map_of (sv_pending (foldl (\<lambda>s uri. schedule now uri s) s uris)) u =
    (if u \<in> set uris then Some (now + cf_debounce (sv_config s)) else map_of (sv_pending s) u)"
    by simp_all
qed

lemma reschedule_all:
  "sv_instances (foldl (\<lambda>s uri. schedule now uri (forget_analysis uri s)) s uris) = sv_instances s"
  "map_of (sv_pending (foldl (\<lambda>s uri. schedule now uri (forget_analysis uri s)) s uris)) u =
    (if u \<in> set uris then Some (now + cf_debounce (sv_config s)) else map_of (sv_pending s) u)"
  "sv_analyses (foldl (\<lambda>s uri. schedule now uri (forget_analysis uri s)) s uris) u =
    (if u \<in> set uris then None else sv_analyses s u)"
proof -
  let ?f = "\<lambda>s uri. schedule now uri (forget_analysis uri s)"
  have "sv_instances (foldl ?f s uris) = sv_instances s \<and>
    map_of (sv_pending (foldl ?f s uris)) u =
      (if u \<in> set uris then Some (now + cf_debounce (sv_config s)) else map_of (sv_pending s) u) \<and>
    sv_analyses (foldl ?f s uris) u = (if u \<in> set uris then None else sv_analyses s u)"
    by (induction uris arbitrary: s) (auto simp: schedule_def forget_analysis_def update_conv')
  then show "sv_instances (foldl ?f s uris) = sv_instances s"
    "map_of (sv_pending (foldl ?f s uris)) u =
      (if u \<in> set uris then Some (now + cf_debounce (sv_config s)) else map_of (sv_pending s) u)"
    "sv_analyses (foldl ?f s uris) u = (if u \<in> set uris then None else sv_analyses s u)"
    by simp_all
qed

lemma serves_same: "serves h (invalidate_entry h e' s) e uri = serves h s e uri"
  by (simp add: serves_def route_def [abs_def])

lemma reload_entries:
  "foldl (reload_entry h) (s, due) es = (s', due') \<Longrightarrow>
    (e \<in> set es \<or> gone h e (sv_instances s) \<longrightarrow> gone h e (sv_instances s')) \<and> set due \<subseteq> set due' \<and>
    (e \<in> set es \<and> uri \<in> set (sv_open s) \<and> serves h s e uri \<longrightarrow> uri \<in> set due') \<and>
    sv_config s' = sv_config s"
proof (induction es arbitrary: s due)
  case (Cons e' es)
  have "foldl (reload_entry h) (invalidate_entry h e' s, due @ filter (serves h s e') (sv_open s)) es = (s', due')"
    using Cons.prems by (simp add: reload_entry_def [of h "(s, due)" e'])
  note ih = Cons.IH [OF this]
  have "gone h e (sv_instances (invalidate_entry h e' s))" if "e' = e \<or> gone h e (sv_instances s)"
    using gone_invalidate [OF that] by (simp add: invalidate_entry_def)
  moreover have "sv_config (invalidate_entry h e' s) = sv_config s" by (simp add: invalidate_entry_def)
  ultimately show ?case using ih by (auto simp: serves_same)
qed simp

section \<open>What a change on disk reaches\<close>

lemma tie_member: "rs_entry (tie_break es hits v) = Some e \<Longrightarrow> e \<in> set es"
proof -
  assume "rs_entry (tie_break es hits v) = Some e"
  then have "e \<in> set (claimants hits es)" by (auto simp: tie_break_entry(1) split: list.splits)
  then show ?thesis by (auto simp: claimants_def)
qed

lemma resolve_member: "rs_entry (resolve lc r lang uri) = Some e \<Longrightarrow> e \<in> set (router_all r)"
proof -
  assume r: "rs_entry (resolve lc r lang uri) = Some e"
  let ?cands = "candidates r (fs_path_of uri)"
  let ?tie = "\<lambda>x. tie_break (rt_global r) (\<lambda>e. count_if (\<lambda>y. lc y = x) (en_extensions e)) Extension"
  have direct: "e \<in> set (rt_global r)" if "router_get r lang = Some e" for e
    using that by (auto simp: router_get_def index_Some_iff elim!: bind_SomeE)
  consider (workspace) P where "find P ?cands = Some e" | (direct) "router_get r lang = Some e"
    | (tie) x where "rs_entry (?tie x) = Some e"
    using r unfolding resolve_def Let_def
    by (auto simp: found_def resolution_none_def elim!: bind_SomeE split: option.splits if_splits)
  then show ?thesis
  proof cases
    case workspace
    with find_member [OF this] show ?thesis by (auto simp: set_candidates router_all_def)
  next
    case direct
    then show ?thesis using \<open>\<And>e. router_get r lang = Some e \<Longrightarrow> e \<in> set (rt_global r)\<close> by (simp add: router_all_def)
  next
    case tie
    then show ?thesis by (auto simp: router_all_def dest: tie_member)
  qed
qed

lemma manifest_reload:
  assumes "changed = map normalize (List.map_filter folder_path_of uris)"
    and "list_ex (\<lambda>f. list_ex (same_path (normalize (path_join f WORKSPACE_MANIFEST))) changed) (sv_folders s)"
  shows "did_change_watched_files h now uris s =
    foldl (\<lambda>s uri. schedule now uri (forget_analysis uri s)) (rebuild_registry h now s)
      (sv_open (rebuild_registry h now s))"
proof -
  have "changed \<noteq> []" using assms(2) by (auto simp: list_ex_iff)
  then show ?thesis using assms by (simp add: did_change_watched_files_def Let_def)
qed

lemma grammar_reload:
  assumes "changed = map normalize (List.map_filter folder_path_of uris)" "changed \<noteq> []"
    and "\<not> list_ex (\<lambda>f. list_ex (same_path (normalize (path_join f WORKSPACE_MANIFEST))) changed) (sv_folders s)"
    and "foldl (reload_entry h) (s, []) (reloaded_by (watched_file (ho_files h)) (sv_router s) changed) = (s1, due)"
  shows "did_change_watched_files h now uris s = foldl (\<lambda>s uri. schedule now uri s) s1 due"
  using assms by (simp add: did_change_watched_files_def Let_def)

lemma watched_member:
  assumes "route h s d = Some e" "watched_file (ho_files h) e = Some f" "c \<in> set changed" "same_path c f"
  shows "e \<in> set (reloaded_by (watched_file (ho_files h)) (sv_router s) changed)" "e \<in> set (workspace_of s)"
  using assms resolve_member [of "ho_lower h" "sv_router s"]
  by (auto simp: reloaded_by_def route_def same_path_def list_ex_iff workspace_of_def watched_file_def split: if_splits)

text \<open>
  When the grammar file of the entry that serves an open document is among the changed files,
  whether a manifest changed as well or not.
\<close>

lemma reload_complete:
  assumes "server_ok s" "store_get (sv_docs s) uri = Some d" "route h s d = Some e"
    and "watched_file (ho_files h) e = Some f"
    and "c \<in> set (map normalize (List.map_filter folder_path_of uris))" "same_path c f"
  shows "let s' = did_change_watched_files h now uris s
    in map_of (sv_pending s') uri = Some (now + cf_debounce (sv_config s)) \<and> gone h e (sv_instances s')"
proof -
  define changed where "changed = map normalize (List.map_filter folder_path_of uris)"
  note member = watched_member [OF assms(3-6), folded changed_def]
  have is_open: "uri \<in> set (sv_open s)" using server_ok_open [OF assms(1)] assms(2) by blast
  show ?thesis
  proof (cases "list_ex (\<lambda>f. list_ex (same_path (normalize (path_join f WORKSPACE_MANIFEST))) changed) (sv_folders s)")
    case True
    show ?thesis
      unfolding Let_def manifest_reload [OF changed_def True] reschedule_all
      using rebuild_gone [OF member(2)] rebuild_keeps(2,8) [OF assms(1), of h now] is_open by simp
  next
    case False
    obtain s1 due where s1: "foldl (reload_entry h) (s, [])
        (reloaded_by (watched_file (ho_files h)) (sv_router s) changed) = (s1, due)" by force
    have "same_watched h e e" using assms(4) by (simp add: same_watched_def same_path_def)
    then have "serves h s e uri" using assms(2,3) by (simp add: serves_def)
    then have "uri \<in> set due" "gone h e (sv_instances s1)" "sv_config s1 = sv_config s"
      using reload_entries [OF s1, of e uri] member(1) is_open by auto
    moreover have "changed \<noteq> []" using assms(5) by (auto simp: changed_def)
    note grammar_reload [OF changed_def this False s1]
    ultimately show ?thesis by (simp add: schedule_all)
  qed
qed

end
