(* ===== verification/Session.thy ===== *)
theory Session
  imports Publications Reload
begin

text \<open>
  The server in use (\<open>rs/src/server.rs\<close>, \<open>rs/src/bin/tabnas-lsp.rs\<close>): sessions as sequences of
  the things the loop does, the message loop itself, and the command that runs it.
\<close>

section \<open>Sessions\<close>

text \<open>
  A session is a run of the public operations: a message is handled, the due documents are
  analyzed, every pending one is, an unreadable message is rejected, and a message or nothing
  is taken from the connection.
\<close>

datatype event = Handled nat message | Due nat | Flushed nat | Rejected rpc_error | Taken bool

definition session_step :: "('g, 'v, 'e, 'tin) host \<Rightarrow> ('g, 'v, 'e) server \<Rightarrow> event \<Rightarrow> ('g, 'v, 'e) server" where
  "session_step h s ev = (case ev of
      Handled now m \<Rightarrow> snd (handle_contained h now m s)
    | Due now \<Rightarrow> snd (analyze_due h now s)
    | Flushed now \<Rightarrow> snd (flush h now s)
    | Rejected err \<Rightarrow> snd (reject h err s)
    | Taken arrived \<Rightarrow> s\<lparr>sv_conn := snd (recv_timeout arrived (sv_conn s))\<rparr>)"

definition session :: "('g, 'v, 'e, 'tin) host \<Rightarrow> ('g, 'v, 'e) server \<Rightarrow> event list \<Rightarrow> ('g, 'v, 'e) server" where
  "session h s evs = foldl (session_step h) s evs"

section \<open>The message loop\<close>

text \<open>
  A turn of the loop: when it looks for due documents, when it handles what it received, and
  whether something, or the end of the stream, arrived before the earliest deadline. The outer
  option of \<open>run\<close> is \<open>None\<close> when the turns ran out; the inner one is the error, if any.
\<close>

record turn =
  tn_due :: nat
  tn_at :: nat
  tn_arrived :: bool

definition receive :: "bool \<Rightarrow> ('g, 'v, 'e) server \<Rightarrow> (rpc_error + received) \<times> connection" where
  "receive arrived s = (case next_deadline s of
      Some at \<Rightarrow> recv_timeout arrived (sv_conn s)
    | None \<Rightarrow> recv (sv_conn s))"

datatype loop = GoOn | Ended "rpc_error option"

definition looped :: "rpc_error option \<times> ('g, 'v, 'e) server \<Rightarrow> loop \<times> ('g, 'v, 'e) server" where
  "looped x = (case fst x of None \<Rightarrow> GoOn | Some err \<Rightarrow> Ended (Some err), snd x)"

definition take_turn :: "('g, 'v, 'e, 'tin) host \<Rightarrow> turn \<Rightarrow> ('g, 'v, 'e) server \<Rightarrow> loop \<times> ('g, 'v, 'e) server" where
  "take_turn h t s = (case analyze_due h (tn_due t) s of
      (Some err, s1) \<Rightarrow> (Ended (Some err), s1)
    | (None, s1) \<Rightarrow>
        (case receive (tn_arrived t) s1 of (got, c) \<Rightarrow>
           (let s2 = s1\<lparr>sv_conn := c\<rparr>
            in case got of
                 Inr (GotMessage m) \<Rightarrow> looped (handle_contained h (tn_at t) m s2)
               | Inr TimedOut \<Rightarrow> (GoOn, s2)
               | Inr Closed \<Rightarrow> (Ended None, s2)
               | Inl err \<Rightarrow> if is_recoverable err then looped (reject h err s2) else (Ended (Some err), s2))))"

fun run :: "('g, 'v, 'e, 'tin) host \<Rightarrow> turn list \<Rightarrow> ('g, 'v, 'e) server \<Rightarrow>
    rpc_error option option \<times> ('g, 'v, 'e) server" where
  "run h ts s =
     (if sv_exited s then (Some None, s)
      else case ts of
          [] \<Rightarrow> (None, s)
        | t # ts' \<Rightarrow>
            (case take_turn h t s of
               (GoOn, s') \<Rightarrow> run h ts' s'
             | (Ended r, s') \<Rightarrow> (Some r, s')))"

declare run.simps [simp del]

text \<open>\<open>serve\<close>: whether the client asked for the shutdown, or the error.\<close>

definition serve :: "('g, 'v, 'e, 'tin) host \<Rightarrow> turn list \<Rightarrow> 'g config \<Rightarrow> connection \<Rightarrow>
    (rpc_error + bool) option" where
  "serve h ts cfg conn = (case (server_new cfg conn :: ('g, 'v, 'e) server option) of
      None \<Rightarrow> None
    | Some s \<Rightarrow>
        (case run h ts s of
           (None, s') \<Rightarrow> None
         | (Some None, s') \<Rightarrow> Some (Inr (sv_shutdown s'))
         | (Some (Some err), s') \<Rightarrow> Some (Inl err)))"

section \<open>The command\<close>

definition is_pid :: "rstr \<Rightarrow> bool" where
  "is_pid txt \<longleftrightarrow> txt \<noteq> [] \<and> list_all is_ascii_digit (encode_utf8 txt)"

definition is_stdio_step :: "bool \<Rightarrow> rstr \<Rightarrow> bool option" where
  "is_stdio_step stdio arg =
     (if arg = str ''--stdio'' \<and> \<not> stdio then Some True
      else case strip_prefix arg (str ''--clientProcessId='') of
          Some pid \<Rightarrow> if is_pid pid then Some stdio else None
        | None \<Rightarrow> None)"

fun is_stdio_from :: "bool \<Rightarrow> rstr list \<Rightarrow> bool" where
  "is_stdio_from stdio [] \<longleftrightarrow> stdio"
| "is_stdio_from stdio (arg # rest) \<longleftrightarrow>
     (if arg = str ''--clientProcessId''
      then (case rest of [] \<Rightarrow> False | pid # rest' \<Rightarrow> is_pid pid \<and> is_stdio_from stdio rest')
      else case is_stdio_step stdio arg of None \<Rightarrow> False | Some stdio' \<Rightarrow> is_stdio_from stdio' rest)"

definition is_stdio :: "rstr list \<Rightarrow> bool" where
  "is_stdio args \<longleftrightarrow> is_stdio_from False args"

definition bundled_entries :: "'g loader \<Rightarrow> entry list \<Rightarrow> entry list" where
  "bundled_entries l entries = filter (\<lambda>e. linked l (en_name e) \<noteq> None) entries"

text \<open>
  The loader as a \<open>MakeInstance\<close> that shares its trust flag with the server; the host it runs
  on (the files above all) may differ from call to call.
\<close>

definition into_make_instance :: "(nat \<Rightarrow> 'g loader_host) \<Rightarrow> 'g loader \<Rightarrow> bool \<Rightarrow> nat \<Rightarrow> entry \<Rightarrow> 'g made" where
  "into_make_instance lh l trust n e = (case make_instance (lh n) (set_trust_workspace_modules l trust) e of
      Inr g \<Rightarrow> Made g | Inl err \<Rightarrow> MakeFailed err)"

text \<open>The server \<open>stdio\<close> starts, and its exit status; \<open>None\<close> while the loop has not ended.\<close>

definition stdio_server :: "(nat \<Rightarrow> 'g loader_host) \<Rightarrow> 'g loader \<Rightarrow> entry list \<Rightarrow> connection \<Rightarrow>
    ('g, 'v, 'e) server option" where
  "stdio_server lh l bundled conn =
     server_with_trust ((config_new (into_make_instance lh l))\<lparr>cf_entries := bundled_entries l bundled\<rparr>) conn (ld_trust l)"

definition exit_status :: "rpc_error option option \<times> ('g, 'v, 'e) server \<Rightarrow> nat option" where
  "exit_status x = (case x of
      (None, s) \<Rightarrow> None
    | (Some None, s) \<Rightarrow> Some (if sv_shutdown s then 0 else 1)
    | (Some (Some err), s) \<Rightarrow> Some 1)"

text \<open>The command line: the version and help lines, the server, or the usage on standard error.\<close>

datatype command = PrintVersion | PrintHelp | ServeStdio | PrintUsage

definition command_of :: "rstr list \<Rightarrow> command" where
  "command_of args =
     (if args = [str ''--version''] \<or> args = [str ''-V''] then PrintVersion
      else if args = [str ''--help''] \<or> args = [str ''-h''] then PrintHelp
      else if is_stdio args then ServeStdio
      else PrintUsage)"

text \<open>The version line, by what is built in and the engine's version.\<close>

definition features :: "bool \<Rightarrow> bool \<Rightarrow> rstr list" where
  "features linked_fleet with_dialects = (if linked_fleet then [str ''fleet''] else []) @ (if with_dialects then [str ''dialects''] else [])"

definition version_line :: "bool \<Rightarrow> bool \<Rightarrow> rstr \<Rightarrow> rstr" where
  "version_line linked_fleet with_dialects engine =
     (let built = (case features linked_fleet with_dialects of
            [] \<Rightarrow> str ''no optional features''
          | f # fs \<Rightarrow> str ''features: '' @ f @ concat (map (\<lambda>g. str '', '' @ g) fs))
      in str ''tabnas-lsp '' @ VERSION @ str '' (tabnas engine '' @ engine @ str ''; '' @ built @ str '')'')"

text \<open>The status of the process, by that of the server when it is started.\<close>

definition main_status :: "rstr list \<Rightarrow> nat option \<Rightarrow> nat option" where
  "main_status args served = (case command_of args of
      PrintVersion \<Rightarrow> Some 0 | PrintHelp \<Rightarrow> Some 0 | ServeStdio \<Rightarrow> served | PrintUsage \<Rightarrow> Some 2)"

section \<open>What every session keeps\<close>

lemma start_facts:
  fixes h :: "('g, 'v, 'e, 'tin) host"
  obtains s :: "('g, 'v, 'e) server" where "server_with_trust cfg conn trust = Some s" "server_ok s" "tidy s" "views_ok h s"
    "sv_sent s = []" "sv_conn s = conn" "\<not> sv_exited s" "\<not> sv_shutdown s"
proof -
  obtain r where r: "router_new (cf_entries cfg) (cf_workspace_entries cfg) (cf_user_entries cfg) = Some r" "router_ok r"
    using put_all_global [of "cf_workspace_entries cfg" "cf_entries cfg @ cf_user_entries cfg"]
    by (auto simp: router_new_def empty_router_def)
  obtain s :: "('g, 'v, 'e) server" where s: "server_with_trust cfg conn trust = Some s" by (simp add: server_with_trust_def r(1))
  have "store_get store_new = (\<lambda>_. None)" by (intro ext) (simp add: store_get_def store_new_def)
  moreover have "instances_ok (instances_new :: 'g gated instances)" by (rule cache_runs.start_inv)
  ultimately have "server_ok s" "tidy s" "views_ok h s"
    using s r(2) by (auto simp: server_with_trust_def r(1) server_ok_def tidy_def shown_def views_ok_def store_new_def)
  with s that show thesis by (auto simp: server_with_trust_def r(1))
qed

definition kept :: "('g, 'v, 'e) server \<Rightarrow> bool" where
  "kept s \<longleftrightarrow> server_ok s \<and> tidy s"

definition fresh_event :: "event \<Rightarrow> ('g, 'v, 'e) server \<Rightarrow> bool" where
  "fresh_event ev s \<longleftrightarrow> (case ev of Handled now m \<Rightarrow> opens_new m s | _ \<Rightarrow> True)"

lemma reject_keeps:
  assumes "server_ok s"
  shows "server_ok (snd (reject h err s))" "tidy s \<longrightarrow> tidy (snd (reject h err s))"
    "views_ok h s \<longrightarrow> views_ok h (snd (reject h err s))"
proof -
  have "publication m = None" if "error_answer err = Some m" for m
    using that by (auto simp: error_answer_def split: rpc_error.splits)
  then have sent: "keeps h s (snd (reject h err s)) \<or>
      (\<exists>m. publication m = None \<and> snd (reject h err s) = snd (send_message h m s))"
    using keeps_log [OF assms] by (auto simp: reject_def split: option.splits)
  have send: "server_ok (snd (send_message h m s))" "views_ok h s \<longrightarrow> views_ok h (snd (send_message h m s))"
    "publication m = None \<Longrightarrow> tidy s \<longrightarrow> tidy (snd (send_message h m s))" for m
    by (rule server_ok_same [OF assms] tidy_send, simp_all)+
  show "server_ok (snd (reject h err s))" "tidy s \<longrightarrow> tidy (snd (reject h err s))"
    "views_ok h s \<longrightarrow> views_ok h (snd (reject h err s))"
    using sent send by (auto simp: keeps_def)
qed

lemma contained_facts:
  assumes "server_ok s"
  shows "server_ok (snd (handle_contained h now m s))" "tidy s \<longrightarrow> tidy (snd (handle_contained h now m s))"
    "opens_new m s \<Longrightarrow> views_ok h s \<Longrightarrow> views_ok h (snd (handle_contained h now m s))"
    "flags (snd (handle_contained h now m s)) =
      (sv_shutdown s \<or> ms_method m = Some (str ''shutdown''), sv_exited s \<or> ms_method m = Some (str ''exit''))"
    "\<exists>rs. replied h s (snd (handle_contained h now m s)) rs \<and> map ms_id rs = replicate (answers_due m) (ms_id m)"
  using handle_answered [OF assms, where h = h and m = m and now = now] handle_contained_answered [OF assms, of h now m]
  by (auto simp: answered_def)

lemma step_facts:
  assumes "server_ok s"
  shows "server_ok (session_step h s ev) \<and> (tidy s \<longrightarrow> tidy (session_step h s ev)) \<and>
    (fresh_event ev s \<longrightarrow> views_ok h s \<longrightarrow> views_ok h (session_step h s ev))"
proof (cases ev)
  case (Handled now m)
  with contained_facts(1-3) [OF assms, where h = h and now = now and m = m] show ?thesis by (simp add: session_step_def fresh_event_def)
next
  case (Due now)
  with analyze_each_keeps [OF assms, where h = h and now = now] show ?thesis
    by (simp add: session_step_def analyze_due_def)
next
  case (Flushed now)
  let ?s = "s\<lparr>sv_pending := []\<rparr>"
  have "server_ok ?s" by (rule server_ok_pending [OF assms]) simp_all
  from analyze_each_keeps [OF this, where h = h and now = now] Flushed show ?thesis by (simp add: session_step_def flush_def)
next
  case (Rejected err)
  then have "session_step h s ev = snd (reject h err s)" by (simp add: session_step_def)
  with reject_keeps [OF assms, where h = h and err = err] show ?thesis by simp
next
  case (Taken arrived)
  let ?t = "s\<lparr>sv_conn := snd (recv_timeout arrived (sv_conn s))\<rparr>"
  have "server_ok ?t" "views_ok h s \<longrightarrow> views_ok h ?t" "tidy s \<longrightarrow> tidy ?t"
    by (rule server_ok_same [OF assms] tidy_same, simp_all)+
  then show ?thesis by (simp add: session_step_def Taken)
qed

interpretation sessions: invariant_machine "the (server_with_trust cfg conn trust) :: ('g, 'v, 'e) server"
    "session_step h" kept
proof
  show "kept (the (server_with_trust cfg conn trust) :: ('g, 'v, 'e) server)"
  proof -
    obtain s :: "('g, 'v, 'e) server" where "server_with_trust cfg conn trust = Some s" "server_ok s" "tidy s"
      by (rule start_facts)
    then show ?thesis by (simp add: kept_def)
  qed
  show "kept (session_step h s ev)" if "kept s" for s ev
    using that step_facts by (auto simp: kept_def)
qed

text \<open>Sessions whose client never opens a document that is open.\<close>

fun orderly :: "('g, 'v, 'e, 'tin) host \<Rightarrow> ('g, 'v, 'e) server \<Rightarrow> event list \<Rightarrow> bool" where
  "orderly h s [] \<longleftrightarrow> True"
| "orderly h s (ev # evs) \<longleftrightarrow> fresh_event ev s \<and> orderly h (session_step h s ev) evs"

definition orderly_step :: "('g, 'v, 'e, 'tin) host \<Rightarrow> ('g, 'v, 'e) server \<Rightarrow> event \<Rightarrow> ('g, 'v, 'e) server" where
  "orderly_step h s ev = (if fresh_event ev s then session_step h s ev else s)"

interpretation orderly_sessions: invariant_machine "the (server_with_trust cfg conn trust) :: ('g, 'v, 'e) server"
    "orderly_step h" "\<lambda>s. server_ok s \<and> views_ok h s"
proof
  show "server_ok (the (server_with_trust cfg conn trust) :: ('g, 'v, 'e) server) \<and>
      views_ok h (the (server_with_trust cfg conn trust) :: ('g, 'v, 'e) server)"
  proof -
    obtain s :: "('g, 'v, 'e) server" where "server_with_trust cfg conn trust = Some s" "server_ok s" "views_ok h s"
      by (rule start_facts [where h = h])
    then show ?thesis by simp
  qed
  show "server_ok (orderly_step h s ev) \<and> views_ok h (orderly_step h s ev)" if "server_ok s \<and> views_ok h s" for s ev
    using that step_facts [of s h ev] by (simp add: orderly_step_def)
qed

lemma orderly_session: "orderly h s evs \<Longrightarrow> session h s evs = foldl (orderly_step h) s evs"
  by (induction evs arbitrary: s) (simp_all add: session_def orderly_step_def)

lemma session_kept: "server_with_trust cfg conn trust = Some s \<Longrightarrow> kept (session h s evs)"
  using sessions.run_inv [where cfg = cfg and conn = conn and trust = trust and h = h] by (simp add: session_def)

lemma session_ok: "server_with_trust cfg conn trust = Some s \<Longrightarrow> server_ok (session h s evs)"
  and session_tidy: "server_with_trust cfg conn trust = Some s \<Longrightarrow> tidy (session h s evs)"
  unfolding kept_def [symmetric] using session_kept [unfolded kept_def] by blast+

lemma orderly_views:
  "server_with_trust cfg conn trust = Some s \<Longrightarrow> orderly h s evs \<Longrightarrow> views_ok h (session h s evs)"
  using orderly_sessions.run_inv [of h cfg conn trust evs] by (simp add: orderly_session)

section \<open>What the loop does is a session\<close>

lemma receive_taken:
  "receive arrived s = recv_timeout (arrived \<or> next_deadline s = None) (sv_conn s)"
  by (simp add: receive_def recv_timeout_def split: option.splits)

text \<open>A turn is its look for due documents, what it took, and what it did with that.\<close>

lemma turn_is_session: "\<exists>evs. snd (take_turn h t s) = session h s (Due (tn_due t) # evs)"
proof -
  obtain r1 s1 where s1: "analyze_due h (tn_due t) s = (r1, s1)" by force
  obtain got c where c: "receive (tn_arrived t) s1 = (got, c)" by force
  let ?e1 = "Due (tn_due t)" and ?e2 = "Taken (tn_arrived t \<or> next_deadline s1 = None)"
  let ?s2 = "s1\<lparr>sv_conn := c\<rparr>"
  have one: "session_step h s ?e1 = s1" by (simp add: session_step_def s1)
  have two: "session_step h s1 ?e2 = ?s2" using c by (simp add: session_step_def receive_taken)
  have "session h s (?e1 # []) = s1" "session h s (?e1 # [?e2]) = ?s2"
    "session h s (?e1 # [?e2, ev]) = session_step h ?s2 ev" for ev
    by (simp_all add: session_def one two)
  moreover have "snd (take_turn h t s) \<in> {s1, ?s2} \<or> (\<exists>ev. snd (take_turn h t s) = session_step h ?s2 ev)"
  proof (cases r1)
    case (Some err)
    then show ?thesis by (simp add: take_turn_def s1)
  next
    case None
    note body = take_turn_def s1 None c Let_def looped_def
    show ?thesis
    proof (cases got)
      case (Inl err)
      then have "snd (take_turn h t s) = ?s2 \<or> snd (take_turn h t s) = session_step h ?s2 (Rejected err)"
        by (simp add: body session_step_def)
      then show ?thesis by blast
    next
      case (Inr rec)
      show ?thesis
      proof (cases rec)
        case (GotMessage m)
        then have "snd (take_turn h t s) = session_step h ?s2 (Handled (tn_at t) m)"
          by (simp add: body Inr session_step_def)
        then show ?thesis by blast
      qed (simp_all add: body Inr)
    qed
  qed
  ultimately show ?thesis by (metis insertE singletonD)
qed

lemma run_is_session: "\<exists>evs. snd (run h ts s) = session h s evs"
proof (induction ts arbitrary: s)
  case Nil
  show ?case by (rule exI [of _ "[]"]) (simp add: session_def run.simps [of h "[]"])
next
  case (Cons t ts)
  show ?case
  proof (cases "sv_exited s")
    case True
    then show ?thesis by (intro exI [of _ "[]"]) (simp add: session_def run.simps [of h "t # ts"])
  next
    case False
    obtain l s' where l: "take_turn h t s = (l, s')" by force
    obtain evs where evs: "s' = session h s (Due (tn_due t) # evs)"
      using turn_is_session [of h t s] by (auto simp: l)
    show ?thesis
    proof (cases l)
      case GoOn
      obtain evs' where "snd (run h ts s') = session h s' evs'" using Cons.IH by blast
      then have "snd (run h (t # ts) s) = session h s ((Due (tn_due t) # evs) @ evs')"
        using False by (simp add: run.simps [of h "t # ts"] l GoOn evs session_def)
      then show ?thesis by blast
    next
      case (Ended r)
      then show ?thesis using False evs by (auto simp: run.simps [of h "t # ts"] l)
    qed
  qed
qed

section \<open>What is on the wire\<close>

definition wired :: "('g, 'v, 'e, 'tin) host \<Rightarrow> sink \<Rightarrow> ('g, 'v, 'e) server \<Rightarrow> bool" where
  "wired h k s \<longleftrightarrow> sk_fault (cn_writer (sv_conn s)) = None \<and>
     sk_out (cn_writer (sv_conn s)) = sk_out k @ concat (map (frame_of (ho_text h)) (sv_sent s))"

lemma wired_sends: "sends h s ms t \<Longrightarrow> wired h k s \<Longrightarrow> wired h k t"
  by (simp add: sends_def written_def wired_def)

lemma step_sends:
  assumes "server_ok s" "wired h k s"
  shows "wired h k (session_step h s ev)"
proof -
  have quiet: "wired h k t" if "quiet h u t" "sv_sent u = sv_sent s" "sv_conn u = sv_conn s" for u t
    using that assms(2) wired_sends [of h u _ t k] by (auto simp: quiet_def wired_def)
  show ?thesis
  proof (cases ev)
    case (Handled now m)
    obtain rs where "replied h s (snd (handle_contained h now m s)) rs"
      using contained_facts(5) [OF assms(1), of h now m] by blast
    then show ?thesis using assms(2) by (auto simp: session_step_def Handled replied_def intro: wired_sends)
  next
    case (Due now)
    then show ?thesis
      using analyze_each_keeps [OF assms(1), of h now] quiet [of s] by (simp add: session_step_def analyze_due_def)
  next
    case (Flushed now)
    have "server_ok (s\<lparr>sv_pending := []\<rparr>)" by (rule server_ok_pending [OF assms(1)]) simp_all
    then show ?thesis
      using analyze_each_keeps [of "s\<lparr>sv_pending := []\<rparr>" h now] quiet [of "s\<lparr>sv_pending := []\<rparr>"]
      by (simp add: session_step_def Flushed flush_def)
  next
    case (Rejected err)
    then show ?thesis
      using quiet [OF quiet_log, of s] assms(2)
      by (auto simp: session_step_def reject_def intro: wired_sends sends_one split: option.splits)
  next
    case (Taken arrived)
    then show ?thesis
      using assms(2) by (simp add: session_step_def wired_def recv_timeout_def recv_def split: list.splits sum.splits)
  qed
qed

definition carried :: "('g, 'v, 'e, 'tin) host \<Rightarrow> sink \<Rightarrow> ('g, 'v, 'e) server \<Rightarrow> bool" where
  "carried h k s \<longleftrightarrow> server_ok s \<and> (sk_fault k = None \<longrightarrow> wired h k s)"

interpretation wires: invariant_machine "the (server_with_trust cfg conn trust) :: ('g, 'v, 'e) server"
    "session_step h" "carried h (cn_writer conn)"
proof
  show "carried h (cn_writer conn) (the (server_with_trust cfg conn trust) :: ('g, 'v, 'e) server)"
  proof -
    obtain s :: "('g, 'v, 'e) server" where "server_with_trust cfg conn trust = Some s" "server_ok s"
      "sv_sent s = []" "sv_conn s = conn"
      by (rule start_facts)
    then show ?thesis by (simp add: carried_def wired_def)
  qed
  show "carried h (cn_writer conn) (session_step h s ev)" if "carried h (cn_writer conn) s" for s ev
    using that step_sends [of s h "cn_writer conn" ev] step_facts [of s h ev] by (simp add: carried_def)
qed

lemma session_carried:
  "server_with_trust cfg conn trust = Some s \<Longrightarrow> carried h (cn_writer conn) (session h s evs)"
  using wires.run_inv [where cfg = cfg and conn = conn and trust = trust and h = h] by (simp add: session_def)

section \<open>The end of the loop\<close>

text \<open>
  What the exit status should be, read off the incoming messages alone: whether \<open>shutdown\<close> came
  before the \<open>exit\<close> or the end of the stream, unless the stream fails first.
\<close>

definition asks :: "message \<Rightarrow> string \<Rightarrow> bool" where
  "asks m meth \<longleftrightarrow> ms_method m = Some (str meth)"

fun verdict :: "bool \<Rightarrow> (rpc_error + message) list \<Rightarrow> nat" where
  "verdict shut [] = (if shut then 0 else 1)"
| "verdict shut (Inl err # rest) = (if is_recoverable err then verdict shut rest else 1)"
| "verdict shut (Inr m # rest) =
     (if asks m ''exit'' then verdict shut [] else verdict (shut \<or> asks m ''shutdown'') rest)"

definition verdict_of :: "('g, 'v, 'e) server \<Rightarrow> nat" where
  "verdict_of s = verdict (sv_shutdown s) (if sv_exited s then [] else cn_incoming (sv_conn s))"

definition arrivals :: "turn list \<Rightarrow> nat" where
  "arrivals ts = length (filter tn_arrived ts)"

abbreviation incoming :: "('g, 'v, 'e) server \<Rightarrow> (rpc_error + message) list" where
  "incoming s \<equiv> cn_incoming (sv_conn s)"

lemma quiet_incoming: "quiet h s t \<Longrightarrow> incoming t = incoming s"
  by (auto simp: quiet_def sends_def written_def)

lemma replied_incoming: "replied h s t rs \<Longrightarrow> incoming t = incoming s"
  by (auto simp: replied_def sends_def written_def)

lemma handled_verdict:
  assumes "server_ok s" "\<not> sv_exited s"
  shows "verdict_of (snd (handle_contained h now m s)) = verdict (sv_shutdown s) (Inr m # incoming s)"
    "incoming (snd (handle_contained h now m s)) = incoming s"
proof -
  obtain rs where "replied h s (snd (handle_contained h now m s)) rs"
    using contained_facts(5) [OF assms(1), of h now m] by blast
  then show "incoming (snd (handle_contained h now m s)) = incoming s" by (rule replied_incoming)
  then have "verdict_of (snd (handle_contained h now m s)) =
      verdict (sv_shutdown s \<or> asks m ''shutdown'') (if asks m ''exit'' then [] else incoming s)"
    using contained_facts(4) [OF assms(1), of h now m] assms(2) by (simp add: verdict_of_def asks_def flags_def)
  moreover have "asks m ''exit'' \<Longrightarrow> \<not> asks m ''shutdown''" by (auto simp: asks_def str_def)
  ultimately show "verdict_of (snd (handle_contained h now m s)) = verdict (sv_shutdown s) (Inr m # incoming s)"
    by auto
qed

text \<open>The answers among the messages sent.\<close>

definition replies :: "('g, 'v, 'e) server \<Rightarrow> message list" where
  "replies s = filter (\<lambda>m. ms_method m = None) (sv_sent s)"

lemma replies_conn [simp]: "replies (s\<lparr>sv_conn := c\<rparr>) = replies s"
  by (simp add: replies_def)

lemma replied_replies: "replied h s t rs \<Longrightarrow> replies t = replies s @ rs"
  by (auto simp: replied_def sends_def replies_def unsolicited_def)

lemma quiet_replies: "quiet h s t \<Longrightarrow> replies t = replies s"
  using replied_replies [of h s t "[]"] by (simp add: quiet_replied)

lemma due_facts:
  assumes "server_ok s"
  shows "server_ok (snd (analyze_due h now s))" "incoming (snd (analyze_due h now s)) = incoming s"
    "sv_shutdown (snd (analyze_due h now s)) = sv_shutdown s" "sv_exited (snd (analyze_due h now s)) = sv_exited s"
    "healthy s \<Longrightarrow> fst (analyze_due h now s) = None" "healthy s \<Longrightarrow> healthy (snd (analyze_due h now s))"
    "replies (snd (analyze_due h now s)) = replies s"
  using analyze_each_keeps [OF assms, of h now] analyze_each_flags [OF assms, of h now]
    analyze_each_succeeds [OF assms, of h now]
  by (auto simp: analyze_due_def flags_def dest: quiet_incoming healthy_quiet quiet_replies)

lemma reject_facts:
  assumes "server_ok s"
  shows "server_ok (snd (reject h err s))" "incoming (snd (reject h err s)) = incoming s"
    "sv_shutdown (snd (reject h err s)) = sv_shutdown s" "sv_exited (snd (reject h err s)) = sv_exited s"
proof -
  show "server_ok (snd (reject h err s))" by (rule reject_keeps(1) [OF assms])
  have "sends h s [m] (snd (send_message h m s))" for m by (rule sends_one) simp_all
  then show "incoming (snd (reject h err s)) = incoming s"
    using quiet_incoming [OF quiet_log [of s s]] by (auto simp: reject_def sends_def written_def split: option.splits)
qed (auto simp: reject_def log_message_def split: option.splits)

definition turn_ok :: "turn \<Rightarrow> ('g, 'v, 'e) server \<Rightarrow> loop \<times> ('g, 'v, 'e) server \<Rightarrow> bool" where
  "turn_ok t s x \<longleftrightarrow> server_ok (snd x) \<and>
     (fst x = GoOn \<longrightarrow> length (incoming (snd x)) + (if tn_arrived t then 1 else 0) \<le> length (incoming s)) \<and>
     (healthy s \<longrightarrow> (case fst x of
        GoOn \<Rightarrow> healthy (snd x) \<and> verdict_of (snd x) = verdict_of s
      | Ended r \<Rightarrow> exit_status (Some r, snd x) = Some (verdict_of s)))"

lemma turn_message:
  assumes "server_ok s2" "\<not> sv_exited s2" "healthy s \<longrightarrow> healthy s2"
    and "length (incoming s) = Suc (length (incoming s2))" "verdict_of s = verdict (sv_shutdown s2) (Inr m # incoming s2)"
  shows "turn_ok t s (looped (handle_contained h now m s2))"
  using contained_facts(1) [OF assms(1), of h now m] handled_verdict [OF assms(1,2), of h now m]
    handle_contained_succeeds [OF assms(1), of h now m] assms(3-5)
  by (auto simp: turn_ok_def looped_def split: option.splits)

lemma turn_unreadable:
  assumes "server_ok s2" "\<not> sv_exited s2" "healthy s \<longrightarrow> healthy s2"
    and "length (incoming s) = Suc (length (incoming s2))" "verdict_of s = verdict (sv_shutdown s2) (Inl err # incoming s2)"
  shows "turn_ok t s (if is_recoverable err then looped (reject h err s2) else (Ended (Some err), s2))"
  using reject_facts [OF assms(1), of h err] reject_succeeds [of s2 h err] assms
  by (auto simp: turn_ok_def looped_def exit_status_def verdict_of_def [of "snd (reject h err s2)"] split: option.splits)

text \<open>What a turn comes to, once it has looked for due documents and at what arrived.\<close>

definition awaits :: "('g, 'v, 'e) server \<Rightarrow> ('g, 'v, 'e) server \<Rightarrow> bool" where
  "awaits s s2 \<longleftrightarrow> server_ok s2 \<and> \<not> sv_exited s2 \<and> sv_shutdown s2 = sv_shutdown s \<and>
     (healthy s \<longrightarrow> healthy s2) \<and> replies s2 = replies s"

lemma take_turn_cases [consumes 2]:
  assumes "server_ok s" "\<not> sv_exited s"
  obtains (failed) err s1 where "take_turn h t s = (Ended (Some err), s1)" "server_ok s1" "\<not> healthy s"
    | (waited) s2 where "take_turn h t s = (GoOn, s2)" "awaits s s2" "incoming s2 = incoming s" "\<not> tn_arrived t"
    | (closed) s2 where "take_turn h t s = (Ended None, s2)" "awaits s s2" "incoming s = []"
    | (message) s2 m where "take_turn h t s = looped (handle_contained h (tn_at t) m s2)" "awaits s s2"
        "incoming s = Inr m # incoming s2"
    | (unreadable) s2 err where
        "take_turn h t s = (if is_recoverable err then looped (reject h err s2) else (Ended (Some err), s2))"
        "awaits s s2" "incoming s = Inl err # incoming s2"
proof -
  obtain r1 s1 where s1: "analyze_due h (tn_due t) s = (r1, s1)" by force
  note due = due_facts [OF assms(1), of h "tn_due t", unfolded s1 fst_conv snd_conv]
  show thesis
  proof (cases r1)
    case (Some err)
    with due show thesis by (intro failed [of err s1]) (auto simp: take_turn_def s1)
  next
    case None
    obtain got c where c: "receive (tn_arrived t) s1 = (got, c)" by force
    let ?s2 = "s1\<lparr>sv_conn := c\<rparr>"
    have "server_ok ?s2" by (rule server_ok_same [OF due(1)]) simp_all
    moreover have "cn_writer c = cn_writer (sv_conn s1)"
      using c by (auto simp: receive_taken recv_timeout_def recv_def split: if_splits list.splits sum.splits)
    ultimately have two: "awaits s ?s2" using due assms(2) by (simp add: awaits_def healthy_def)
    have turn: "take_turn h t s = (case got of
        Inr (GotMessage m) \<Rightarrow> looped (handle_contained h (tn_at t) m ?s2)
      | Inr TimedOut \<Rightarrow> (GoOn, ?s2)
      | Inr Closed \<Rightarrow> (Ended None, ?s2)
      | Inl err \<Rightarrow> if is_recoverable err then looped (reject h err ?s2) else (Ended (Some err), ?s2))"
      by (simp add: take_turn_def s1 None c Let_def)
    consider "got = Inr TimedOut" "c = sv_conn s1" "\<not> tn_arrived t" | "got = Inr Closed" "incoming s1 = []"
      | m where "got = Inr (GotMessage m)" "incoming s1 = Inr m # cn_incoming c"
      | err where "got = Inl err" "incoming s1 = Inl err # cn_incoming c"
      using c by (auto simp: receive_taken recv_timeout_def recv_def split: if_splits list.splits sum.splits)
    then show thesis
      using waited [OF _ two] closed [OF _ two] message [OF _ two] unreadable [OF _ two] due(2)
      unfolding turn by cases simp_all
  qed
qed

lemma take_turn_ok:
  assumes "server_ok s" "\<not> sv_exited s"
  shows "turn_ok t s (take_turn h t s)"
  using assms
proof (cases rule: take_turn_cases [where h = h and t = t])
  case (failed err s1)
  then show ?thesis by (simp add: turn_ok_def)
next
  case (waited s2)
  then show ?thesis using assms(2) by (simp add: turn_ok_def awaits_def verdict_of_def)
next
  case (closed s2)
  then show ?thesis using assms(2) by (simp add: turn_ok_def awaits_def exit_status_def verdict_of_def)
next
  case (message s2 m)
  then show ?thesis using assms(2) by (auto simp: awaits_def verdict_of_def intro!: turn_message)
next
  case (unreadable s2 err)
  have "turn_ok t s (if is_recoverable err then looped (reject h err s2) else (Ended (Some err), s2))"
    by (rule turn_unreadable) (use unreadable(2,3) assms(2) in \<open>simp_all add: awaits_def verdict_of_def\<close>)
  then show ?thesis by (simp only: unreadable(1))
qed

lemma run_ends:
  "server_ok s \<Longrightarrow> length (incoming s) < arrivals ts \<Longrightarrow>
    fst (run h ts s) \<noteq> None \<and> (healthy s \<longrightarrow> exit_status (run h ts s) = Some (verdict_of s))"
proof (induction ts arbitrary: s)
  case Nil
  then show ?case by (simp add: arrivals_def)
next
  case (Cons t ts)
  show ?case
  proof (cases "sv_exited s")
    case True
    then show ?thesis by (simp add: run.simps [of h "t # ts"] exit_status_def verdict_of_def)
  next
    case False
    obtain l s' where l: "take_turn h t s = (l, s')" by force
    have turn: "turn_ok t s (l, s')" using take_turn_ok [OF Cons.prems(1) False, of t h] by (simp add: l)
    show ?thesis
    proof (cases l)
      case GoOn
      then have "length (incoming s') < arrivals ts"
        using turn Cons.prems(2) by (simp add: turn_ok_def arrivals_def split: if_splits)
      then show ?thesis
        using Cons.IH [of s'] turn False by (simp add: run.simps [of h "t # ts"] l GoOn turn_ok_def)
    next
      case (Ended r)
      then show ?thesis using turn False by (simp add: run.simps [of h "t # ts"] l turn_ok_def)
    qed
  qed
qed

section \<open>What a step sends and publishes\<close>

lemma step_extends:
  assumes "server_ok s"
  shows "\<exists>ms. sv_sent (session_step h s ev) = sv_sent s @ ms"
proof (cases ev)
  case (Handled now m)
  then show ?thesis
    using contained_facts(5) [OF assms, of h now m] by (auto simp: session_step_def replied_def sends_def)
next
  case (Due now)
  then show ?thesis
    using analyze_each_keeps [OF assms, of h now] by (fastforce simp: session_step_def analyze_due_def quiet_def sends_def)
next
  case (Flushed now)
  have "server_ok (s\<lparr>sv_pending := []\<rparr>)" by (rule server_ok_pending [OF assms]) simp_all
  then show ?thesis
    using analyze_each_keeps [of "s\<lparr>sv_pending := []\<rparr>" h now]
    by (fastforce simp: session_step_def Flushed flush_def quiet_def sends_def)
next
  case (Rejected err)
  then show ?thesis by (simp add: session_step_def reject_def log_message_def split: option.splits)
next
  case (Taken arrived)
  then show ?thesis by (simp add: session_step_def)
qed

definition current_push :: "('g, 'v, 'e) server \<Rightarrow> ('g, 'v, 'e) server \<Rightarrow> message \<Rightarrow> bool" where
  "current_push s s' m \<longleftrightarrow>
     (\<exists>uri d ds. store_get (sv_docs s) uri = Some d \<and> store_get (sv_docs s') uri = Some d \<and>
        m = publishing uri (Some (doc_version d)) ds) \<or>
     (\<exists>uri. store_get (sv_docs s') uri = None \<and> m = publishing uri None [])"

lemma step_pubs:
  assumes "server_ok s"
  shows "\<exists>ps. pubs (session_step h s ev) = pubs s @ ps \<and> list_all (current_push s (session_step h s ev)) ps"
proof -
  have each: "\<exists>ps. pubs t = pubs s @ ps \<and> list_all (current_push s t) ps"
    if t: "publishes (sv_docs s) s t" "sv_docs t = sv_docs s" for t
  proof -
    obtain ps where ps: "pubs t = pubs s @ ps" "list_all (stamped (sv_docs s)) ps"
      using t(1) by (auto simp: publishes_def)
    have "current_push s t m" if "stamped (sv_docs s) m" for m
      using that t(2) by (auto simp: current_push_def stamped_def)
    with ps show ?thesis by (blast intro: list.pred_mono_strong)
  qed
  show ?thesis
  proof (cases ev)
    case (Handled now m)
    then show ?thesis
      using handled_publishes [OF assms, of h now m] by (auto simp: session_step_def current_push_def)
  next
    case (Due now)
    then show ?thesis
      using each analyze_each_publishes [OF assms, of h now] by (simp add: session_step_def analyze_due_def)
  next
    case (Flushed now)
    have "server_ok (s\<lparr>sv_pending := []\<rparr>)" by (rule server_ok_pending [OF assms]) simp_all
    from analyze_each_publishes [OF this, of h now] show ?thesis
      using each by (simp add: session_step_def Flushed flush_def publishes_def)
  next
    case (Rejected err)
    have "\<not> is_push m" if "error_answer err = Some m" for m
      using that by (auto simp: error_answer_def split: rpc_error.splits)
    then show ?thesis by (auto simp: session_step_def Rejected reject_def split: option.splits)
  next
    case (Taken arrived)
    then show ?thesis by (simp add: session_step_def)
  qed
qed

end
