(* ===== verification/Mirror.thy ===== *)
theory Mirror
  imports Session
begin

text \<open>
  The documents as the client has them. An editor that agrees on an encoding, opens, edits and
  closes documents has a picture of its documents; the server's store (\<open>rs/src/documents.rs\<close>,
  through the handlers of \<open>rs/src/server.rs\<close>) refines it over every session, whatever else the
  session does: always for a client that breaks lines as the store does, and for one that breaks
  them as the protocol does as long as it edits no text with a lone carriage return by ranges.
\<close>

section \<open>The client's picture\<close>

record client_doc =
  cl_language :: rstr
  cl_version :: int
  cl_encoding :: position_encoding
  cl_text :: rstr

record client =
  cl_agreed :: position_encoding
  cl_docs :: "rstr \<rightharpoonup> client_doc"

definition client_start :: client where
  "client_start = \<lparr>cl_agreed = Utf16, cl_docs = Map.empty\<rparr>"

definition client_agrees :: "json \<Rightarrow> client \<Rightarrow> client" where
  "client_agrees params c =
     c\<lparr>cl_agreed := negotiate_encoding (unwrap_or (value_get params (str ''capabilities'')) JNull)\<rparr>"

definition client_opens :: "text_document_item \<Rightarrow> client \<Rightarrow> client" where
  "client_opens p c = c\<lparr>cl_docs := (cl_docs c)(ti_uri p \<mapsto>
     \<lparr>cl_language = ti_language_id p, cl_version = ti_version p, cl_encoding = cl_agreed c, cl_text = ti_text p\<rparr>)\<rparr>"

text \<open>How the client edits a text: by the store's lines or by the protocol's.\<close>

type_synonym editing = "position_encoding \<Rightarrow> rstr \<Rightarrow> lsp_range option \<times> rstr \<Rightarrow> rstr"

definition client_edits :: "editing \<Rightarrow> did_change_params \<Rightarrow> client \<Rightarrow> client" where
  "client_edits ed p c = (case cl_docs c (dc_uri p) of
      None \<Rightarrow> c
    | Some d \<Rightarrow> c\<lparr>cl_docs := (cl_docs c)(dc_uri p \<mapsto> d\<lparr>cl_version := dc_version p,
        cl_text := foldl (ed (cl_encoding d)) (cl_text d) (dc_changes p)\<rparr>)\<rparr>)"

definition client_closes :: "rstr \<Rightarrow> client \<Rightarrow> client" where
  "client_closes uri c = c\<lparr>cl_docs := (cl_docs c)(uri := None)\<rparr>"

text \<open>The message as a change of the picture; one that cannot be read changes nothing.\<close>

definition client_says :: "editing \<Rightarrow> rstr \<Rightarrow> json \<Rightarrow> client \<Rightarrow> client" where
  "client_says ed meth params c =
     (if meth = str ''initialize'' then client_agrees params c
      else if meth = str ''textDocument/didOpen'' then
        (case read_did_open params of None \<Rightarrow> c | Some p \<Rightarrow> client_opens p c)
      else if meth = str ''textDocument/didChange'' then
        (case read_did_change params of None \<Rightarrow> c | Some p \<Rightarrow> client_edits ed p c)
      else if meth = str ''textDocument/didClose'' then
        (case read_text_document_params params of None \<Rightarrow> c | Some uri \<Rightarrow> client_closes uri c)
      else c)"

definition client_sends :: "editing \<Rightarrow> message \<Rightarrow> client \<Rightarrow> client" where
  "client_sends ed m c = (case ms_method m of
      None \<Rightarrow> c | Some meth \<Rightarrow> client_says ed meth (unwrap_or (ms_params m) JNull) c)"

fun client_event :: "editing \<Rightarrow> client \<Rightarrow> event \<Rightarrow> client" where
  "client_event ed c (Handled now m) = client_sends ed m c"
| "client_event ed c ev = c"

text \<open>The client changes by ranges only texts whose lines the store and the protocol break alike.\<close>

definition change_agrees :: "client \<Rightarrow> message \<Rightarrow> bool" where
  "change_agrees c m \<longleftrightarrow>
     (if ms_method m = Some (str ''textDocument/didChange'')
      then (case read_did_change (unwrap_or (ms_params m) JNull) of
          None \<Rightarrow> True
        | Some p \<Rightarrow>
            (case cl_docs c (dc_uri p) of
               None \<Rightarrow> True | Some d \<Rightarrow> agreed_lines (cl_encoding d) (cl_text d) (dc_changes p)))
      else True)"

fun lines_agree :: "client \<Rightarrow> event list \<Rightarrow> bool" where
  "lines_agree c [] \<longleftrightarrow> True"
| "lines_agree c (ev # evs) \<longleftrightarrow>
     (case ev of Handled now m \<Rightarrow> change_agrees c m | _ \<Rightarrow> True) \<and> lines_agree (client_event protocol_edit c ev) evs"

lemma client_sends_agree:
  assumes "change_agrees c m"
  shows "client_sends store_edit m c = client_sends protocol_edit m c"
proof -
  have "client_edits store_edit p c = client_edits protocol_edit p c"
    if "ms_method m = Some (str ''textDocument/didChange'')" "read_did_change (unwrap_or (ms_params m) JNull) = Some p" for p
    using assms that by (cases "cl_docs c (dc_uri p)") (simp_all add: change_agrees_def client_edits_def store_edits_protocol)
  then show ?thesis by (auto simp: client_sends_def client_says_def split: option.splits)
qed

lemma clients_agree:
  "lines_agree c evs \<Longrightarrow> foldl (client_event store_edit) c evs = foldl (client_event protocol_edit) c evs"
proof (induction evs arbitrary: c)
  case (Cons ev evs)
  then have "client_event store_edit c ev = client_event protocol_edit c ev"
    by (cases ev) (simp_all add: client_sends_agree)
  with Cons show ?case by simp
qed simp

text \<open>The picture a server's store gives.\<close>

definition pictured :: "doc \<Rightarrow> client_doc" where
  "pictured d = \<lparr>cl_language = doc_language_id d, cl_version = doc_version d,
     cl_encoding = doc_encoding d, cl_text = doc_text d\<rparr>"

definition picture :: "document_store \<Rightarrow> client" where
  "picture st = \<lparr>cl_agreed = st_encoding st, cl_docs = (\<lambda>uri. map_option pictured (store_get st uri))\<rparr>"

lemma picture_new: "picture store_new = client_start"
  by (simp add: picture_def client_start_def store_new_def store_get_def)

lemma picture_agrees:
  "picture (store_set_encoding st (negotiate_encoding (unwrap_or (value_get params (str ''capabilities'')) JNull))) =
    client_agrees params (picture st)"
  by (simp add: picture_def client_agrees_def store_set_encoding_def store_get_def)

lemma picture_opens:
  "picture (store_open st (ti_uri p) (ti_language_id p) (ti_version p) (ti_text p)) = client_opens p (picture st)"
  by (auto simp: picture_def client_opens_def store_open_def store_get_def pictured_def Let_def
      with_encoding_def doc_new_def)

lemma picture_closes: "picture (store_close st uri) = client_closes uri (picture st)"
  by (auto simp: picture_def client_closes_def store_close_def store_get_def)

lemma picture_edits:
  assumes "store_get st (dc_uri p) = Some d" "index_ok d" "apply_changes d (dc_changes p) (dc_version p) = Some d'"
  shows "picture (store_put st (dc_uri p) d') = client_edits store_edit p (picture st)"
proof -
  have "doc_text d' = foldl (store_edit (doc_encoding d)) (doc_text d) (dc_changes p)"
    using apply_changes_lines [OF assms(2), of "dc_changes p" "dc_version p"] assms(3) by simp
  then have "pictured d' = (pictured d)\<lparr>cl_version := dc_version p,
      cl_text := foldl (store_edit (cl_encoding (pictured d))) (cl_text (pictured d)) (dc_changes p)\<rparr>"
    using apply_changes_frame [OF assms(3)] by (simp add: pictured_def)
  then show ?thesis
    using assms(1) by (auto simp: picture_def client_edits_def store_put_def store_get_def)
qed

section \<open>What each handler does to the documents\<close>

definition docs_as :: "client \<Rightarrow> 'a \<times> ('g, 'v, 'e) server \<Rightarrow> bool" where
  "docs_as c x \<longleftrightarrow> picture (sv_docs (snd x)) = c"

lemma docs_of_foldl: "(\<And>s x. sv_docs (f s x) = sv_docs s) \<Longrightarrow> sv_docs (foldl f s xs) = sv_docs s"
  by (induction xs arbitrary: s) simp_all

lemma docs_forget [simp]: "sv_docs (forget_analysis uri s) = sv_docs s"
  by (simp add: forget_analysis_def)

lemma docs_invalidate_workspace [simp]: "sv_docs (invalidate_workspace h s) = sv_docs s"
  unfolding invalidate_workspace_def by (rule docs_of_foldl) simp

lemma docs_folder_entries: "sv_docs (snd (foldl (folder_entries h now) (w, s) folders)) = sv_docs s"
proof (induction folders arbitrary: w s)
  case (Cons f folders)
  obtain w1 s1 where s1: "folder_entries h now (w, s) f = (w1, s1)" by force
  then have "sv_docs s1 = sv_docs s" by (auto simp: folder_entries_def split: sum.splits)
  with Cons.IH [of w1 s1] show ?case by (simp add: s1)
qed simp

lemma docs_rebuild [simp]: "sv_docs (rebuild_registry h now s) = sv_docs s"
proof -
  let ?s1 = "invalidate_workspace h s"
  obtain w s2 where s2: "foldl (folder_entries h now)
      (cf_workspace_entries (sv_config ?s1) @ sv_init_languages ?s1, ?s1) (sv_folders ?s1) = (w, s2)" by force
  then have "sv_docs s2 = sv_docs s"
    using docs_folder_entries [of h now _ ?s1] by (metis snd_conv docs_invalidate_workspace)
  then show ?thesis by (simp add: rebuild_registry_def s2 Let_def)
qed

lemma docs_take_language: "sv_docs (take_language h dir s x) = sv_docs s"
  by (simp add: take_language_def split: sum.splits)

lemma docs_initialize:
  "sv_docs (snd (initialize h now params s)) =
    store_set_encoding (sv_docs s) (negotiate_encoding (unwrap_or (value_get params (str ''capabilities'')) JNull))"
  by (simp add: initialize_def Let_def docs_of_foldl docs_take_language)

lemma docs_answer [simp]: "sv_docs (snd (answer_request h i v s)) = sv_docs s"
  by (simp add: answer_request_def split: option.splits)

lemma docs_bad_params [simp]: "sv_docs (snd (bad_params h i meth params s)) = sv_docs s"
  by (simp add: bad_params_def Let_def split: option.splits)

lemma docs_initialized: "sv_docs (snd (initialized h s)) = sv_docs s"
  by (simp add: initialized_def)

lemma docs_reload: "foldl (reload_entry h) (s, due) es = (s', due') \<Longrightarrow> sv_docs s' = sv_docs s"
  by (induction es arbitrary: s due) (auto simp: reload_entry_def)

lemma docs_watched: "sv_docs (did_change_watched_files h now uris s) = sv_docs s"
proof -
  obtain s1 due where s1: "foldl (reload_entry h) (s, [])
      (reloaded_by (watched_file (ho_files h)) (sv_router s) (map normalize (List.map_filter folder_path_of uris))) = (s1, due)"
    by force
  show ?thesis
    by (simp only: did_change_watched_files_def Let_def s1 prod.case) (simp add: docs_of_foldl docs_reload [OF s1])
qed

lemma docs_complete: "sv_docs (snd (complete h now p s)) = sv_docs s"
proof -
  have got: "sv_docs s1 = sv_docs s" if "get_instance h e s = (r, s1)" for e r s1
    using get_instance_fields(1) [of h e s] that by (simp add: desk_eq_iff)
  have timed: "sv_docs u = sv_docs t" if "with_deadline now (\<lambda>s2. (g s2, s2)) t = (r, u)" for g t r u
    using that by (auto simp: with_deadline_def split: option.splits)
  show ?thesis
    by (auto simp: complete_def dest!: got timed split: option.splits prod.splits sum.splits)
qed

text \<open>The three notifications that edit the store, and the one that sets its encoding.\<close>

lemma did_open_mirrors: "picture (sv_docs (did_open now p s)) = client_opens p (picture (sv_docs s))"
  by (simp add: did_open_def picture_opens)

lemma did_close_mirrors: "picture (sv_docs (snd (did_close h uri s))) = client_closes uri (picture (sv_docs s))"
  by (simp add: did_close_def publish_def picture_closes)

lemma did_change_mirrors:
  assumes "server_ok s"
  obtains s' where "did_change now p s = Some s'"
    "picture (sv_docs s') = client_edits store_edit p (picture (sv_docs s))"
proof (cases "store_get (sv_docs s) (dc_uri p)")
  case None
  then have "client_edits store_edit p (picture (sv_docs s)) = picture (sv_docs s)"
    by (simp add: client_edits_def picture_def)
  with None that show thesis by (simp add: did_change_def)
next
  case (Some d)
  have ok: "index_ok d" using server_okD(11) [OF assms Some] by simp
  obtain d' where d': "apply_changes d (dc_changes p) (dc_version p) = Some d'"
    using apply_changes_total [OF ok] by blast
  with Some that picture_edits [OF Some ok d'] show thesis by (simp add: did_change_def)
qed

lemma docs_as_same: "sv_docs (snd x) = sv_docs s \<Longrightarrow> docs_as (picture (sv_docs s)) x"
  by (simp add: docs_as_def)

lemma docs_as_params:
  assumes "\<And>p. rd params = Some p \<Longrightarrow> docs_as (g p (picture (sv_docs s))) (f p s)"
  shows "docs_as (case rd params of None \<Rightarrow> picture (sv_docs s) | Some p \<Rightarrow> g p (picture (sv_docs s)))
    (with_params h rd i meth params f s)"
  using assms by (auto simp: with_params_def Let_def docs_as_def case_prod_unfold split: option.splits)

lemma docs_as_params_same:
  "(\<And>p. docs_as (picture (sv_docs s)) (f p s)) \<Longrightarrow>
    docs_as (picture (sv_docs s)) (with_params h rd i meth params f s)"
  by (auto simp: with_params_def Let_def docs_as_def case_prod_unfold split: option.splits)

lemma dispatch_leaves_docs:
  assumes "server_ok s" "meth \<noteq> str ''initialize''" "meth \<noteq> str ''textDocument/didOpen''"
    "meth \<noteq> str ''textDocument/didChange''" "meth \<noteq> str ''textDocument/didClose''"
  shows "docs_as (picture (sv_docs s)) (dispatch h now meth i params s)"
proof -
  have compl: "docs_as (picture (sv_docs s)) (answer_with h i (complete h now p s))" for p
    using docs_complete [of h now p s] by (auto simp: answer_with_def docs_as_def returning_def split: prod.splits option.splits)
  show ?thesis
    unfolding dispatch_def if_not_P [OF assms(2)] if_not_P [OF assms(3)] if_not_P [OF assms(4)] if_not_P [OF assms(5)]
    by (intro if_split [where P = "docs_as (picture (sv_docs s))", THEN iffD2] conjI impI compl
        docs_as_params_same docs_as_same)
      (auto simp: docs_as_def returning_def docs_initialized docs_watched hover_at_null [OF assms(1)] answer_with_def
        split: option.splits)
qed

lemma dispatch_mirrors:
  assumes "server_ok s"
  shows "docs_as (client_says store_edit meth params (picture (sv_docs s))) (dispatch h now meth i params s)"
proof (cases "meth = str ''initialize''")
  case True
  have "docs_as (client_agrees params (picture (sv_docs s)))
      (let (v, s') = initialize h now params s in returning (answer_request h i v s'))"
    by (simp add: docs_as_def returning_def case_prod_unfold Let_def docs_initialize picture_agrees)
  then show ?thesis by (simp add: dispatch_def client_says_def True)
next
  case not_init: False
  show ?thesis
  proof (cases "meth \<in> {str ''textDocument/didOpen'', str ''textDocument/didChange'', str ''textDocument/didClose''}")
    case True
    have opened: "docs_as (client_opens p (picture (sv_docs s))) (Some None, did_open now p s)" for p
      by (simp add: docs_as_def did_open_mirrors)
    have changed: "docs_as (client_edits store_edit p (picture (sv_docs s)))
        (case did_change now p s of None \<Rightarrow> (None, s) | Some s' \<Rightarrow> (Some None, s'))" for p
      using did_change_mirrors [OF assms, of now p thesis for thesis] by (fastforce simp: docs_as_def)
    have closed: "docs_as (client_closes uri (picture (sv_docs s))) (returning (did_close h uri s))" for uri
      by (simp add: docs_as_def returning_def did_close_mirrors)
    from True show ?thesis
      by (auto simp: dispatch_def client_says_def intro!: docs_as_params opened changed closed)
  next
    case False
    then show ?thesis
      using dispatch_leaves_docs [OF assms not_init] not_init by (simp add: client_says_def)
  qed
qed

section \<open>Every session refines the picture\<close>

lemma handled_mirrors:
  assumes "server_ok s"
  shows "picture (sv_docs (snd (handle_contained h now m s))) = client_sends store_edit m (picture (sv_docs s))"
proof -
  have same: "snd (handle_contained h now m s) = snd (handle h now m s)"
    using handle_contained_answered [OF assms, of h now m] by force
  show ?thesis
  proof (cases "ms_method m")
    case None
    then show ?thesis unfolding same
      by (auto simp: handle_def client_sends_def returning_def split: option.splits)
  next
    case (Some meth)
    then show ?thesis unfolding same
      using dispatch_mirrors [OF assms, of meth "unwrap_or (ms_params m) JNull" h now "ms_id m"]
      by (simp add: handle_def client_sends_def docs_as_def)
  qed
qed

lemma step_mirrors:
  assumes "server_ok s"
  shows "picture (sv_docs (session_step h s ev)) = client_event store_edit (picture (sv_docs s)) ev"
proof (cases ev)
  case (Handled now m)
  then show ?thesis by (simp add: session_step_def handled_mirrors [OF assms])
next
  case (Due now)
  then show ?thesis
    using analyze_each_publishes [OF assms, of h now] by (simp add: session_step_def analyze_due_def)
next
  case (Flushed now)
  have "server_ok (s\<lparr>sv_pending := []\<rparr>)" by (rule server_ok_pending [OF assms]) simp_all
  from analyze_each_publishes [OF this, of h now] show ?thesis
    by (simp add: session_step_def Flushed flush_def)
next
  case (Rejected err)
  then show ?thesis by (simp add: session_step_def reject_def split: option.splits)
next
  case (Taken arrived)
  then show ?thesis by (simp add: session_step_def)
qed

lemma session_mirrors:
  assumes "server_ok s"
  shows "picture (sv_docs (session h s evs)) = foldl (client_event store_edit) (picture (sv_docs s)) evs"
  using assms
proof (induction evs arbitrary: s)
  case (Cons ev evs)
  have "server_ok (session_step h s ev)" using step_facts [OF Cons.prems] by blast
  from Cons.IH [OF this] step_mirrors [OF Cons.prems, of h ev] show ?case by (simp add: session_def)
qed (simp add: session_def)

lemma start_docs: "server_with_trust cfg conn trust = Some s \<Longrightarrow> sv_docs s = store_new"
  by (auto simp: server_with_trust_def Let_def split: option.splits)

end
