(* ===== verification/Outcomes.thy ===== *)
theory Outcomes
  imports Publications
begin

text \<open>
  What becomes of each document that is due (\<open>analyze_each\<close> and \<open>run_analysis\<close> of
  \<open>rs/src/server.rs\<close>): one outcome per document, in the order of the loop, and nothing else on
  the wire.
\<close>

section \<open>Outcomes\<close>

definition error_line :: "rstr \<Rightarrow> message" where
  "error_line txt = message_notification (str ''window/logMessage'')
     (Some (obj [(''type'', JNum (NInt LOG_ERROR)), (''message'', JStr txt)]))"

text \<open>How often loads and analyses of an entry have failed in a row.\<close>

definition failures_of :: "('g, 'v, 'e, 'tin) host \<Rightarrow> ('g, 'v, 'e) server \<Rightarrow> entry \<Rightarrow> nat" where
  "failures_of h s e = failures_under (sv_instances s) (key (ho_text h) (ho_hash h) e None)"

text \<open>
  An analysis publishes the diagnostics of one parse of the text; or it says why there is none,
  and counts a failure; or the entry is quarantined and nothing is said.
\<close>

definition analysis_outcome :: "('g, 'v, 'e, 'tin) host \<Rightarrow> ('g, 'v, 'e) server \<Rightarrow> rstr \<Rightarrow> doc \<Rightarrow> entry \<Rightarrow>
    message list \<Rightarrow> bool" where
  "analysis_outcome h t uri d e ms \<longleftrightarrow>
     (\<exists>a. analysis_of h d a \<and> ms = [publishing uri (Some (doc_version d)) (an_diagnostics a)]) \<or>
     (\<exists>why. ms \<in> {[error_line (str ''tabnas-lsp: grammar load failed: '' @ why)],
          [error_line (str ''tabnas-lsp: analysis failed ('' @ language_id e @ str ''): '' @ why)]} \<and> 0 < failures_of h t e) \<or>
     ms = [] \<and> QUARANTINE_LIMIT \<le> failures_of h t e"

text \<open>
  The outcome for a document of \<open>s\<close> in a loop that ended in \<open>t\<close>: a document no entry serves has
  its diagnostics withdrawn, if it shows any, and one that is too large is said to be.
\<close>

definition outcome :: "('g, 'v, 'e, 'tin) host \<Rightarrow> ('g, 'v, 'e) server \<Rightarrow> ('g, 'v, 'e) server \<Rightarrow> rstr \<Rightarrow>
    message list \<Rightarrow> bool" where
  "outcome h s t uri ms \<longleftrightarrow> (case store_get (sv_docs s) uri of
      None \<Rightarrow> False
    | Some d \<Rightarrow>
        (case route h s d of
           None \<Rightarrow> ms = (if uri \<in> sv_published s then [publishing uri (Some (doc_version d)) []] else [])
         | Some e \<Rightarrow>
             (case over_limit s d of
                Some limit \<Rightarrow>
                  ms = [publishing uri (Some (doc_version d)) [oversized e (byte_len (doc_text d)) limit]]
              | None \<Rightarrow> analysis_outcome h t uri d e ms)))"

lemma outcome_cong:
  assumes "sv_docs s' = sv_docs s" "sv_router s' = sv_router s" "sv_config s' = sv_config s"
    "uri \<in> sv_published s' \<longleftrightarrow> uri \<in> sv_published s"
  shows "outcome h s' t uri ms \<longleftrightarrow> outcome h s t uri ms"
  using assms by (simp add: outcome_def route_def over_limit_def cong: option.case_cong if_cong)

section \<open>Failures only add up\<close>

definition grown :: "('g, 'v, 'e, 'tin) host \<Rightarrow> ('g, 'v, 'e) server \<Rightarrow> ('g, 'v, 'e) server \<Rightarrow> bool" where
  "grown h s t \<longleftrightarrow> (\<forall>e. failures_of h s e \<le> failures_of h t e)"

lemma grown_refl [simp]: "grown h s s"
  by (simp add: grown_def)

lemma grown_trans: "grown h s t \<Longrightarrow> grown h t u \<Longrightarrow> grown h s u"
  unfolding grown_def by (blast intro: order_trans)

lemma grown_same: "in_failures (sv_instances t) = in_failures (sv_instances s) \<Longrightarrow> grown h s t"
  by (simp add: grown_def failures_of_def failures_under_def)

lemma outcome_grown: "grown h t u \<Longrightarrow> outcome h s t uri ms \<Longrightarrow> outcome h s u uri ms"
  unfolding outcome_def analysis_outcome_def grown_def
  by (auto split: option.splits intro: order_trans less_le_trans)

lemma failures_count: "failures_under (count_failure k i) k' = failures_under i k' + (if k' = k then 1 else 0)"
  by (simp add: failures_under_def count_failure_def unwrap_or_def)

lemma failures_made [simp]: "failures_under (i\<lparr>in_made := n\<rparr>) k = failures_under i k"
  "failures_under (i\<lparr>in_cache := c\<rparr>) k = failures_under i k"
  by (simp_all add: failures_under_def)

text \<open>An instance asked for: made or cached, or a failure counted, or quarantined.\<close>

lemma get_instance_failures:
  assumes "get_instance h e s = (got, s1)"
  shows "grown h s s1"
    and "got = Inr None \<Longrightarrow> QUARANTINE_LIMIT \<le> failures_of h s1 e"
    and "got = Inl err \<Longrightarrow> 0 < failures_of h s1 e"
  using assms
  by (auto simp: get_instance_def Let_def instances_get_def grown_def failures_of_def failures_count
      split: prod.splits if_splits option.splits sum.splits)

section \<open>One document\<close>

lemma log_sends: "sv_sent (log_message h LOG_ERROR txt s) = sv_sent s @ [error_line txt]"
  by (simp add: log_message_def error_line_def)

lemma publish_sent: "sv_sent (snd (publish h uri v ds s)) = sv_sent s @ [publishing uri v ds]"
  by (simp add: publish_sends)

lemma publish_analysis_sent:
  "sv_sent (snd (publish_analysis h uri v a s)) = sv_sent s @ [publishing uri (Some v) (an_diagnostics a)]"
  "sv_instances (snd (publish_analysis h uri v a s)) = sv_instances s"
proof -
  let ?t = "s\<lparr>sv_published := (if an_diagnostics a = [] then sv_published s - {uri} else insert uri (sv_published s))\<rparr>"
  obtain r u where u: "publish h uri (Some v) (an_diagnostics a) ?t = (r, u)" by force
  then have "sv_sent u = sv_sent s @ [publishing uri (Some v) (an_diagnostics a)]" "sv_instances u = sv_instances s"
    using publish_sent [of h uri "Some v" "an_diagnostics a" ?t] publish_fields(2) [of h uri "Some v" "an_diagnostics a" ?t]
    by simp_all
  then show "sv_sent (snd (publish_analysis h uri v a s)) = sv_sent s @ [publishing uri (Some v) (an_diagnostics a)]"
    "sv_instances (snd (publish_analysis h uri v a s)) = sv_instances s"
    unfolding publish_analysis_def Let_def u prod.case by (cases r; simp)+
qed

lemma parse_failures: "in_failures (snd (instances_parse run p src i)) = in_failures i"
  by (simp add: instances_parse_def case_prod_unfold Let_def)

lemma timed_failures:
  "in_failures (sv_instances (snd (with_deadline now (analyze_caught h now inst e d) s))) = in_failures (sv_instances s)"
  by (auto simp: with_deadline_def analyze_caught_def case_prod_unfold Let_def parse_failures split: option.splits)

lemma analyze_document_outcome:
  assumes "instances_ok (sv_instances s)" "ps_pairs inst = 1" "sv_slot s = None"
    and t: "t = snd (analyze_document h now uri inst e d s)"
  shows "\<exists>ms. sv_sent t = sv_sent s @ ms \<and> analysis_outcome h t uri d e ms \<and> grown h s t"
proof -
  obtain a insts where run: "with_deadline now (analyze_caught h now inst e d) s = (Some a, s\<lparr>sv_instances := insts\<rparr>)"
    and of_doc: "\<And>a'. a = Some a' \<Longrightarrow> analysis_of h d a'"
    using timed_analysis_facts [OF assms(1-3), of now h e d] by metis
  have kept: "failures_under insts k = failures_under (sv_instances s) k" for k
    using timed_failures [of now h inst e d s] by (simp add: run failures_under_def)
  show ?thesis
  proof (cases "failure_of h inst d a")
    case (Some why)
    then have "sv_sent t = sv_sent s @ [error_line (str ''tabnas-lsp: analysis failed ('' @ language_id e @ str ''): '' @ why)]"
      "sv_instances t = record_failure (ho_text h) (ho_hash h) e None insts"
      unfolding t analyze_document_def run by (simp_all add: Let_def log_sends)
    moreover from this(2) have "failures_of h t e' = failures_of h s e' +
        (if key (ho_text h) (ho_hash h) e' None = key (ho_text h) (ho_hash h) e None then 1 else 0)" for e'
      by (simp add: failures_of_def record_failure_def failures_count kept)
    ultimately show ?thesis by (auto simp: analysis_outcome_def grown_def)
  next
    case None
    then obtain a' where a': "a = Some a'" by (auto simp: failure_of_def split: option.splits)
    have "t = snd (publish_analysis h uri (doc_version d) a' (s\<lparr>sv_instances := insts\<rparr>))"
      unfolding t analyze_document_def run using None by (simp add: a')
    then have "sv_sent t = sv_sent s @ [publishing uri (Some (doc_version d)) (an_diagnostics a')]" "sv_instances t = insts"
      by (simp_all add: publish_analysis_sent)
    moreover from this(2) have "grown h s t" by (simp add: grown_def failures_of_def kept)
    ultimately show ?thesis using of_doc [OF a'] by (auto simp: analysis_outcome_def)
  qed
qed

lemma run_analysis_outcome:
  assumes "sv_slot s = None" "instances_ok (sv_instances s)" "store_get (sv_docs s) uri \<noteq> None"
    and t: "t = snd (run_analysis h now uri s)"
  shows "\<exists>ms. sv_sent t = sv_sent s @ ms \<and> outcome h s t uri ms \<and> grown h s t"
proof -
  obtain d where d: "store_get (sv_docs s) uri = Some d" using assms(3) by blast
  have pub: ?thesis if "t = snd (publish h uri v ds s1)" "sv_sent s1 = sv_sent s" "sv_instances s1 = sv_instances s"
      "outcome h s t uri [publishing uri v ds]" for v ds s1
  proof -
    have "sv_sent t = sv_sent s @ [publishing uri v ds]" using that(1,2) by (simp add: publish_sent)
    moreover have "grown h s t" by (rule grown_same) (simp add: that(1,3))
    ultimately show ?thesis using that(4) by blast
  qed
  show ?thesis
  proof (cases "route h s d")
    case None
    show ?thesis
    proof (cases "uri \<in> sv_published s")
      case True
      then show ?thesis
        by (intro pub [of "Some (doc_version d)" "[]" "s\<lparr>sv_published := sv_published s - {uri}\<rparr>"])
          (simp_all add: t run_analysis_def outcome_def d None)
    next
      case False
      then have "t = s" by (simp add: t run_analysis_def d None)
      then show ?thesis using False by (intro exI [of _ "[]"]) (simp add: outcome_def d None)
    qed
  next
    case e: (Some e)
    show ?thesis
    proof (cases "over_limit s d")
      case (Some limit)
      then show ?thesis
        by (intro pub [of "Some (doc_version d)" "[oversized e (byte_len (doc_text d)) limit]"
              "(forget_analysis uri s)\<lparr>sv_published := insert uri (sv_published s)\<rparr>"])
          (simp_all add: t run_analysis_def outcome_def d e forget_analysis_def)
    next
      case None
      obtain got s1 where s1: "get_instance h e s = (got, s1)" by force
      then have s1': "s1 = snd (get_instance h e s)" by simp
      have same: "sv_sent s1 = sv_sent s" "sv_slot s1 = None" "instances_ok (sv_instances s1)"
        using get_instance_ok [OF assms(2)] assms(1) by (simp_all add: s1')
      note got = get_instance_failures [OF s1]
      have "\<exists>ms. sv_sent t = sv_sent s @ ms \<and> analysis_outcome h t uri d e ms \<and> grown h s t"
      proof (cases got)
        case (Inl err)
        then have t': "t = log_message h LOG_ERROR (str ''tabnas-lsp: grammar load failed: '' @ load_error_text err) s1"
          by (simp add: t run_analysis_def d e None s1)
        have "grown h s1 t" by (rule grown_same) (simp add: t')
        moreover from this have "0 < failures_of h t e"
          using got(3) [OF Inl] unfolding grown_def by (metis less_le_trans)
        ultimately show ?thesis using grown_trans [OF got(1)] by (auto simp: t' log_sends same analysis_outcome_def)
      next
        case (Inr p)
        show ?thesis
        proof (cases p)
          case None
          have "t = s1" by (simp add: t run_analysis_def d e \<open>over_limit s d = None\<close> s1 Inr None)
          then show ?thesis using got(1,2) Inr None same(1) by (auto simp: analysis_outcome_def)
        next
          case (Some inst)
          have "ps_pairs inst = 1" using get_instance_pairs [OF assms(2)] s1 Inr Some by blast
          moreover have "t = snd (analyze_document h now uri inst e d s1)"
            by (simp add: t run_analysis_def d e \<open>over_limit s d = None\<close> s1 Inr Some)
          ultimately show ?thesis
            using analyze_document_outcome [OF same(3) _ same(2)] grown_trans [OF got(1)] same(1) by metis
        qed
      qed
      then show ?thesis by (simp add: outcome_def d e None)
    qed
  qed
qed

section \<open>The loop\<close>

lemma analyze_each_outcomes:
  "server_ok s \<Longrightarrow> distinct uris \<Longrightarrow> set uris \<subseteq> set (sv_open s) \<Longrightarrow> analyze_each h now uris s = (None, t) \<Longrightarrow>
    \<exists>outs. sv_sent t = sv_sent s @ concat outs \<and> list_all2 (outcome h s t) uris outs \<and> grown h s t"
proof (induction uris arbitrary: s)
  case (Cons uri uris)
  let ?s = "s\<lparr>sv_pending := AList.delete uri (sv_pending s)\<rparr>"
  obtain r u where u: "run_analysis h now uri ?s = (r, u)" by force
  with Cons.prems(4) have r: "r = None" and rest: "analyze_each h now uris u = (None, t)" by (cases r; simp)+
  have ok: "server_ok ?s" by (rule server_ok_delete [OF Cons.prems(1)])
  have ran: "analyzed h uri ?s u"
    using run_analysis_analyzed [of ?s h uri now] ok by (simp add: server_ok_def u)
  have desk: "sv_docs u = sv_docs s" "sv_router u = sv_router s" "sv_config u = sv_config s" "sv_open u = sv_open s"
    using ran by (simp_all add: analyzed_def desk_eq_iff)
  have pub: "sv_published u - {uri} = sv_published s - {uri}" using ran by (simp add: analyzed_def)
  have "store_get (sv_docs ?s) uri \<noteq> None" using Cons.prems(1,3) server_ok_open [of s uri] by auto
  then obtain ms where ms: "sv_sent u = sv_sent ?s @ ms" "outcome h ?s u uri ms" "grown h ?s u"
    using run_analysis_outcome [of ?s uri u h now] server_okD [OF ok] u by fastforce
  have "set uris \<subseteq> set (sv_open u)" using Cons.prems(3) desk(4) by simp
  then obtain outs where outs: "sv_sent t = sv_sent u @ concat outs" "list_all2 (outcome h u t) uris outs" "grown h u t"
    using Cons.IH [OF analyzed_ok [OF ok ran] _ _ rest] Cons.prems(2) by auto
  have "outcome h u t x y \<longleftrightarrow> outcome h s t x y" if "x \<in> set uris" for x y
    using Cons.prems(2) that pub by (intro outcome_cong) (auto simp: desk)
  then have later: "list_all2 (outcome h s t) uris outs"
    using outs(2) by (auto intro: list.rel_mono_strong)
  have "outcome h s u uri ms" using ms(2) outcome_cong [of ?s s uri h u ms] by simp
  then have "list_all2 (outcome h s t) (uri # uris) (ms # outs)" using outcome_grown [OF outs(3)] later by simp
  moreover have "grown h s t" using grown_trans [OF ms(3) outs(3)] by (simp add: grown_def failures_of_def)
  moreover have "sv_sent t = sv_sent s @ concat (ms # outs)" using ms(1) outs(1) by simp
  ultimately show ?case by blast
qed simp

lemma due_outcomes:
  assumes "server_ok s" "analyze_due h now s = (None, t)"
  shows "\<exists>outs. sv_sent t = sv_sent s @ concat outs \<and>
    list_all2 (outcome h s t) (in_order (filter (\<lambda>(uri, at). at \<le> now) (sv_pending s))) outs"
proof -
  let ?due = "filter (\<lambda>(uri, at). at \<le> now) (sv_pending s)"
  have "mset (in_order ?due) = mset (map fst ?due)"
    by (simp add: in_order_def mset_map image_mset.compositionality comp_def case_prod_unfold)
  moreover have "distinct (map fst ?due)"
    using server_okD(3) [OF assms(1)] by (rule distinct_map_filter)
  ultimately have "distinct (in_order ?due)" by (metis mset_eq_imp_distinct_iff)
  moreover have "set (in_order ?due) \<subseteq> set (sv_open s)"
    using server_okD(4) [OF assms(1)] by (auto simp: fst_in_order)
  ultimately show ?thesis
    using analyze_each_outcomes [OF assms(1)] assms(2) unfolding analyze_due_def by blast
qed

end
