(* ===== verification/Replies.thy ===== *)
theory Replies
  imports Session
begin

text \<open>
  The answers of a whole run of the loop (\<open>Server::run\<close> of \<open>rs/src/server.rs\<close>): read off the
  incoming messages alone, by the id of each answer and in order.
\<close>

section \<open>The answers a stream of messages is due\<close>

text \<open>
  One for each request, up to the \<open>exit\<close>, with the request's id; one for each body that is no
  JSON or no message, with the id it can be told to have or the null one; and the stream's
  failure ends it.
\<close>

fun replies_due :: "(rpc_error + message) list \<Rightarrow> json option list" where
  "replies_due [] = []"
| "replies_due (Inl err # rest) =
     (if is_recoverable err
      then (case error_answer err of None \<Rightarrow> [] | Some m \<Rightarrow> [ms_id m]) @ replies_due rest
      else [])"
| "replies_due (Inr m # rest) =
     replicate (answers_due m) (ms_id m) @ (if asks m ''exit'' then [] else replies_due rest)"

definition replied_ids :: "('g, 'v, 'e) server \<Rightarrow> json option list" where
  "replied_ids s = map ms_id (replies s)"

text \<open>The ids answered and still to be answered.\<close>

definition ledger :: "('g, 'v, 'e) server \<Rightarrow> json option list" where
  "ledger s = replied_ids s @ (if sv_exited s then [] else replies_due (incoming s))"

lemma handled_ledger:
  assumes "server_ok s" "\<not> sv_exited s"
  shows "ledger (snd (handle_contained h now m s)) = replied_ids s @ replies_due (Inr m # incoming s)"
proof -
  obtain rs where rs: "replied h s (snd (handle_contained h now m s)) rs"
    "map ms_id rs = replicate (answers_due m) (ms_id m)"
    using contained_facts(5) [OF assms(1), of h now m] by blast
  then have "replied_ids (snd (handle_contained h now m s)) = replied_ids s @ replicate (answers_due m) (ms_id m)"
    by (simp add: replied_ids_def replied_replies)
  moreover have "incoming (snd (handle_contained h now m s)) = incoming s" by (rule replied_incoming [OF rs(1)])
  moreover have "sv_exited (snd (handle_contained h now m s)) \<longleftrightarrow> asks m ''exit''"
    using contained_facts(4) [OF assms(1), of h now m] assms(2) by (simp add: flags_def asks_def)
  ultimately show ?thesis by (simp add: ledger_def)
qed

lemma reject_ledger:
  assumes "server_ok s" "\<not> sv_exited s" "is_recoverable err"
  shows "ledger (snd (reject h err s)) = replied_ids s @ replies_due (Inl err # incoming s)"
proof -
  have answer: "ms_method m = None" if "error_answer err = Some m" for m
    using that by (auto simp: error_answer_def error_response_def message_blank_def split: rpc_error.splits)
  have "replied_ids (snd (reject h err s)) =
      replied_ids s @ (case error_answer err of None \<Rightarrow> [] | Some m \<Rightarrow> [ms_id m])"
    by (auto simp: reject_def replied_ids_def replies_def log_message_def message_notification_def answer split: option.splits)
  then show ?thesis
    using reject_facts [OF assms(1), of h err] assms(2,3) by (simp add: ledger_def)
qed

section \<open>Every turn keeps to it\<close>

lemma take_turn_ledger:
  assumes "server_ok s" "\<not> sv_exited s" "healthy s" "take_turn h t s = (l, s')"
  shows "case l of GoOn \<Rightarrow> ledger s' = ledger s | Ended r \<Rightarrow> replied_ids s' = ledger s"
  using assms(1,2)
proof (cases rule: take_turn_cases [where h = h and t = t])
  case (failed err s1)
  then show ?thesis using assms(3) by simp
next
  case (waited s2)
  then show ?thesis using assms(2,4) by (simp add: awaits_def ledger_def replied_ids_def)
next
  case (closed s2)
  then show ?thesis using assms(2,4) by (auto simp: awaits_def ledger_def replied_ids_def)
next
  case (message s2 m)
  then have s2: "server_ok s2" "\<not> sv_exited s2" "healthy s2" "replied_ids s2 = replied_ids s"
    using assms(3) by (simp_all add: awaits_def replied_ids_def)
  have "l = GoOn \<and> s' = snd (handle_contained h (tn_at t) m s2)"
    using message(1) assms(4) handle_contained_succeeds [OF s2(1,3), of h "tn_at t" m]
    by (simp add: looped_def)
  then show ?thesis
    using handled_ledger [OF s2(1,2), of h "tn_at t" m] s2(4) assms(2) message(3) by (simp add: ledger_def [of s])
next
  case (unreadable s2 err)
  then have s2: "server_ok s2" "\<not> sv_exited s2" "healthy s2" "replied_ids s2 = replied_ids s"
    using assms(3) by (simp_all add: awaits_def replied_ids_def)
  show ?thesis
  proof (cases "is_recoverable err")
    case True
    then have "l = GoOn \<and> s' = snd (reject h err s2)"
      using unreadable(1) assms(4) reject_succeeds [OF s2(3), of h err] by (simp add: looped_def)
    then show ?thesis
      using reject_ledger [OF s2(1,2) True, of h] s2(4) assms(2) unreadable(3) by (simp add: ledger_def [of s])
  next
    case False
    then show ?thesis using unreadable(1,3) assms(2,4) s2(4) by (auto simp: ledger_def [of s])
  qed
qed

lemma run_ledger:
  "server_ok s \<Longrightarrow> healthy s \<Longrightarrow> run h ts s = (Some r, s') \<Longrightarrow> replied_ids s' = ledger s"
proof (induction ts arbitrary: s)
  case Nil
  then show ?case by (simp add: run.simps [of h "[]"] ledger_def split: if_splits)
next
  case (Cons t ts)
  show ?case
  proof (cases "sv_exited s")
    case True
    then show ?thesis using Cons.prems(3) by (simp add: run.simps [of h "t # ts"] ledger_def)
  next
    case False
    obtain l s1 where l: "take_turn h t s = (l, s1)" by force
    note ledger = take_turn_ledger [OF Cons.prems(1) False Cons.prems(2) l]
    show ?thesis
    proof (cases l)
      case GoOn
      have "server_ok s1" "healthy s1"
        using take_turn_ok [OF Cons.prems(1) False, of t h] Cons.prems(2) by (simp_all add: turn_ok_def l GoOn)
      then show ?thesis using Cons.IH [of s1] Cons.prems(3) False ledger by (simp add: run.simps [of h "t # ts"] l GoOn)
    next
      case (Ended r)
      then show ?thesis using Cons.prems(3) False ledger by (simp add: run.simps [of h "t # ts"] l)
    qed
  qed
qed

section \<open>From bytes to bytes\<close>

text \<open>The verdict on messages that could all be read.\<close>

lemma verdict_messages:
  "verdict shut (map Inr ms) =
    (if shut \<or> list_ex (\<lambda>m. asks m ''shutdown'') (takeWhile (\<lambda>m. \<not> asks m ''exit'') ms) then 0 else 1)"
  by (induction ms arbitrary: shut) auto

text \<open>A healthy run: it has ended, with the status, the answers and the bytes that go with them.\<close>

lemma run_wire:
  fixes s :: "('g, 'v, 'e) server"
  assumes "server_with_trust cfg conn trust = Some s"
    and "sk_fault (cn_writer conn) = None" "sk_flush (cn_writer conn) = None"
    and "length (cn_incoming conn) < length (filter tn_arrived ts)"
  shows "exit_status (run h ts s) = Some (verdict False (cn_incoming conn)) \<and>
    (\<exists>out. sk_out (cn_writer (sv_conn (snd (run h ts s)))) =
         sk_out (cn_writer conn) @ concat (map (frame_of (ho_text h)) out) \<and>
       map ms_id (filter (\<lambda>m. ms_method m = None) out) = replies_due (cn_incoming conn))"
proof -
  obtain s' :: "('g, 'v, 'e) server" where "server_with_trust cfg conn trust = Some s'" "server_ok s'"
    "sv_sent s' = []" "sv_conn s' = conn" "\<not> sv_exited s'" "\<not> sv_shutdown s'"
    by (rule start_facts)
  with assms(1) have s: "server_ok s" "sv_sent s = []" "sv_conn s = conn" "\<not> sv_exited s" "\<not> sv_shutdown s" by simp_all
  obtain r t where t: "run h ts s = (r, t)" by force
  have healthy: "healthy s" using assms(2,3) s(3) by (simp add: healthy_def)
  have ends: "r \<noteq> None" "exit_status (run h ts s) = Some (verdict_of s)"
    using run_ends [OF s(1), of ts h] assms(4) healthy s(3) by (simp_all add: arrivals_def t)
  then have "replied_ids t = ledger s" using run_ledger [OF s(1) healthy] t by (cases r) simp_all
  then have ids: "map ms_id (filter (\<lambda>m. ms_method m = None) (sv_sent t)) = replies_due (cn_incoming conn)"
    using s by (simp add: ledger_def replied_ids_def replies_def)
  obtain evs where "t = session h s evs" using run_is_session [of h ts s] by (auto simp: t)
  then have "wired h (cn_writer conn) t"
    using session_carried [OF assms(1), of h evs] assms(2) by (simp add: carried_def)
  then show ?thesis
    using ends(2) ids s(3-5) by (auto simp: wired_def verdict_of_def t)
qed

end
