(* ===== verification/Spec2Isabelle.thy ===== *)
theory Spec2Isabelle
  imports Documents Trace Semantic Outline Analyze Registry Instances Jsonrpc Loaders Workspace Session Mirror Outcomes Replies
begin

text \<open>
  A verification development for \<open>tabnas-lsp\<close>, the Rust crate under \<open>rs/src\<close>: a language server
  that serves every registered tabnas grammar over JSON-RPC.

  \<^bold>\<open>The program.\<close> A client's bytes come in through \<open>jsonrpc.rs\<close> (framing, a reader thread, a
  connection). The server (\<open>server.rs\<close>) dispatches each message, keeps the open documents
  (\<open>documents.rs\<close>), routes a document to a registry entry (\<open>registry.rs\<close>), obtains the entry's
  grammar instance from a cache with a quarantine and a parse lock (\<open>instances.rs\<close>), which loads
  grammars through a firewall (\<open>loaders.rs\<close>), and, when a document's debounce has run out, makes
  one parse of it (\<open>analyze.rs\<close>). The parse's token events are recorded and reconciled
  (\<open>trace.rs\<close>), and give the semantic tokens (\<open>semantic.rs\<close>), the outline (\<open>outline.rs\<close>), the
  highlighted spans, hover and completion (\<open>highlight.rs\<close>, \<open>hover.rs\<close>, \<open>completion.rs\<close>). The
  command (\<open>bin/tabnas-lsp.rs\<close>) runs the loop over standard input and output.

  \<^bold>\<open>The theories.\<close> Definitions keep the source's names, record fields behind a prefix.
  \<^item> \<open>Prelude\<close>, \<open>RustText\<close>, \<open>Json\<close>, \<open>Paths\<close>: machine integers, strings as scalar values with
    their UTF-8, \<open>serde_json::Value\<close>, POSIX paths; the locales \<open>stateful_query\<close> (a cursor or memo
    whose answers are those of a pure function), \<open>invariant_machine\<close> and \<open>keyed_store\<close>.
  \<^item> \<open>Types\<close> (\<open>types.rs\<close>), \<open>Documents\<close>, \<open>Trace\<close>, \<open>Semantic\<close>, \<open>Outline\<close>: the data and the views of
    a parse. No position conversion, edit, column query or outline panics while the line index
    agrees with the text, which every operation keeps; offsets and positions, and the delta
    encoding, are inverse; the outline's stack walk gives the forest of nearest containment; the
    interval tree of the reconciliation refines the plain scan.
  \<^item> \<open>Analyze\<close>: \<open>analyze.rs\<close>, \<open>highlight.rs\<close>, \<open>hover.rs\<close>, \<open>completion.rs\<close>.
  \<^item> \<open>Registry\<close>: the tiers and the routing. \<open>Workspace\<close>: URIs as paths, manifests and the client's
    languages (the second half of \<open>server.rs\<close>).
  \<^item> \<open>Instances\<close>: the mux, the cache, the quarantine, hot reload, and the gate that serializes
    parses, as a step relation over threads with its invariants by rule induction.
  \<^item> \<open>Firewall\<close>, \<open>Loaders\<close>: which grammar documents pass, sandboxed and capped reading, the lanes
    of the loader.
  \<^item> \<open>Jsonrpc\<close>: messages, framing, the reader's loop, the connection.
  \<^item> \<open>Protocol\<close>: the params the handlers read and the results they write. \<open>Server\<close>: the state
    and every handler. \<open>Handlers\<close>: what each handler sends and keeps (\<open>server_ok\<close>, \<open>tidy\<close>,
    \<open>views_ok\<close>). \<open>Answers\<close>: that none fails by itself. \<open>Reload\<close>: what a change on disk drops and
    schedules. \<open>Publications\<close>: which diagnostics are pushed. \<open>Outcomes\<close>: what becomes of each due
    document. \<open>Session\<close>: sequences of the loop's work, the loop and the command; a run of the loop
    is a session (\<open>run_is_session\<close>). \<open>Mirror\<close>: the client's picture of its documents, which the
    store refines: always for a client that breaks lines at line feeds, and for one that breaks
    them as the protocol does as long as it changes no text with a lone carriage return by ranges
    (\<open>lone_return_misplaced\<close> in \<open>Documents\<close> shows what happens then).
    \<open>Replies\<close>: the answers of a whole run, read off the incoming messages.
  \<^item> this theory: the properties that span components, stated for every session.

  \<^bold>\<open>Modelling.\<close> State is passed explicitly; a Rust panic is \<open>None\<close>, and the lemmas show where it
  cannot happen; a \<open>Result\<close> is a sum, or the error, if any, beside the state. A \<open>HashMap\<close> is a
  partial function, with the order of its keys (\<open>sv_open\<close>) where a loop sees it. \<open>sv_sent\<close>
  records the messages sent, and \<open>wire_carries_sent\<close> ties it to the bytes. A \<open>u32\<close> is a 32-bit
  word; a \<open>usize\<close> is a \<open>nat\<close>, capped where the code saturates.

  \<^bold>\<open>Parameters.\<close> The engine crate (a parse, its continuations, its errors), the dialect
  compilers, the text codec of \<open>serde_json\<close> and the texts of its errors, the filesystem, Unicode
  lower-casing and printability, hashing of inline specs, the printing of doubles (\<open>js_number\<close>),
  and the clock: a handler reads it once,
  a parse as often as its budget check looks. What a property needs of one is a hypothesis in its
  statement.

  \<^bold>\<open>Bounds and fuel.\<close> The recursions of the code are total functions, by structure or a measure
  (the reader loop: every turn that goes on consumes a byte). The message loop takes its turns
  from a list: \<open>loop_ends\<close> shows that once one more thing has arrived than there were messages,
  the loop has ended. The limits of the loader (depth, rules, alternatives, bytes, repetition
  counts) and the outline's depth bound are the source's constants.

  \<^bold>\<open>Not modelled.\<close> The Windows branches of the path functions; the internals of the engine and the
  dialect compilers; the poisoning of locks, from which the code recovers; \<open>Debug\<close>, the accessors
  that only return a field, the downcast of a panic's payload and what is printed (\<open>USAGE\<close>); the \<open>fleet\<close> feature, whose grammars are crates of their own;
  the TypeScript and Go servers, the editors' configuration and the build scripts. In
  \<open>didChangeWatchedFiles\<close> the entry that serves a document is compared by the file it is reloaded
  for, where the code compares addresses.
\<close>

section \<open>Concrete servers\<close>

text \<open>A host whose engine accepts every text, a server of one language on it, and a client that opens a document.\<close>

definition sample_server_host :: "(unit, unit, unit, unit) host" where
  "sample_server_host =
     \<lparr>ho_parse = (\<lambda>g b src. ([], Some \<lparr>pr_value = Some (), pr_errors = [], pr_fatal = None\<rparr>)),
      ho_continuations = (\<lambda>g b src. ([], Some [])),
      ho_tokens = (\<lambda>g. \<lparr>tg_fixed = (\<lambda>_. None), tg_token = (\<lambda>_. None), tg_source = (\<lambda>_. None)\<rparr>),
      ho_error_json = (\<lambda>e. None), ho_code = (\<lambda>e. []), ho_detail = (\<lambda>e. []), ho_panic = (\<lambda>g src. None),
      ho_unwound = (\<lambda>m. None), ho_look = id, ho_lower = id, ho_text = (\<lambda>v. []), ho_hash = id,
      ho_files = \<lparr>fl_cwd = None, fl_canonicalize = Inr, fl_len = (\<lambda>p. Inr 0), fl_content = (\<lambda>p. Inr [])\<rparr>,
      ho_read = (\<lambda>t p. None), ho_json = (\<lambda>s. Inl []), ho_refusal = (\<lambda>v. []), ho_bad_params = (\<lambda>m v. [])\<rparr>"

definition sample_config :: "unit config" where
  "sample_config = (config_new (\<lambda>t n e. Made ()))\<lparr>cf_entries := [entry_new (str ''x'')]\<rparr>"

definition sample_connection :: "message list \<Rightarrow> connection" where
  "sample_connection ms = \<lparr>cn_incoming = map Inr ms, cn_writer = \<lparr>sk_out = [], sk_fault = None, sk_flush = None\<rparr>\<rparr>"

definition sample_server :: "message list \<Rightarrow> (unit, unit, unit) server" where
  "sample_server ms = the (server_with_trust sample_config (sample_connection ms) False)"

definition sample_open :: message where
  "sample_open = message_notification (str ''textDocument/didOpen'') (Some (JArr [JArr [JStr (str ''u''),
     JStr (str ''x''), JNum (NInt 1), JStr (str ''a'')]]))"

definition sample_reopen :: message where
  "sample_reopen = message_notification (str ''textDocument/didOpen'') (Some (JArr [JArr [JStr (str ''u''),
     JStr (str ''x''), JNum (NInt 1), JStr (str ''b'')]]))"

text \<open>An insertion into that document, at a line and a character.\<close>

definition sample_change :: "int \<Rightarrow> int \<Rightarrow> int \<Rightarrow> rstr \<Rightarrow> message" where
  "sample_change version line char txt =
     (let at = JArr [JNum (NInt line), JNum (NInt char)]
      in message_notification (str ''textDocument/didChange'') (Some (obj [
        (''textDocument'', obj [(''uri'', JStr (str ''u'')), (''version'', JNum (NInt version))]),
        (''contentChanges'', JArr [obj [(''range'', JArr [at, at]), (''text'', JStr txt)]])])))"

text \<open>A client that shuts the server down, and a text codec that knows its two messages.\<close>

definition sample_goodbye :: "message list" where
  "sample_goodbye = [message_request (JNum (NInt 1)) (str ''shutdown'') None, message_notification (str ''exit'') None]"

definition sample_text :: "json \<Rightarrow> rstr" where
  "sample_text v = (if v = message_to_json (hd sample_goodbye) then str ''a'' else str ''b'')"

definition sample_parse :: "u8 list \<Rightarrow> rstr + json" where
  "sample_parse b = Inr (message_to_json (if b = [97] then hd sample_goodbye else last sample_goodbye))"

text \<open>A server of one workspace language, whose grammar file is watched.\<close>

definition watched_entry :: entry where
  "watched_entry = (entry_new (str ''x''))\<lparr>en_source := Workspace, en_dir := Some (str ''/w''), en_scope := ScopeSession,
     en_load := Some (LoadGrammar (str ''g.abnf''))\<rparr>"

definition watched_server :: "(unit, unit, unit) server" where
  "watched_server = the (server_with_trust (sample_config\<lparr>cf_entries := [watched_entry]\<rparr>) (sample_connection []) True)"

section \<open>Properties of the whole server\<close>

text \<open>
  C1: the state of a session is well-typed. Whatever a client sends and in whatever order the
  loop does its work, the open documents are listed once each, are filed under their own URI
  and have a sound line index; deadlines, cached analyses and published diagnostics exist for
  open documents only, one deadline each; the router's index is exact; no collector and no
  parse deadline is left set, every cached instance has one pair of subscribers; and new
  documents count in the negotiated encoding.
\<close>

theorem session_well_formed:
  "case (server_with_trust cfg conn trust :: ('g, 'v, 'e) server option) of
     None \<Rightarrow> False
   | Some s0 \<Rightarrow>
       (let s = session h s0 evs
        in distinct (sv_open s) \<and> set (sv_open s) = dom (store_get (sv_docs s)) \<and>
           list_all (\<lambda>uri. case store_get (sv_docs s) uri of
              None \<Rightarrow> False
            | Some d \<Rightarrow> doc_uri d = uri \<and>
                doc_line_starts d \<in> {None, Some (line_starts_of (doc_text d))}) (sv_open s) \<and>
           distinct (map fst (sv_pending s)) \<and>
           fst ` set (sv_pending s) \<union> dom (sv_analyses s) \<union> sv_published s \<subseteq> set (sv_open s) \<and>
           router_ok (sv_router s) \<and> sv_slot s = None \<and> in_slot (sv_instances s) = None \<and>
           ran (in_cache (sv_instances s)) \<subseteq> {p. ps_pairs p = 1} \<and>
           st_encoding (sv_docs s) = sv_encoding s)"
proof -
  obtain s0 :: "('g, 'v, 'e) server" where s0: "server_with_trust cfg conn trust = Some s0"
    by (rule start_facts)
  let ?s = "session h s0 evs"
  have ok: "server_ok ?s" by (rule session_ok [OF s0])
  note facts = server_okD [OF ok]
  have "list_all (\<lambda>uri. case store_get (sv_docs ?s) uri of None \<Rightarrow> False
      | Some d \<Rightarrow> doc_uri d = uri \<and> doc_line_starts d \<in> {None, Some (line_starts_of (doc_text d))}) (sv_open ?s)"
    unfolding list_all_iff using facts(1) facts(11) by (fastforce simp: index_ok_def split: option.splits)
  then show ?thesis
    using facts(1-7,9,10) facts(8) unfolding s0 Let_def option.case instances_ok_def by blast
qed

text \<open>
  C7: no diagnostics are left behind. Whatever a client sends and in whatever order the loop
  does its work, a document that shows diagnostics in the client, by the last publication sent
  for it, is open, and is recorded as one to clear.
\<close>

theorem no_diagnostics_left_behind:
  "case (server_with_trust cfg conn trust :: ('g, 'v, 'e) server option) of
     None \<Rightarrow> False
   | Some s0 \<Rightarrow>
       (let s = session h s0 evs
        in {uri. shown (sv_sent s) uri \<noteq> []} \<subseteq> sv_published s \<inter> set (sv_open s))"
proof -
  obtain s0 :: "('g, 'v, 'e) server" where s0: "server_with_trust cfg conn trust = Some s0"
    by (rule start_facts)
  have "tidy (session h s0 evs)" "sv_published (session h s0 evs) \<subseteq> set (sv_open (session h s0 evs))"
    by (rule session_tidy [OF s0] server_okD(6) [OF session_ok [OF s0]])+
  then show ?thesis unfolding s0 Let_def option.case tidy_def by blast
qed

text \<open>
  C8: results never land on newer content. Whatever happens next in a session, every publication
  of diagnostics it sends is for a document that is open and stamped with the version the
  document has, or is the empty one that clears a document that is open no more.
\<close>

theorem publications_stamped:
  "case (server_with_trust cfg conn trust :: ('g, 'v, 'e) server option) of
     None \<Rightarrow> False
   | Some s0 \<Rightarrow>
       (let s = session h s0 evs; s' = session_step h s ev
        in \<exists>ms. sv_sent s' = sv_sent s @ ms \<and>
             list_all (\<lambda>m.
               (\<exists>uri d ds. store_get (sv_docs s) uri = Some d \<and> store_get (sv_docs s') uri = Some d \<and>
                  m = publishing uri (Some (doc_version d)) ds) \<or>
               (\<exists>uri. store_get (sv_docs s') uri = None \<and> m = publishing uri None []))
               (filter (\<lambda>m. ms_method m = Some (str ''textDocument/publishDiagnostics'')) ms))"
proof -
  obtain s0 :: "('g, 'v, 'e) server" where s0: "server_with_trust cfg conn trust = Some s0"
    by (rule start_facts)
  let ?s = "session h s0 evs" and ?t = "session_step h (session h s0 evs) ev"
  have ok: "server_ok ?s" by (rule session_ok [OF s0])
  obtain ms where ms: "sv_sent ?t = sv_sent ?s @ ms" using step_extends [OF ok] by blast
  obtain ps where "pubs ?t = pubs ?s @ ps" "list_all (current_push ?s ?t) ps" using step_pubs [OF ok] by blast
  with ms have push: "list_all (current_push ?s ?t) (filter is_push ms)" by (simp add: pubs_def)
  show ?thesis
    unfolding s0 Let_def option.case
    using ms push [unfolded current_push_def [abs_def] is_push_def [abs_def]] by blast
qed

text \<open>
  C5: what is served is current. As long as the client never opens a document that is already
  open, the analysis that document symbols, semantic tokens and hover are served from is the
  analysis of the document's text as it is now: of one parse of that text that did not fail,
  with exactly the tokens and rules that parse reported.
\<close>

theorem served_views_current:
  assumes "server_with_trust cfg conn trust = Some s0" "orderly h s0 evs"
    and "current_analysis (session h s0 evs) uri = Some a"
  shows "\<exists>d g b e recovery events. store_get (sv_docs (session h s0 evs)) uri = Some d \<and>
    ho_parse h g b (doc_text d) = (events, Some recovery) \<and>
    analyze (ho_error_json h) (\<lambda>_. (recovery, recorded events)) e d = Some a \<and> \<not> an_failed a"
proof -
  let ?s = "session h s0 evs"
  have "views_ok h ?s" by (rule orderly_views [OF assms(1,2)])
  moreover obtain d where "store_get (sv_docs ?s) uri = Some d" "sv_analyses ?s uri = Some (doc_version d, a)"
    using assms(3) by (auto simp: current_analysis_def elim!: bind_SomeE split: option.splits if_splits)
  ultimately show ?thesis unfolding views_ok_def analysis_of_def by blast
qed

theorem served_views_current_witness:
  "\<exists>a d g b e recovery events.
    current_analysis (session sample_server_host (sample_server []) [Handled 0 sample_open, Flushed 1]) (str ''u'') = Some a \<and>
    store_get (sv_docs (session sample_server_host (sample_server []) [Handled 0 sample_open, Flushed 1])) (str ''u'') = Some d \<and>
    ho_parse sample_server_host g b (doc_text d) = (events, Some recovery) \<and>
    analyze (ho_error_json sample_server_host) (\<lambda>_. (recovery, recorded events)) e d = Some a \<and> \<not> an_failed a"
proof -
  let ?s = "session sample_server_host (sample_server []) [Handled 0 sample_open, Flushed 1]"
  have start: "server_with_trust sample_config (sample_connection []) False = Some (sample_server [])"
    unfolding sample_server_def
    using start_facts [where cfg = sample_config and conn = "sample_connection []" and trust = False] by (metis option.sel)
  have orderly: "orderly sample_server_host (sample_server []) [Handled 0 sample_open, Flushed 1]" by code_simp
  have "current_analysis ?s (str ''u'') \<noteq> None" by code_simp
  then obtain a where a: "current_analysis ?s (str ''u'') = Some a" by blast
  from served_views_current [OF start orderly a] a show ?thesis by blast
qed

text \<open>
  C2: every request is answered exactly once. Wherever a session stands, handling a message
  sends, among logs and publications, one answer to the message's id when it is a request that
  is due one, and none otherwise; no handler unwinds, and no answer goes to another id.
\<close>

theorem requests_answered_once:
  "case (server_with_trust cfg conn trust :: ('g, 'v, 'e) server option) of
     None \<Rightarrow> False
   | Some s0 \<Rightarrow>
       (let s = session h s0 evs
        in fst (handle h now m s) \<noteq> None \<and>
           (\<exists>ms. sv_sent (snd (handle_contained h now m s)) = sv_sent s @ ms \<and>
              map ms_id (filter (\<lambda>x. ms_method x = None) ms) = replicate (answers_due m) (ms_id m)))"
proof -
  obtain s0 :: "('g, 'v, 'e) server" where s0: "server_with_trust cfg conn trust = Some s0"
    by (rule start_facts)
  let ?s = "session h s0 evs"
  have ok: "server_ok ?s" by (rule session_ok [OF s0])
  obtain rs where rs: "replied h ?s (snd (handle_contained h now m ?s)) rs"
    "map ms_id rs = replicate (answers_due m) (ms_id m)"
    using contained_facts(5) [OF ok] by blast
  have "(\<lambda>x. \<not> unsolicited x) = (\<lambda>x. ms_method x = None)" by (simp add: unsolicited_def)
  then have "\<exists>ms. sv_sent (snd (handle_contained h now m ?s)) = sv_sent ?s @ ms \<and>
      map ms_id (filter (\<lambda>x. ms_method x = None) ms) = replicate (answers_due m) (ms_id m)"
    using rs by (auto simp: replied_def sends_def)
  moreover have "fst (handle h now m ?s) \<noteq> None"
    using handle_contained_answered [OF ok, of h now m] by force
  ultimately show ?thesis unfolding s0 Let_def option.case by blast
qed

text \<open>
  C10: what is due is analyzed and the rest waits. Wherever a session stands, a look for due
  documents that meets no failing write sends, for each of them in the order of their deadlines,
  exactly its outcome: the diagnostics of one parse of its text, stamped with its version; that
  it is too large; that its grammar did not load or its analysis failed, which is then counted;
  nothing, when its grammar is quarantined; or the withdrawal of what it showed, when no entry
  serves it. It leaves exactly the deadlines that have not run out, and the loop then waits for
  the earliest of those.
\<close>

theorem due_documents_analyzed:
  "case (server_with_trust cfg conn trust :: ('g, 'v, 'e) server option) of
     None \<Rightarrow> False
   | Some s0 \<Rightarrow>
       (let s = session h s0 evs
        in case analyze_due h now s of
             (Some err, s') \<Rightarrow> \<not> healthy s
           | (None, s') \<Rightarrow>
               (\<exists>outs. sv_sent s' = sv_sent s @ concat outs \<and>
                  list_all2 (outcome h s s') (in_order (filter (\<lambda>(uri, at). at \<le> now) (sv_pending s))) outs) \<and>
               sv_pending s' = filter (\<lambda>(uri, at). now < at) (sv_pending s) \<and>
               next_deadline s' = (if sv_pending s' = [] then None else Some (Min (snd ` set (sv_pending s')))))"
proof -
  obtain s0 :: "('g, 'v, 'e) server" where s0: "server_with_trust cfg conn trust = Some s0"
    by (rule start_facts)
  let ?s = "session h s0 evs"
  have ok: "server_ok ?s" by (rule session_ok [OF s0])
  obtain r s' where r: "analyze_due h now ?s = (r, s')" by force
  have "healthy ?s \<Longrightarrow> r = None" using due_facts(5) [OF ok, of h now] by (simp add: r)
  moreover have "r = None \<Longrightarrow> sv_pending s' = filter (\<lambda>(uri, at). now < at) (sv_pending ?s)"
    using analyze_due_pending [OF ok, of h now] by (simp add: r)
  moreover have "r = None \<Longrightarrow> \<exists>outs. sv_sent s' = sv_sent ?s @ concat outs \<and>
      list_all2 (outcome h ?s s') (in_order (filter (\<lambda>(uri, at). at \<le> now) (sv_pending ?s))) outs"
    using due_outcomes [OF ok, of h now s'] by (simp add: r)
  moreover note next_deadline_Min [of s']
  ultimately show ?thesis
    unfolding s0 Let_def option.case r prod.case by (cases r) auto
qed

text \<open>
  C3: the server's documents are the client's. Over every session, whatever else the client
  sends and the loop does, the store holds exactly the documents the client has open, each with
  the language, the version and the text the client has, and with the encoding that was agreed
  when it was opened. The client edits by the store's lines, which are broken at line feeds; a
  client that edits by the protocol's, which are broken at a lone carriage return too, has the
  same documents as long as it changes no text with one by a range.
\<close>

theorem documents_mirror_client:
  "case (server_with_trust cfg conn trust :: ('g, 'v, 'e) server option) of
     None \<Rightarrow> False
   | Some s0 \<Rightarrow>
       picture (sv_docs (session h s0 evs)) = foldl (client_event store_edit) client_start evs \<and>
       (lines_agree client_start evs \<longrightarrow>
         picture (sv_docs (session h s0 evs)) = foldl (client_event protocol_edit) client_start evs)"
proof -
  obtain s0 :: "('g, 'v, 'e) server" where s0: "server_with_trust cfg conn trust = Some s0" "server_ok s0"
    by (rule start_facts)
  have mirror: "picture (sv_docs (session h s0 evs)) = foldl (client_event store_edit) client_start evs"
    using session_mirrors [OF s0(2), of h evs] start_docs [OF s0(1)] by (simp add: picture_new)
  show ?thesis
    unfolding s0(1) option.case using mirror clients_agree [of client_start evs] by simp
qed

theorem documents_mirror_client_witness:
  "map_option cl_text (cl_docs (picture (sv_docs (session sample_server_host (sample_server [])
      [Handled 0 sample_open, Handled 1 (sample_change 2 0 1 [13, 10, 0x1D11E]), Due 2, Handled 3 (sample_change 3 1 2 [98])])))
    (str ''u'')) = Some [97, 13, 10, 0x1D11E, 98]"
proof -
  let ?evs = "[Handled 0 sample_open, Handled 1 (sample_change 2 0 1 [13, 10, 0x1D11E]), Due 2, Handled 3 (sample_change 3 1 2 [98])]"
  have start: "server_with_trust sample_config (sample_connection []) False = Some (sample_server [])"
    unfolding sample_server_def
    using start_facts [where cfg = sample_config and conn = "sample_connection []" and trust = False] by (metis option.sel)
  have agree: "lines_agree client_start ?evs" by code_simp
  have told: "map_option cl_text (cl_docs (foldl (client_event protocol_edit) client_start ?evs) (str ''u'')) =
      Some [97, 13, 10, 0x1D11E, 98]" by code_simp
  have "picture (sv_docs (session sample_server_host (sample_server []) ?evs)) =
      foldl (client_event protocol_edit) client_start ?evs"
    using documents_mirror_client [where cfg = sample_config and conn = "sample_connection []" and trust = False
        and h = sample_server_host and evs = ?evs] agree
    unfolding start option.case by blast
  then show ?thesis using told by (simp only:)
qed

text \<open>
  C9: hot reload misses no document. When the grammar file of the entry that serves an open
  document is among the changed files, whichever way the client wrote its URI, nothing of that
  entry is left in the cache, no instance under any folder and no failure, so that its
  quarantine is lifted, and the document is analyzed again one debounce later; a manifest that
  changed with it does no less.
\<close>

theorem hot_reload_complete:
  assumes "server_with_trust cfg conn trust = Some s0"
    and "store_get (sv_docs (session h s0 evs)) uri = Some d" "route h (session h s0 evs) d = Some e"
    and "watched_file (ho_files h) e = Some f"
    and "c \<in> set (List.map_filter folder_path_of uris)" "same_path (normalize c) f"
  shows "let s = session h s0 evs; s' = did_change_watched_files h now uris s
    in map_of (sv_pending s') uri = Some (now + cf_debounce (sv_config s)) \<and>
       (\<forall>folder. in_cache (sv_instances s') (key (ho_text h) (ho_hash h) e folder) = None \<and>
          in_failures (sv_instances s') (key (ho_text h) (ho_hash h) e folder) = None)"
proof -
  have "normalize c \<in> set (map normalize (List.map_filter folder_path_of uris))" using assms(5) by simp
  from reload_complete [OF session_ok [OF assms(1)] assms(2-4) this assms(6), of now] show ?thesis
    unfolding Let_def gone_def .
qed

theorem hot_reload_complete_witness:
  "let s = session sample_server_host watched_server [Handled 0 sample_open, Flushed 1];
       s' = did_change_watched_files sample_server_host 7 [str ''file:///w/./g.abnf''] s
   in map_of (sv_pending s') (str ''u'') = Some 157 \<and>
      (\<exists>d e. store_get (sv_docs s) (str ''u'') = Some d \<and> route sample_server_host s d = Some e \<and>
        in_cache (sv_instances s') (key (\<lambda>v. []) id e None) = None)"
proof -
  let ?s = "session sample_server_host watched_server [Handled 0 sample_open, Flushed 1]"
  have start: "server_with_trust (sample_config\<lparr>cf_entries := [watched_entry]\<rparr>) (sample_connection []) True = Some watched_server"
    unfolding watched_server_def
    using start_facts [where cfg = "sample_config\<lparr>cf_entries := [watched_entry]\<rparr>" and conn = "sample_connection []" and trust = True]
    by (metis option.sel)
  have "Option.bind (Option.bind (store_get (sv_docs ?s) (str ''u'')) (route sample_server_host ?s))
      (watched_file (ho_files sample_server_host)) = Some (str ''/w/g.abnf'')" by code_simp
  then obtain d e where d: "store_get (sv_docs ?s) (str ''u'') = Some d" and e: "route sample_server_host ?s d = Some e"
    and f: "watched_file (ho_files sample_server_host) e = Some (str ''/w/g.abnf'')"
    by (auto elim!: bind_SomeE)
  have c: "str ''/w/g.abnf'' \<in> set (List.map_filter folder_path_of [str ''file:///w/./g.abnf''])" by code_simp
  have same: "same_path (normalize (str ''/w/g.abnf'')) (str ''/w/g.abnf'')" by code_simp
  have debounce: "cf_debounce (sv_config ?s) = 150" by code_simp
  have host: "ho_text sample_server_host = (\<lambda>v. [])" "ho_hash sample_server_host = id"
    by (simp_all add: sample_server_host_def)
  from hot_reload_complete [OF start d e f c same, of 7] d e show ?thesis
    unfolding Let_def debounce host by auto
qed

text \<open>
  C23: the wire carries what was sent. Unless the writer fails, at any point of a session the
  bytes written are the frames of the messages sent so far, whole and in the order they were
  sent, after what was on the wire before, whatever was handled, rejected or analyzed.
\<close>

theorem wire_carries_sent:
  "case (server_with_trust cfg conn trust :: ('g, 'v, 'e) server option) of
     None \<Rightarrow> False
   | Some s0 \<Rightarrow>
       (let s = session h s0 evs
        in case sk_fault (cn_writer conn) of
             Some f \<Rightarrow> True
           | None \<Rightarrow> sk_out (cn_writer (sv_conn s)) =
               sk_out (cn_writer conn) @ concat (map (frame_of (ho_text h)) (sv_sent s)))"
proof -
  obtain s0 :: "('g, 'v, 'e) server" where s0: "server_with_trust cfg conn trust = Some s0"
    by (rule start_facts)
  from session_carried [OF s0, of h evs] show ?thesis
    unfolding s0 Let_def option.case by (simp add: carried_def wired_def split: option.splits)
qed

text \<open>
  C24: the loop ends. Whatever arrives, the message loop cannot still be going once more things
  have arrived than the connection had messages to give: each turn that is given something
  takes one message, or sees the end of the stream and stops.
\<close>

theorem loop_ends:
  "case (server_with_trust cfg conn trust :: ('g, 'v, 'e) server option) of
     None \<Rightarrow> False
   | Some s0 \<Rightarrow>
       (case run h ts s0 of
          (None, s') \<Rightarrow> length (filter tn_arrived ts) \<le> length (cn_incoming conn)
        | (Some r, s') \<Rightarrow> True)"
proof -
  obtain s0 :: "('g, 'v, 'e) server" where s0: "server_with_trust cfg conn trust = Some s0"
    "server_ok s0" "sv_conn s0 = conn"
    by (rule start_facts)
  obtain r s' where r: "run h ts s0 = (r, s')" by force
  then have "r \<noteq> None \<or> length (filter tn_arrived ts) \<le> length (cn_incoming conn)"
    using run_ends [OF s0(2), of ts h] s0(3) by (cases "length (cn_incoming conn) < arrivals ts") (simp_all add: arrivals_def)
  then show ?thesis unfolding s0(1) option.case r prod.case by (auto split: option.splits)
qed

text \<open>
  C6: the exit status is the protocol's. For a client that stays and a writer that does not
  fail, the status the command exits with is read off the client's messages alone: 0 when
  \<open>shutdown\<close> came before \<open>exit\<close> or the end of the stream, 1 otherwise and 1 when the stream
  fails first; what was opened, edited or analyzed, malformed messages and unknown ones have no
  say in it.
\<close>

theorem exit_status_of_messages:
  assumes "sk_fault (cn_writer conn) = None" "sk_flush (cn_writer conn) = None"
    and "length (cn_incoming conn) < length (filter tn_arrived ts)"
  shows "case (stdio_server lh l bundled conn :: ('g, 'v, 'e) server option) of
      None \<Rightarrow> False
    | Some s0 \<Rightarrow> exit_status (run h ts s0) = Some (verdict False (cn_incoming conn))"
proof -
  obtain s0 :: "('g, 'v, 'e) server" where s0: "stdio_server lh l bundled conn = Some s0"
    "server_ok s0" "sv_conn s0 = conn" "\<not> sv_exited s0" "\<not> sv_shutdown s0"
    unfolding stdio_server_def by (rule start_facts)
  have "exit_status (run h ts s0) = Some (verdict_of s0)"
    using run_ends [OF s0(2), of ts h] s0(3) assms by (simp add: arrivals_def healthy_def)
  then show ?thesis unfolding s0(1) option.case using s0(3-5) by (simp add: verdict_of_def)
qed

theorem exit_status_of_messages_witness:
  "\<forall>lh. case (stdio_server lh loader_new [] (sample_connection
       [message_request (JNum (NInt 1)) (str ''shutdown'') None, message_notification (str ''exit'') None]) ::
       (unit, unit, unit) server option) of
     None \<Rightarrow> False
   | Some s0 \<Rightarrow> exit_status (run sample_server_host
       (replicate 3 \<lparr>tn_due = 0, tn_at = 0, tn_arrived = True\<rparr>) s0) = Some 0"
proof -
  let ?conn = "sample_connection [message_request (JNum (NInt 1)) (str ''shutdown'') None, message_notification (str ''exit'') None]"
  have "sk_fault (cn_writer ?conn) = None" "sk_flush (cn_writer ?conn) = None"
    "length (cn_incoming ?conn) < length (filter tn_arrived (replicate 3 \<lparr>tn_due = 0, tn_at = 0, tn_arrived = True\<rparr>))"
    by (simp_all add: sample_connection_def eval_nat_numeral)
  note status = exit_status_of_messages [OF this]
  have "verdict False (cn_incoming ?conn) = 0" by code_simp
  with status [where h = sample_server_host] show ?thesis by (simp only:) simp
qed

text \<open>
  C4: from bytes to bytes. A client writes its messages, framed, to the command's standard input
  and closes it. The command then exits, with status 0 exactly when \<open>shutdown\<close> came before
  \<open>exit\<close> or the end; and what it wrote to its standard output are whole frames, whose answers
  are, in the order of the requests and with their ids, one for each request up to \<open>exit\<close> that
  is due one, whatever publications and log lines are between them. It relies on \<open>serde_json\<close>
  reading back the bodies the client wrote.
\<close>

theorem command_over_the_wire:
  assumes "list_all (\<lambda>m. wire_ok m \<and> length (encode_utf8 (jt (message_to_json m))) < u64_limit \<and>
      jp (encode_utf8 (jt (message_to_json m))) = Inr (message_to_json m)) ms"
    and "sk_fault k = None" "sk_flush k = None" "length ms < length (filter tn_arrived ts)"
  shows "case (stdio_server lh l bundled
        (connection_new jp de dbg None \<lparr>sm_bytes = concat (map (frame_of jt) ms), sm_fault = None\<rparr> k) ::
        ('g, 'v, 'e) server option) of
      None \<Rightarrow> False
    | Some s0 \<Rightarrow>
        exit_status (run h ts s0) =
          Some (if list_ex (\<lambda>m. asks m ''shutdown'') (takeWhile (\<lambda>m. \<not> asks m ''exit'') ms) then 0 else 1) \<and>
        (\<exists>out. sk_out (cn_writer (sv_conn (snd (run h ts s0)))) = sk_out k @ concat (map (frame_of (ho_text h)) out) \<and>
           map ms_id (filter (\<lambda>m. ms_method m = None) out) = replies_due (map Inr ms))"
proof -
  let ?conn = "connection_new jp de dbg None \<lparr>sm_bytes = concat (map (frame_of jt) ms), sm_fault = None\<rparr> k"
  obtain s0 :: "('g, 'v, 'e) server" where s0: "stdio_server lh l bundled ?conn = Some s0"
    unfolding stdio_server_def by (rule start_facts)
  have read: "cn_incoming ?conn = map Inr ms" "cn_writer ?conn = k"
    using assms(1) reader_loop_frames [of ms jt jp de dbg "[]" None]
    by (simp_all add: connection_new_def body_of_def list_all_iff reader_loop_end)
  have "exit_status (run h ts s0) = Some (verdict False (map Inr ms)) \<and>
    (\<exists>out. sk_out (cn_writer (sv_conn (snd (run h ts s0)))) = sk_out k @ concat (map (frame_of (ho_text h)) out) \<and>
       map ms_id (filter (\<lambda>m. ms_method m = None) out) = replies_due (map Inr ms))"
    using run_wire [OF s0 [unfolded stdio_server_def], of ts h] assms(2-4) by (simp add: read)
  then show ?thesis unfolding s0 option.case by (simp add: verdict_messages)
qed

theorem command_over_the_wire_witness:
  "\<forall>lh. case (stdio_server lh loader_new [] (connection_new sample_parse (\<lambda>_. []) id None
        \<lparr>sm_bytes = concat (map (frame_of sample_text) sample_goodbye), sm_fault = None\<rparr>
        \<lparr>sk_out = [], sk_fault = None, sk_flush = None\<rparr>) :: (unit, unit, unit) server option) of
      None \<Rightarrow> False
    | Some s0 \<Rightarrow>
        exit_status (run sample_server_host (replicate 3 \<lparr>tn_due = 0, tn_at = 0, tn_arrived = True\<rparr>) s0) = Some 0 \<and>
        (\<exists>out. sk_out (cn_writer (sv_conn (snd (run sample_server_host
             (replicate 3 \<lparr>tn_due = 0, tn_at = 0, tn_arrived = True\<rparr>) s0)))) =
             concat (map (frame_of (ho_text sample_server_host)) out) \<and>
           map ms_id (filter (\<lambda>m. ms_method m = None) out) = [Some (JNum (NInt 1))])"
proof -
  let ?k = "\<lparr>sk_out = [], sk_fault = None, sk_flush = None\<rparr>"
  have codec: "list_all (\<lambda>m. wire_ok m \<and> length (encode_utf8 (sample_text (message_to_json m))) < u64_limit \<and>
      sample_parse (encode_utf8 (sample_text (message_to_json m))) = Inr (message_to_json m)) sample_goodbye"
    by code_simp
  have turns: "length sample_goodbye < length (filter tn_arrived (replicate 3 \<lparr>tn_due = 0, tn_at = 0, tn_arrived = True\<rparr>))"
    by code_simp
  have k: "sk_fault ?k = None" "sk_flush ?k = None" "sk_out ?k = []" by simp_all
  note wire = command_over_the_wire [OF codec k(1,2) turns]
  have "list_ex (\<lambda>m. asks m ''shutdown'') (takeWhile (\<lambda>m. \<not> asks m ''exit'') sample_goodbye)"
    "replies_due (map Inr sample_goodbye) = [Some (JNum (NInt 1))]"
    by code_simp+
  then show ?thesis
    using wire [where h = sample_server_host and l = loader_new and bundled = "[]" and de = "\<lambda>_. []" and dbg = id]
    by (simp only: k(3) if_True append_Nil) simp
qed

text \<open>
  C25: no manifest runs code unasked. Until the client grants it, a module load of an entry that
  came from a folder's manifest is refused, whatever the host's loader would do, and the
  refusal names the entry and the module.
\<close>

theorem manifest_modules_gated:
  "case read_workspace_manifest rf jp de folder of
     Inl err \<Rightarrow> True
   | Inr es \<Rightarrow> list_all (\<lambda>e. case entry_load e of
         LoadModule name \<Rightarrow> gated_make_instance inner False deadline n e = MakeFailed (refused_module e name)
       | _ \<Rightarrow> True) es"
proof -
  have "gated_make_instance inner False deadline n e = MakeFailed (refused_module e name)"
    if "is_workspace e" "entry_load e = LoadModule name" for e name
    using that by (simp add: gated_make_instance_def)
  then show ?thesis
    using manifest_stamps [of rf jp de folder]
    by (auto simp: list_all_iff split: sum.splits load.splits)
qed

section \<open>Divergences\<close>

text \<open>
  A request for a notification's kind gets no answer, though \<open>handle\<close> says every request does;
  and a document opened again with the version it had is served from the analysis of its old
  text until it is analyzed again.
\<close>

theorem request_left_unanswered:
  "sv_sent (snd (handle_contained sample_server_host 0
     (message_request (JNum (NInt 1)) (str ''initialized'') None) (sample_server []))) = []"
  by code_simp

theorem reopened_served_stale:
  "let s = session sample_server_host (sample_server []) [Handled 0 sample_open, Flushed 1];
       s' = snd (handle_contained sample_server_host 2 sample_reopen s)
   in map_option doc_text (store_get (sv_docs s) (str ''u'')) = Some (str ''a'') \<and>
      map_option doc_text (store_get (sv_docs s') (str ''u'')) = Some (str ''b'') \<and>
      current_analysis s (str ''u'') \<noteq> None \<and> current_analysis s' (str ''u'') = current_analysis s (str ''u'')"
  by code_simp

end
